(* ===== verification/Prelude.thy ===== *)
theory Prelude
  imports Main "HOL-Library.Word" "HOL-Library.Signed_Division"
begin

text \<open>
  Shared vocabulary of the development: how a Go call can end, the bind of calls in sequence,
  Go's byte slices and strings, and the padding arithmetic of the D-Bus wire format.

  A Go call returns a value, returns a non-nil error, panics, or does not return at all. The
  model makes the cases values: \<open>Inr x\<close> for a returned value, and \<open>Inl\<close> of a
  \<open>failure\<close> otherwise. \<open>PanicErr e\<close> is \<open>panic(err)\<close> with an error value. \<open>Blocked s\<close>
  is a call that waits forever, for a lock that its own goroutine holds or a message that will not
  come. \<open>OutOfFuel\<close> is used only by the functions that model loops whose termination depends on
  the input; it says that the fuel given to the model was not enough, and a call that runs out of
  every amount of fuel is a call that does not return.
\<close>

section \<open>Outcomes of Go calls\<close>

datatype 'e failure = Error 'e | Panic string | PanicErr 'e | Blocked string | OutOfFuel

type_synonym ('e, 'a) outcome = "'e failure + 'a"

text \<open>Sequencing: the next call runs on the value of the previous one, or not at all.\<close>

definition ebind :: "('e, 'a) outcome \<Rightarrow> ('a \<Rightarrow> ('e, 'b) outcome) \<Rightarrow> ('e, 'b) outcome" where
  "ebind m f = (case m of Inl e \<Rightarrow> Inl e | Inr x \<Rightarrow> f x)"

lemma ebind_simps [simp]:
  "ebind (Inl e) f = Inl e"
  "ebind (Inr x) f = f x"
  by (simp_all add: ebind_def)

lemma ebind_cong [fundef_cong]:
  assumes "m = m'" and "\<And>x. m' = Inr x \<Longrightarrow> f x = g x"
  shows "ebind m f = ebind m' g"
  using assms by (simp add: ebind_def split: sum.split)

lemma ebind_Inr_iff: "ebind m f = Inr y \<longleftrightarrow> (\<exists>x. m = Inr x \<and> f x = Inr y)"
  by (cases m) simp_all

lemma ebind_InrE:
  assumes "ebind m f = Inr y"
  obtains x where "m = Inr x" "f x = Inr y"
  using assms by (auto simp: ebind_Inr_iff)

lemma ebind_Inl_iff:
  "ebind m f = Inl e \<longleftrightarrow> m = Inl e \<or> (\<exists>x. m = Inr x \<and> f x = Inl e)"
  by (cases m) simp_all

lemma ebind_assoc: "ebind (ebind m f) g = ebind m (\<lambda>x. ebind (f x) g)"
  by (cases m) simp_all

lemma ebind_split:
  "P (ebind m f) \<longleftrightarrow> (\<forall>e. m = Inl e \<longrightarrow> P (Inl e)) \<and> (\<forall>x. m = Inr x \<longrightarrow> P (f x))"
  by (cases m) simp_all

lemma ebind_split_asm:
  "P (ebind m f) \<longleftrightarrow>
     \<not> ((\<exists>e. m = Inl e \<and> \<not> P (Inl e)) \<or> (\<exists>x. m = Inr x \<and> \<not> P (f x)))"
  by (cases m) simp_all

text \<open>
  A call that uses fuel either finishes, or has run out. \<open>fuel_le\<close> orders two outcomes of the
  same call by the fuel they got: an outcome other than running out is final.
\<close>

definition fuel_le :: "('e, 'a) outcome \<Rightarrow> ('e, 'a) outcome \<Rightarrow> bool" where
  "fuel_le m m' \<longleftrightarrow> m = Inl OutOfFuel \<or> m' = m"

named_theorems fuel_intro \<open>outcomes ordered by fuel, by the shape of the code\<close>

lemma fuel_le_refl [simp, fuel_intro]: "fuel_le m m"
  by (simp add: fuel_le_def)

lemma fuel_le_out [simp]: "fuel_le (Inl OutOfFuel) m"
  by (simp add: fuel_le_def)

lemma fuel_le_trans: "fuel_le a b \<Longrightarrow> fuel_le b c \<Longrightarrow> fuel_le a c"
  by (auto simp: fuel_le_def)

lemma fuel_le_ebind [fuel_intro]:
  "fuel_le m m' \<Longrightarrow> (\<And>x. m = Inr x \<Longrightarrow> fuel_le (f x) (f' x)) \<Longrightarrow>
   fuel_le (ebind m f) (ebind m' f')"
  by (cases m) (auto simp: fuel_le_def)

lemma fuel_le_if [fuel_intro]:
  "(b \<Longrightarrow> fuel_le x x') \<Longrightarrow> (\<not> b \<Longrightarrow> fuel_le y y') \<Longrightarrow>
   fuel_le (if b then x else y) (if b then x' else y')"
  by simp

lemma fuel_le_prod [fuel_intro]:
  "(\<And>a b. p = (a, b) \<Longrightarrow> fuel_le (f a b) (f' a b)) \<Longrightarrow>
   fuel_le (case p of (a, b) \<Rightarrow> f a b) (case p of (a, b) \<Rightarrow> f' a b)"
  by (cases p) simp

lemma fuel_le_list [fuel_intro]:
  "fuel_le x x' \<Longrightarrow> (\<And>a as. xs = a # as \<Longrightarrow> fuel_le (f a as) (f' a as)) \<Longrightarrow>
   fuel_le (case xs of [] \<Rightarrow> x | a # as \<Rightarrow> f a as) (case xs of [] \<Rightarrow> x' | a # as \<Rightarrow> f' a as)"
  by (cases xs) simp_all

lemma fuel_leD: "fuel_le m m' \<Longrightarrow> m \<noteq> Inl OutOfFuel \<Longrightarrow> m' = m"
  by (simp add: fuel_le_def)

lemma fuel_le_InrD: "fuel_le m m' \<Longrightarrow> m = Inr x \<Longrightarrow> m' = Inr x"
  by (simp add: fuel_le_def)

section \<open>Bytes and strings\<close>

text \<open>
  A Go string is an immutable sequence of bytes. The model keeps byte slices as lists of 8-bit
  words and strings as lists of \<open>char\<close> (Isabelle's 8-bit characters); the conversions
  \<open>[]byte(s)\<close> and \<open>string(b)\<close> of Go, which copy the bytes, are the two maps below.
\<close>

type_synonym byte = "8 word"

definition byte_of_char :: "char \<Rightarrow> byte" where
  "byte_of_char c = word_of_nat (of_char c)"

definition char_of_byte :: "byte \<Rightarrow> char" where
  "char_of_byte b = char_of (unat b)"

lemma char_of_byte_of_char [simp]: "char_of_byte (byte_of_char c) = c"
proof -
  have "unat (byte_of_char c) = (of_char c :: nat)"
    using nat_of_char_less_256 [of c] by (simp add: byte_of_char_def unat_of_nat)
  then show ?thesis by (simp add: char_of_byte_def)
qed

lemma byte_of_char_of_byte [simp]: "byte_of_char (char_of_byte b) = b"
proof -
  have "unat b < 2 ^ LENGTH(8)" by (rule unsigned_less)
  then have "unat b < 256" by simp
  then have "of_char (char_of (unat b)) = unat b" by (simp add: of_char_of)
  then show ?thesis by (simp add: byte_of_char_def char_of_byte_def)
qed

definition bytes_of :: "string \<Rightarrow> byte list" where
  "bytes_of s = map byte_of_char s"

definition string_of :: "byte list \<Rightarrow> string" where
  "string_of bs = map char_of_byte bs"

lemma string_of_bytes_of [simp]: "string_of (bytes_of s) = s"
  by (induction s) (simp_all add: string_of_def bytes_of_def)

lemma bytes_of_string_of [simp]: "bytes_of (string_of bs) = bs"
  by (induction bs) (simp_all add: string_of_def bytes_of_def)

lemma length_bytes_of [simp]: "length (bytes_of s) = length s"
  by (simp add: bytes_of_def)

lemma length_string_of [simp]: "length (string_of bs) = length bs"
  by (simp add: string_of_def)

lemma bytes_of_append [simp]: "bytes_of (s @ t) = bytes_of s @ bytes_of t"
  by (simp add: bytes_of_def)

lemma string_of_append [simp]: "string_of (s @ t) = string_of s @ string_of t"
  by (simp add: string_of_def)

lemma bytes_of_inj: "bytes_of s = bytes_of t \<longleftrightarrow> s = t"
  by (metis string_of_bytes_of)

section \<open>Padding\<close>

text \<open>
  \<open>padlen n p\<close> is the number of zero bytes that bring an offset \<open>p\<close> to the next
  multiple of \<open>n\<close>; \<open>aligned n p\<close> says that none is needed.
\<close>

definition padlen :: "nat \<Rightarrow> nat \<Rightarrow> nat" where
  "padlen n p = (n - p mod n) mod n"

definition padding :: "nat \<Rightarrow> nat \<Rightarrow> byte list" where
  "padding n p = replicate (padlen n p) 0"

lemma length_padding [simp]: "length (padding n p) = padlen n p"
  by (simp add: padding_def)

lemma padlen_less: "0 < n \<Longrightarrow> padlen n p < n"
  by (simp add: padlen_def)

lemma padlen_1 [simp]: "padlen 1 p = 0" "padlen (Suc 0) p = 0"
  by (simp_all add: padlen_def)

lemma padding_1 [simp]: "padding 1 p = []" "padding (Suc 0) p = []"
  by (simp_all add: padding_def)

lemma padlen_aligned: "0 < n \<Longrightarrow> n dvd p + padlen n p"
proof -
  assume n: "0 < n"
  show ?thesis
  proof (cases "p mod n = 0")
    case True
    then show ?thesis by (auto simp: padlen_def)
  next
    case False
    with n have "padlen n p = n - p mod n" by (simp add: padlen_def)
    moreover have "p + (n - p mod n) = n * (p div n) + n"
      using n mod_less_divisor [OF n, of p] mult_div_mod_eq [of n p] by linarith
    ultimately show ?thesis by simp
  qed
qed

lemma padlen_dvd: "n dvd p \<Longrightarrow> padlen n p = 0"
  by (simp add: padlen_def mod_eq_0_iff_dvd [symmetric])

lemma padlen_eq_0_iff: "0 < n \<Longrightarrow> padlen n p = 0 \<longleftrightarrow> n dvd p"
  using padlen_aligned [of n p] padlen_dvd [of n p] by auto

lemma padlen_Suc:
  assumes "0 < n" and "0 < p mod n"
  shows "padlen n p = Suc (padlen n (Suc p))"
proof -
  have "p mod n < n" using assms by simp
  from Suc_diff_Suc [OF this] show ?thesis using assms by (auto simp: padlen_def mod_Suc)
qed

lemma padlen_mod: "padlen n (p mod n) = padlen n p"
  by (simp add: padlen_def)

text \<open>Padding depends on the offset only up to a multiple of the alignment.\<close>

lemma padlen_cong: "p mod m = q mod m \<Longrightarrow> n dvd m \<Longrightarrow> padlen n p = padlen n q"
  by (metis mod_mod_cancel padlen_mod)

lemma padding_cong: "p mod m = q mod m \<Longrightarrow> n dvd m \<Longrightarrow> padding n p = padding n q"
  by (simp add: padding_def padlen_cong [of p m q])

lemma padlen_idem [simp]: "0 < n \<Longrightarrow> padlen n (p + padlen n p) = 0"
  by (simp add: padlen_aligned padlen_dvd)

section \<open>Lists read at an offset\<close>

lemma nth_append_offset [simp]: "(xs @ y # ys) ! length xs = y"
  by simp

lemma drop_eq_ConsD: "drop n xs = y # ys \<Longrightarrow> n < length xs \<and> xs ! n = y \<and> drop (Suc n) xs = ys"
  by (metis Cons_nth_drop_Suc drop_all linorder_not_le list.distinct(1) list.inject)

lemma drop_append_addD: "drop n xs = ys @ zs \<Longrightarrow> drop (n + length ys) xs = zs"
  by (metis add.commute append_eq_conv_conj drop_drop)

lemma drop_length_le: "drop n xs = ys @ zs \<Longrightarrow> ys \<noteq> [] \<Longrightarrow> n + length ys \<le> length xs"
  by (metis append_is_Nil_conv drop_all leI length_append length_drop le_add1 le_diff_conv2
      less_or_eq_imp_le add.commute nat_le_linear)

lemma take_drop_append: "drop n xs = ys @ zs \<Longrightarrow> take (length ys) (drop n xs) = ys"
  by simp

end
