(* ===== verification/GoStrings.thy ===== *)
theory GoStrings
  imports Prelude
begin

text \<open>
  The functions of packages \<open>strings\<close> and \<open>bytes\<close> that the repository calls. Every separator it
  passes has length one, so it is an element here; the functions serve for strings and for byte
  slices. \<open>Index\<close> and \<open>LastIndex\<close> return \<open>None\<close> for -1.
\<close>

section \<open>Searching, splitting and joining\<close>

fun index_of :: "'a \<Rightarrow> 'a list \<Rightarrow> nat option" where
  "index_of c [] = None"
| "index_of c (x # xs) = (if x = c then Some 0 else map_option Suc (index_of c xs))"

fun last_index :: "'a \<Rightarrow> 'a list \<Rightarrow> nat option" where
  "last_index c [] = None"
| "last_index c (x # xs) =
     (case last_index c xs of Some i \<Rightarrow> Some (Suc i) | None \<Rightarrow> if x = c then Some 0 else None)"

fun split_on :: "'a \<Rightarrow> 'a list \<Rightarrow> 'a list list" where
  "split_on c [] = [[]]"
| "split_on c (x # xs) =
     (if x = c then [] # split_on c xs
      else case split_on c xs of [] \<Rightarrow> [[x]] | p # ps \<Rightarrow> (x # p) # ps)"

text \<open>\<open>SplitN\<close> with a positive count: the last piece is the unsplit rest.\<close>

fun split_n :: "nat \<Rightarrow> 'a \<Rightarrow> 'a list \<Rightarrow> 'a list list" where
  "split_n 0 c xs = []"
| "split_n (Suc 0) c xs = [xs]"
| "split_n (Suc (Suc n)) c xs =
     (case index_of c xs of
        None \<Rightarrow> [xs]
      | Some i \<Rightarrow> take i xs # split_n (Suc n) c (drop (Suc i) xs))"

fun join :: "'a list \<Rightarrow> 'a list list \<Rightarrow> 'a list" where
  "join sep [] = []"
| "join sep [p] = p"
| "join sep (p # q # ps) = p @ sep @ join sep (q # ps)"

section \<open>Laws\<close>

lemma index_of_None [simp]: "index_of c xs = None \<longleftrightarrow> c \<notin> set xs"
  by (induction xs) auto

lemma index_of_Some:
  "index_of c xs = Some i \<Longrightarrow> i < length xs \<and> xs = take i xs @ c # drop (Suc i) xs \<and> c \<notin> set (take i xs)"
  by (induction xs arbitrary: i) (auto split: if_splits)

lemma index_of_append: "c \<notin> set xs \<Longrightarrow> index_of c (xs @ c # ys) = Some (length xs)"
  by (induction xs) auto

lemma last_index_None [simp]: "last_index c xs = None \<longleftrightarrow> c \<notin> set xs"
  by (induction xs) (auto split: option.splits)

lemma last_index_Some:
  "last_index c xs = Some i \<Longrightarrow> i < length xs \<and> xs ! i = c \<and> c \<notin> set (drop (Suc i) xs)"
  by (induction xs arbitrary: i) (auto split: option.splits if_splits)

lemma last_index_append: "c \<notin> set ys \<Longrightarrow> last_index c (xs @ c # ys) = Some (length xs)"
  by (induction xs) (auto split: option.splits)

lemma split_on_not_Nil [simp]: "split_on c xs \<noteq> []"
  by (cases xs) (auto split: list.splits)

lemma split_on_pieces: "p \<in> set (split_on c xs) \<Longrightarrow> c \<notin> set p"
  by (induction xs arbitrary: p) (auto split: if_splits list.splits)

lemma split_on_id: "c \<notin> set xs \<Longrightarrow> split_on c xs = [xs]"
  by (induction xs) auto

lemma split_on_append: "c \<notin> set p \<Longrightarrow> split_on c (p @ c # xs) = p # split_on c xs"
  by (induction p) auto

lemma join_Cons: "ps \<noteq> [] \<Longrightarrow> join sep (p # ps) = p @ sep @ join sep ps"
  by (cases ps) simp_all

lemma join_split [simp]: "join [c] (split_on c xs) = xs"
proof (induction xs)
  case (Cons x xs)
  obtain p ps where "split_on c xs = p # ps" by (cases "split_on c xs") auto
  with Cons show ?case by (cases ps) auto
qed simp

lemma split_join:
  "ps \<noteq> [] \<Longrightarrow> \<forall>p \<in> set ps. c \<notin> set p \<Longrightarrow> split_on c (join [c] ps) = ps"
  by (induction "[c]" ps rule: join.induct) (simp_all add: split_on_id split_on_append)

lemma split_n_length: "length (split_n n c xs) \<le> n"
  by (induction n c xs rule: split_n.induct) (auto split: option.splits)

lemma split_n_2: "c \<notin> set p \<Longrightarrow> split_n 2 c (p @ c # q) = [p, q]"
  by (simp add: numeral_2_eq_2 index_of_append)

lemma split_n_one: "c \<notin> set p \<Longrightarrow> split_n (Suc (Suc n)) c p = [p]"
  by (simp del: index_of_None add: index_of_None [THEN iffD2])

lemma join_split_n: "0 < n \<Longrightarrow> join [c] (split_n n c xs) = xs"
proof (induction n c xs rule: split_n.induct)
  case (3 n c xs)
  show ?case
  proof (cases "index_of c xs")
    case (Some i)
    have "split_n (Suc n) c (drop (Suc i) xs) \<noteq> []"
      by (cases n) (auto split: option.splits)
    with 3 Some index_of_Some [OF Some] show ?thesis by (simp add: join_Cons)
  qed (simp del: index_of_None)
qed simp_all

end
