(* ===== verification/GoValues.thy ===== *)
theory GoValues
  imports Prelude
begin

text \<open>
  The part of Go's type system and of package \<open>reflect\<close> that the repository's encoder and
  decoder dispatch on: the types a program can hand to them, the kinds of those types, the values
  of the types, the errors of the package, and \<open>SignatureOf\<close> (types.go).
\<close>

section \<open>Types and kinds\<close>

text \<open>
  \<open>gotype\<close> is a \<open>reflect.Type\<close>. \<open>TObjectPath\<close>, \<open>TSignature\<close> and \<open>TVariant\<close>
  are the package's own types of those names (types.go), \<open>TInterface\<close> is the blank interface.
  \<open>TMethod n u\<close> is a type of the program that uses the package, called \<open>n\<close>, with underlying
  type \<open>u\<close>, whose method set has the method \<open>ObjectPath() ObjectPath\<close>; an interface type
  with that method is \<open>TMethod n TInterface\<close>. \<open>TOther n\<close> is any type of a kind that neither
  the encoder nor the decoder handles (\<open>int\<close>, a channel, a function, \<open>float32\<close>).
  Named types without that method behave as their underlying type everywhere in the package.
\<close>

datatype gotype =
    TUint8 | TBool | TInt16 | TUint16 | TInt32 | TUint32 | TInt64 | TUint64 | TFloat64
  | TString | TObjectPath | TSignature | TVariant | TInterface
  | TArray nat gotype | TSlice gotype | TMap gotype gotype | TStruct "gotype list"
  | TPtr gotype | TMethod string gotype | TOther string

datatype kind =
    KUint8 | KBool | KInt16 | KUint16 | KInt32 | KUint32 | KInt64 | KUint64 | KFloat64
  | KString | KArray | KSlice | KMap | KStruct | KPtr | KInterface | KOther

text \<open>The type without its name, as \<open>reflect\<close> sees its structure.\<close>

fun under :: "gotype \<Rightarrow> gotype" where
  "under (TMethod n u) = under u"
| "under t = t"

text \<open>\<open>Type.Kind()\<close>. A \<open>Variant\<close> is a struct with one field, of blank interface type.\<close>

fun kind_of :: "gotype \<Rightarrow> kind" where
  "kind_of TUint8 = KUint8"
| "kind_of TBool = KBool"
| "kind_of TInt16 = KInt16"
| "kind_of TUint16 = KUint16"
| "kind_of TInt32 = KInt32"
| "kind_of TUint32 = KUint32"
| "kind_of TInt64 = KInt64"
| "kind_of TUint64 = KUint64"
| "kind_of TFloat64 = KFloat64"
| "kind_of TString = KString"
| "kind_of TObjectPath = KString"
| "kind_of TSignature = KString"
| "kind_of TVariant = KStruct"
| "kind_of TInterface = KInterface"
| "kind_of (TArray n t) = KArray"
| "kind_of (TSlice t) = KSlice"
| "kind_of (TMap k t) = KMap"
| "kind_of (TStruct ts) = KStruct"
| "kind_of (TPtr t) = KPtr"
| "kind_of (TMethod n u) = kind_of u"
| "kind_of (TOther n) = KOther"

text \<open>
  \<open>t.AssignableTo(typeObjectPather)\<close>: the method set of \<open>t\<close> has \<open>ObjectPath\<close>. A pointer to
  a named type inherits the method; a pointer to a pointer, or to an interface, has no methods.
\<close>

fun is_pather :: "gotype \<Rightarrow> bool" where
  "is_pather TObjectPath = True"
| "is_pather (TMethod n u) = True"
| "is_pather (TPtr t) =
     (case t of TObjectPath \<Rightarrow> True
      | TMethod n u \<Rightarrow> kind_of u \<noteq> KPtr \<and> kind_of u \<noteq> KInterface
      | _ \<Rightarrow> False)"
| "is_pather t = False"

text \<open>The parts of a composite type: \<open>Type.Elem()\<close>, \<open>Type.Key()\<close> and the types of \<open>Type.Field(i)\<close>.\<close>

fun elem_type :: "gotype \<Rightarrow> gotype" where
  "elem_type (TArray n t) = t"
| "elem_type (TSlice t) = t"
| "elem_type (TMap k t) = t"
| "elem_type (TPtr t) = t"
| "elem_type (TMethod n u) = elem_type u"
| "elem_type t = TOther ''no element''"

fun key_type :: "gotype \<Rightarrow> gotype" where
  "key_type (TMap k t) = k"
| "key_type (TMethod n u) = key_type u"
| "key_type t = TOther ''no key''"

fun field_types :: "gotype \<Rightarrow> gotype list" where
  "field_types (TStruct ts) = ts"
| "field_types TVariant = [TInterface]"
| "field_types (TMethod n u) = field_types u"
| "field_types t = []"

section \<open>Errors of the package\<close>

text \<open>
  The error values the package makes. \<open>ErrNew s\<close> is \<open>errors.New\<close> of the text
  \<open>s\<close>; the others carry what the code interpolates into the text.
\<close>

datatype go_error =
    ErrNew string
  | ErrBufferOverrun
  | ErrSignatureOverrun
  | ErrNotPointer
  | ErrCannotDecode char gotype
  | ErrNotDictEntry char
  | ErrNoSignatureFor gotype
  | ErrCannotMarshal gotype
  | ErrUnknownTypeCode char
  | ErrUnknownEndianness char
  | ErrEOF
  | ErrUnexpectedEOF
  | ErrIO string
  | ErrDBus string string
  | ErrEscape string
  | ErrHexByte char
  | ErrHexLength

type_synonym 'a result = "(go_error, 'a) outcome"

section \<open>Values\<close>

text \<open>
  \<open>gval\<close> is a Go value, read together with its type. Integers have their width (the signed types
  share the bit patterns of the unsigned ones), a \<open>float64\<close> is its IEEE bit pattern, strings,
  object paths and signatures are \<open>VString\<close>. \<open>VList\<close> is an array or a non-nil slice, \<open>VMap\<close> a
  non-nil map whose entries are listed in the order in which a \<open>range\<close> over \<open>MapKeys\<close>
  visits them (Go leaves the order open, so a statement about every list is a statement about every
  order), \<open>VStruct\<close> a struct, \<open>VIface t v\<close> an interface value with dynamic type \<open>t\<close>,
  \<open>VPtr v\<close> a pointer to a variable that holds \<open>v\<close>, \<open>VNil\<close> the nil pointer, slice, map
  or interface. A \<open>Variant\<close> is a \<open>VStruct\<close> of one interface value.
\<close>

datatype gval =
    VUint8 "8 word" | VBool bool
  | VInt16 "16 word" | VUint16 "16 word"
  | VInt32 "32 word" | VUint32 "32 word"
  | VInt64 "64 word" | VUint64 "64 word"
  | VFloat64 "64 word"
  | VString string
  | VList "gval list"
  | VMap "(gval \<times> gval) list"
  | VStruct "gval list"
  | VIface gotype gval
  | VPtr gval
  | VNil

abbreviation VVariant :: "gotype \<Rightarrow> gval \<Rightarrow> gval" where
  "VVariant t v \<equiv> VStruct [VIface t v]"

text \<open>\<open>reflect.Zero\<close>: the value of a variable that was declared and not assigned.\<close>

fun zero_val :: "gotype \<Rightarrow> gval" where
  "zero_val TUint8 = VUint8 0"
| "zero_val TBool = VBool False"
| "zero_val TInt16 = VInt16 0"
| "zero_val TUint16 = VUint16 0"
| "zero_val TInt32 = VInt32 0"
| "zero_val TUint32 = VUint32 0"
| "zero_val TInt64 = VInt64 0"
| "zero_val TUint64 = VUint64 0"
| "zero_val TFloat64 = VFloat64 0"
| "zero_val TString = VString []"
| "zero_val TObjectPath = VString []"
| "zero_val TSignature = VString []"
| "zero_val TVariant = VStruct [VNil]"
| "zero_val TInterface = VNil"
| "zero_val (TArray n t) = VList (replicate n (zero_val t))"
| "zero_val (TSlice t) = VNil"
| "zero_val (TMap k t) = VNil"
| "zero_val (TStruct ts) = VStruct (map zero_val ts)"
| "zero_val (TPtr t) = VNil"
| "zero_val (TMethod n u) = zero_val u"
| "zero_val (TOther n) = VNil"

text \<open>
  Which values inhabit a type: Go's static typing, as an executable predicate. The dynamic type of an
  interface value is never itself an interface type.
\<close>

fun has_type :: "gotype \<Rightarrow> gval \<Rightarrow> bool"
  and has_types :: "gotype list \<Rightarrow> gval list \<Rightarrow> bool" where
  "has_type t (VUint8 x) = (under t = TUint8)"
| "has_type t (VBool x) = (under t = TBool)"
| "has_type t (VInt16 x) = (under t = TInt16)"
| "has_type t (VUint16 x) = (under t = TUint16)"
| "has_type t (VInt32 x) = (under t = TInt32)"
| "has_type t (VUint32 x) = (under t = TUint32)"
| "has_type t (VInt64 x) = (under t = TInt64)"
| "has_type t (VUint64 x) = (under t = TUint64)"
| "has_type t (VFloat64 x) = (under t = TFloat64)"
| "has_type t (VString s) = (kind_of t = KString)"
| "has_type t (VList vs) =
     (case under t of
        TArray n e \<Rightarrow> length vs = n \<and> (\<forall>v \<in> set vs. has_type e v)
      | TSlice e \<Rightarrow> \<forall>v \<in> set vs. has_type e v
      | _ \<Rightarrow> False)"
| "has_type t (VMap kvs) =
     (case under t of
        TMap k e \<Rightarrow> \<forall>(a, b) \<in> set kvs. has_type k a \<and> has_type e b
      | _ \<Rightarrow> False)"
| "has_type t (VStruct vs) = (kind_of t = KStruct \<and> has_types (field_types t) vs)"
| "has_type t (VIface u v) = (under t = TInterface \<and> kind_of u \<noteq> KInterface \<and> has_type u v)"
| "has_type t (VPtr v) = (case under t of TPtr e \<Rightarrow> has_type e v | _ \<Rightarrow> False)"
| "has_type t VNil = (kind_of t \<in> {KSlice, KMap, KPtr, KInterface, KOther})"
| "has_types [] [] = True"
| "has_types (t # ts) (v # vs) = (has_type t v \<and> has_types ts vs)"
| "has_types ts vs = False"

lemma kind_of_under [simp]: "kind_of (under t) = kind_of t"
  by (induction t) simp_all

lemma under_under [simp]: "under (under t) = under t"
  by (induction t) simp_all

lemma field_types_under [simp]: "field_types (under t) = field_types t"
  by (induction t) simp_all

lemma elem_type_under [simp]: "elem_type (under t) = elem_type t"
  by (induction t) simp_all

lemma key_type_under [simp]: "key_type (under t) = key_type t"
  by (induction t) simp_all

text \<open>A kind determines the structure of the type.\<close>

lemma kind_ofD:
  "kind_of t = KUint8 \<Longrightarrow> under t = TUint8"
  "kind_of t = KBool \<Longrightarrow> under t = TBool"
  "kind_of t = KInt16 \<Longrightarrow> under t = TInt16"
  "kind_of t = KUint16 \<Longrightarrow> under t = TUint16"
  "kind_of t = KInt32 \<Longrightarrow> under t = TInt32"
  "kind_of t = KUint32 \<Longrightarrow> under t = TUint32"
  "kind_of t = KInt64 \<Longrightarrow> under t = TInt64"
  "kind_of t = KUint64 \<Longrightarrow> under t = TUint64"
  "kind_of t = KFloat64 \<Longrightarrow> under t = TFloat64"
  "kind_of t = KInterface \<Longrightarrow> under t = TInterface"
  "kind_of t = KArray \<Longrightarrow> \<exists>n. under t = TArray n (elem_type t)"
  "kind_of t = KSlice \<Longrightarrow> under t = TSlice (elem_type t)"
  "kind_of t = KMap \<Longrightarrow> under t = TMap (key_type t) (elem_type t)"
  "kind_of t = KPtr \<Longrightarrow> under t = TPtr (elem_type t)"
  by (induction t) simp_all

lemma has_type_under [simp]: "has_type (under t) v = has_type t v"
  by (cases v) simp_all

end
