(* ===== verification/Signatures.thy ===== *)
theory Signatures
  imports GoValues
begin

text \<open>
  D-Bus signatures (types.go): \<open>SignatureOf\<close>, which computes the signature of a Go type,
  \<open>NextType\<close>, which finds the end of one complete type inside a signature, and \<open>Validate\<close>.
  The grammar of complete types that \<open>NextType\<close> accepts is the datatype \<open>dty\<close> with its printer
  \<open>show_ty\<close>; the lemmas show that the scanner recognises exactly the printed types.
\<close>

section \<open>NextType and Validate\<close>

text \<open>\<open>sig[offset]\<close> with its bounds check is written by the callers, as in the code.\<close>

definition basic_codes :: string where
  "basic_codes = ''ybnqiuxtdsogvh''"

text \<open>
  The struct case loops until it meets the closing parenthesis; the loop is \<open>next_struct\<close>. Each
  round calls \<open>NextType\<close> at the end of the previous type, so the recursion is nested: it stops
  because a successful scan moves forward.
\<close>

function next_type :: "string \<Rightarrow> nat \<Rightarrow> nat result"
  and next_struct :: "string \<Rightarrow> nat \<Rightarrow> nat result" where
  "next_type sig offset =
     (if offset \<ge> length sig then Inl (Error (ErrNew ''No more types codes in signature''))
      else let c = sig ! offset in
        if c \<in> set basic_codes then Inr (offset + 1)
        else if c = CHR ''a'' then next_type sig (offset + 1)
        else if c = CHR ''{'' then
          (case next_type sig (offset + 1) of
             Inl e \<Rightarrow> Inl e
           | Inr next \<Rightarrow>
               (case next_type sig next of
                  Inl e \<Rightarrow> Inl e
                | Inr next' \<Rightarrow>
                    if next' \<ge> length sig \<or> sig ! next' \<noteq> CHR ''}''
                    then Inl (Error (ErrNew ''Pair does not end with }''))
                    else Inr (next' + 1)))
        else if c = CHR ''('' then next_struct sig (offset + 1)
        else Inl (Error (ErrUnknownTypeCode c)))"
| "next_struct sig pos =
     (if pos < length sig \<and> sig ! pos = CHR '')'' then Inr (pos + 1)
      else (case next_type sig pos of
              Inl e \<Rightarrow> Inl e
            | Inr next' \<Rightarrow> next_struct sig next'))"
  by pat_completeness auto

text \<open>A scan that succeeds has moved forward, inside the signature.\<close>

lemma next_partial:
  "next_type_next_struct_dom (Inl (sig, offset)) \<Longrightarrow> next_type sig offset = Inr n \<Longrightarrow>
     offset < length sig \<and> offset < n \<and> n \<le> length sig"
  "next_type_next_struct_dom (Inr (sig, pos)) \<Longrightarrow> next_struct sig pos = Inr n \<Longrightarrow>
     pos < n \<and> n \<le> length sig"
proof (induction sig offset and sig pos arbitrary: n and n rule: next_type_next_struct.pinduct)
  case (1 sig offset)
  note eq = next_type.psimps [OF "1.hyps", unfolded Let_def]
  show ?case
    using "1.prems" unfolding eq
    by (auto split: if_splits sum.splits
        dest: "1.IH"(1) [OF _ refl, simplified, rotated -1]
              "1.IH"(4) [OF _ refl, simplified, rotated -1])
      (fastforce dest: "1.IH"(2) [OF _ refl, simplified, rotated -1]
              "1.IH"(3) [OF _ refl, simplified, rotated -1])+
next
  case (2 sig pos)
  note eq = next_struct.psimps [OF "2.hyps"]
  show ?case
    using "2.prems" unfolding eq
    by (fastforce split: if_splits sum.splits
        dest: "2.IH"(1) [rotated -1] "2.IH"(2) [rotated -1])
qed

termination next_type
  by (relation "measure (\<lambda>x. case x of
        Inl (sig, offset) \<Rightarrow> 2 * (length sig - offset)
      | Inr (sig, pos) \<Rightarrow> 2 * (length sig - pos) + 1)")
     (auto dest!: next_partial)

lemmas next_simps = next_type.simps next_struct.simps
declare next_simps [simp del]

lemma next_bounds:
  "next_type sig offset = Inr n \<Longrightarrow> offset < length sig \<and> offset < n \<and> n \<le> length sig"
  "next_struct sig pos = Inr m \<Longrightarrow> pos < m \<and> m \<le> length sig"
proof (induction sig offset and sig pos arbitrary: n and m rule: next_type_next_struct.induct)
  case (1 sig offset)
  show ?case
    using "1.prems" unfolding next_type.simps [of sig offset] Let_def
    by (auto split: if_splits sum.splits
        dest: "1.IH"(1) [OF _ refl, simplified, rotated -1]
              "1.IH"(4) [OF _ refl, simplified, rotated -1])
      (fastforce dest: "1.IH"(2) [OF _ refl, simplified, rotated -1]
              "1.IH"(3) [OF _ refl, simplified, rotated -1])+
next
  case (2 sig pos)
  show ?case
    using "2.prems" unfolding next_struct.simps [of sig pos]
    by (fastforce split: if_splits sum.splits
        dest: "2.IH"(1) [rotated -1] "2.IH"(2) [rotated -1])
qed

lemmas next_type_bounds = next_bounds(1)
lemmas next_struct_bounds = next_bounds(2)

text \<open>\<open>Validate\<close>: the loop of the code, which stops at the first error.\<close>

function validate_from :: "string \<Rightarrow> nat \<Rightarrow> unit result" where
  "validate_from sig offset =
     (if offset < length sig
      then (case next_type sig offset of
              Inl e \<Rightarrow> Inl e
            | Inr offset' \<Rightarrow> validate_from sig offset')
      else Inr ())"
  by pat_completeness auto
termination
  by (relation "measure (\<lambda>(sig, offset). length sig - offset)") (auto dest: next_type_bounds)

declare validate_from.simps [simp del]

definition validate :: "string \<Rightarrow> unit result" where
  "validate sig = validate_from sig 0"

section \<open>The grammar of complete types\<close>

text \<open>
  The complete types that \<open>NextType\<close> accepts. It accepts a pair outside an array and a struct
  without members; both are not D-Bus types, so \<open>dty\<close> is larger than the D-Bus grammar.
\<close>

datatype dty = DBasic char | DArr dty | DPair dty dty | DStr "dty list"

fun show_ty :: "dty \<Rightarrow> string" where
  "show_ty (DBasic c) = [c]"
| "show_ty (DArr t) = CHR ''a'' # show_ty t"
| "show_ty (DPair k v) = CHR ''{'' # show_ty k @ show_ty v @ ''}''"
| "show_ty (DStr ts) = CHR ''('' # concat (map show_ty ts) @ '')''"

fun wf_ty :: "dty \<Rightarrow> bool" where
  "wf_ty (DBasic c) = (c \<in> set basic_codes)"
| "wf_ty (DArr t) = wf_ty t"
| "wf_ty (DPair k v) = (wf_ty k \<and> wf_ty v)"
| "wf_ty (DStr ts) = (\<forall>t \<in> set ts. wf_ty t)"

abbreviation show_tys :: "dty list \<Rightarrow> string" where
  "show_tys ts \<equiv> concat (map show_ty ts)"

lemma basic_codes_simps [simp]:
  "CHR ''a'' \<notin> set basic_codes" "CHR ''{'' \<notin> set basic_codes" "CHR ''('' \<notin> set basic_codes"
  "CHR '')'' \<notin> set basic_codes" "CHR ''}'' \<notin> set basic_codes"
  by (simp_all add: basic_codes_def)

lemma show_ty_not_Nil [simp]: "show_ty t \<noteq> []"
  by (cases t) simp_all

lemma hd_show_ty: "wf_ty t \<Longrightarrow> hd (show_ty t) \<noteq> CHR '')'' \<and> hd (show_ty t) \<noteq> CHR ''}''"
  by (cases t) auto

text \<open>The scanner finds the end of every printed type.\<close>

lemma next_struct_complete:
  assumes IH: "\<And>t offset rest. t \<in> set ts \<Longrightarrow> wf_ty t \<Longrightarrow> drop offset sig = show_ty t @ rest \<Longrightarrow>
      next_type sig offset = Inr (offset + length (show_ty t))"
    and "\<forall>t \<in> set ts. wf_ty t"
    and "drop pos sig = show_tys ts @ CHR '')'' # rest"
  shows "next_struct sig pos = Inr (Suc (pos + length (show_tys ts)))"
  using assms
proof (induction ts arbitrary: pos)
  case Nil
  then show ?case by (auto simp: next_struct.simps dest: drop_eq_ConsD)
next
  case (Cons t ts)
  have d: "drop pos sig = show_ty t @ show_tys ts @ CHR '')'' # rest"
    using Cons.prems by simp
  then have nt: "next_type sig pos = Inr (pos + length (show_ty t))"
    using Cons.prems(1) [of t] Cons.prems(2) by simp
  have "sig ! pos = hd (show_ty t)"
    using d by (metis append_is_Nil_conv drop_all hd_append2 hd_drop_conv_nth linorder_not_le
        show_ty_not_Nil)
  with Cons.prems(2) have "sig ! pos \<noteq> CHR '')''"
    using hd_show_ty [of t] by simp
  with nt have "next_struct sig pos = next_struct sig (pos + length (show_ty t))"
    by (subst next_struct.simps) simp
  also have "\<dots> = Inr (Suc (pos + length (show_ty t) + length (show_tys ts)))"
    by (rule Cons.IH [OF Cons.prems(1)]) (use Cons.prems(2) drop_append_addD [OF d] in auto)
  finally show ?case by (simp add: add.assoc)
qed

lemma next_type_complete:
  assumes "wf_ty t" and "drop offset sig = show_ty t @ rest"
  shows "next_type sig offset = Inr (offset + length (show_ty t))"
  using assms
proof (induction t arbitrary: offset rest)
  case (DBasic c)
  then show ?case by (auto simp: next_type.simps dest: drop_eq_ConsD)
next
  case (DArr t)
  then have "offset < length sig \<and> sig ! offset = CHR ''a'' \<and> drop (Suc offset) sig = show_ty t @ rest"
    by (auto dest: drop_eq_ConsD)
  with DArr show ?case by (simp add: next_type.simps [of sig offset])
next
  case (DPair k v)
  let ?m = "Suc offset + length (show_ty k)" and ?n = "Suc offset + length (show_ty k) + length (show_ty v)"
  have d: "offset < length sig \<and> sig ! offset = CHR ''{'' \<and>
      drop (Suc offset) sig = show_ty k @ show_ty v @ CHR ''}'' # rest"
    using DPair.prems by (auto dest: drop_eq_ConsD)
  then have dm: "drop ?m sig = show_ty v @ CHR ''}'' # rest"
    by (blast dest: drop_append_addD)
  then have "drop ?n sig = CHR ''}'' # rest" by (rule drop_append_addD)
  then have "?n < length sig \<and> sig ! ?n = CHR ''}''" by (blast dest: drop_eq_ConsD)
  moreover have "next_type sig (Suc offset) = Inr ?m" "next_type sig ?m = Inr ?n"
    using DPair d dm by auto
  ultimately show ?case using d by (simp add: next_type.simps [of sig offset])
next
  case (DStr ts)
  have d: "offset < length sig \<and> sig ! offset = CHR ''('' \<and>
      drop (Suc offset) sig = show_tys ts @ CHR '')'' # rest"
    using DStr.prems by (auto dest: drop_eq_ConsD)
  have "next_struct sig (Suc offset) = Inr (Suc (Suc offset + length (show_tys ts)))"
    by (rule next_struct_complete [OF DStr.IH]) (use DStr.prems d in auto)
  with d show ?case by (simp add: next_type.simps [of sig offset])
qed

text \<open>What the scanner accepts is a printed type.\<close>

lemma next_sound:
  "next_type sig offset = Inr n \<Longrightarrow>
     \<exists>t. wf_ty t \<and> drop offset sig = show_ty t @ drop n sig"
  "next_struct sig pos = Inr n \<Longrightarrow>
     \<exists>ts. (\<forall>t \<in> set ts. wf_ty t) \<and> drop pos sig = show_tys ts @ CHR '')'' # drop n sig"
proof (induction sig offset and sig pos arbitrary: n and n rule: next_type_next_struct.induct)
  case (1 sig offset)
  let ?c = "sig ! offset"
  have lt: "offset < length sig" using "1.prems" next_type_bounds by blast
  then have d: "drop offset sig = ?c # drop (Suc offset) sig" by (rule Cons_nth_drop_Suc [symmetric])
  have eq: "next_type sig offset = Inr n" by (rule "1.prems")
  note eq' = eq [unfolded next_type.simps [of sig offset] Let_def]
  consider "?c \<in> set basic_codes" | "?c = CHR ''a''" | "?c = CHR ''{''" | "?c = CHR ''(''"
    using eq' lt by (auto split: if_splits)
  then show ?case
  proof cases
    case 1
    with eq' lt have "n = Suc offset" by simp
    with 1 d show ?thesis by (intro exI [of _ "DBasic ?c"]) simp
  next
    case 2
    with eq' lt have "next_type sig (offset + 1) = Inr n" by simp
    then obtain t where "wf_ty t" "drop (offset + 1) sig = show_ty t @ drop n sig"
      using "1.IH"(1) [OF _ refl] lt 2 by auto
    with 2 d show ?thesis by (intro exI [of _ "DArr t"]) simp
  next
    case 3
    with eq' lt obtain m m' where m: "next_type sig (offset + 1) = Inr m" "next_type sig m = Inr m'"
        "m' < length sig" "sig ! m' = CHR ''}''" "n = m' + 1"
      by (auto split: sum.splits if_splits)
    from 3 lt have g: "\<not> length sig \<le> offset" "?c \<notin> set basic_codes" "?c \<noteq> CHR ''a''"
      by simp_all
    obtain k where "wf_ty k" "drop (offset + 1) sig = show_ty k @ drop m sig"
      using "1.IH"(2) [OF g(1) refl g(2,3) 3 m(1)] by blast
    moreover obtain v where "wf_ty v" "drop m sig = show_ty v @ drop m' sig"
      using "1.IH"(3) [OF g(1) refl g(2,3) 3 m(1,2)] by blast
    moreover have "drop m' sig = CHR ''}'' # drop n sig"
      using m by (simp add: Cons_nth_drop_Suc [symmetric])
    ultimately show ?thesis using 3 d by (intro exI [of _ "DPair k v"]) simp
  next
    case 4
    with eq' lt have "next_struct sig (offset + 1) = Inr n" by simp
    then obtain ts where "\<forall>t \<in> set ts. wf_ty t"
        "drop (offset + 1) sig = show_tys ts @ CHR '')'' # drop n sig"
      using "1.IH"(4) [OF _ refl] lt 4 by auto
    with 4 d show ?thesis by (intro exI [of _ "DStr ts"]) simp
  qed
next
  case (2 sig pos)
  show ?case
  proof (cases "pos < length sig \<and> sig ! pos = CHR '')''")
    case True
    with "2.prems" have "n = Suc pos" by (simp add: next_struct.simps)
    with True show ?thesis
      by (intro exI [of _ "[]"]) (simp add: Cons_nth_drop_Suc [symmetric])
  next
    case False
    with "2.prems" obtain m where m: "next_type sig pos = Inr m" "next_struct sig m = Inr n"
      by (subst (asm) next_struct.simps) (auto split: sum.splits)
    with "2.IH"(1) [OF False m(1)] "2.IH"(2) [OF False m]
    obtain t ts where "wf_ty t" "drop pos sig = show_ty t @ drop m sig"
        "\<forall>t \<in> set ts. wf_ty t" "drop m sig = show_tys ts @ CHR '')'' # drop n sig"
      by blast
    then show ?thesis by (intro exI [of _ "t # ts"]) simp
  qed
qed

text \<open>
  C20. \<open>NextType\<close> succeeds at an offset exactly if a complete type of the grammar stands there, and
  returns the offset after it.
\<close>

theorem next_type_grammar:
  "next_type sig offset = Inr n \<longleftrightarrow>
     (\<exists>t. wf_ty t \<and> n = offset + length (show_ty t) \<and> drop offset sig = show_ty t @ drop n sig)"
proof
  assume n: "next_type sig offset = Inr n"
  then obtain t where t: "wf_ty t" "drop offset sig = show_ty t @ drop n sig"
    using next_sound(1) by blast
  moreover have "n = offset + length (show_ty t)"
    using n next_type_complete [OF t] by simp
  ultimately show "\<exists>t. wf_ty t \<and> n = offset + length (show_ty t) \<and> drop offset sig = show_ty t @ drop n sig"
    by blast
qed (blast intro: next_type_complete)

lemma validate_from_iff:
  "validate_from sig offset = Inr () \<longleftrightarrow>
     (\<exists>ts. (\<forall>t \<in> set ts. wf_ty t) \<and> drop offset sig = show_tys ts)"
proof (induction sig offset rule: validate_from.induct)
  case (1 sig offset)
  show ?case
  proof (cases "offset < length sig")
    case False
    then show ?thesis by (auto simp: validate_from.simps intro: exI [of _ "[]"])
  next
    case lt: True
    show ?thesis
    proof
      assume "validate_from sig offset = Inr ()"
      with lt obtain m where m: "next_type sig offset = Inr m" "validate_from sig m = Inr ()"
        by (subst (asm) validate_from.simps) (auto split: sum.splits)
      with "1.IH" [OF lt m(1)] obtain ts where "\<forall>t \<in> set ts. wf_ty t" "drop m sig = show_tys ts"
        by blast
      moreover obtain t where "wf_ty t" "drop offset sig = show_ty t @ drop m sig"
        using next_sound(1) [OF m(1)] by blast
      ultimately show "\<exists>ts. (\<forall>t \<in> set ts. wf_ty t) \<and> drop offset sig = show_tys ts"
        by (intro exI [of _ "t # ts"]) simp
    next
      assume "\<exists>ts. (\<forall>t \<in> set ts. wf_ty t) \<and> drop offset sig = show_tys ts"
      with lt obtain t ts where ts: "wf_ty t" "\<forall>t \<in> set ts. wf_ty t"
          and d: "drop offset sig = show_ty t @ show_tys ts"
        by (metis concat.simps(2) drop_eq_Nil leD list.exhaust list.set_intros(1,2) concat.simps(1)
            list.simps(8,9))
      let ?m = "offset + length (show_ty t)"
      have m: "next_type sig offset = Inr ?m" by (rule next_type_complete [OF ts(1) d])
      moreover have "validate_from sig ?m = Inr ()"
        using "1.IH" [OF lt m] ts(2) drop_append_addD [OF d] by blast
      ultimately show "validate_from sig offset = Inr ()"
        using lt by (simp add: validate_from.simps [of sig offset])
    qed
  qed
qed

text \<open>
  C21. \<open>Validate\<close> accepts exactly the sequences of complete types.
\<close>

theorem validate_grammar:
  "validate sig = Inr () \<longleftrightarrow> (\<exists>ts. (\<forall>t \<in> set ts. wf_ty t) \<and> sig = show_tys ts)"
  by (simp add: validate_def validate_from_iff)

theorem validate_grammar_witness: "validate ''a{sv}(iay)'' = Inr ()"
  unfolding validate_grammar
  by (intro exI [of _ "[DArr (DPair (DBasic CHR ''s'') (DBasic CHR ''v'')),
      DStr [DBasic CHR ''i'', DArr (DBasic CHR ''y'')]]"]) (simp add: basic_codes_def)

section \<open>SignatureOf\<close>

text \<open>
  The struct case concatenates the signatures of the fields in order and returns the first error;
  that loop is \<open>signature_fields\<close>. A \<open>TMethod\<close> type never gets to the switch.
\<close>

fun signature_of :: "gotype \<Rightarrow> string result"
  and signature_fields :: "gotype list \<Rightarrow> string result" where
  "signature_of t =
     (if is_pather t then Inr ''o''
      else case t of
        TUint8 \<Rightarrow> Inr ''y''
      | TBool \<Rightarrow> Inr ''b''
      | TInt16 \<Rightarrow> Inr ''n''
      | TUint16 \<Rightarrow> Inr ''q''
      | TInt32 \<Rightarrow> Inr ''i''
      | TUint32 \<Rightarrow> Inr ''u''
      | TInt64 \<Rightarrow> Inr ''x''
      | TUint64 \<Rightarrow> Inr ''t''
      | TFloat64 \<Rightarrow> Inr ''d''
      | TSignature \<Rightarrow> Inr ''g''
      | TString \<Rightarrow> Inr ''s''
      | TArray n e \<Rightarrow> ebind (signature_of e) (\<lambda>s. Inr (''a'' @ s))
      | TSlice e \<Rightarrow> ebind (signature_of e) (\<lambda>s. Inr (''a'' @ s))
      | TMap k e \<Rightarrow>
          ebind (signature_of k) (\<lambda>ks. ebind (signature_of e) (\<lambda>s. Inr (''a{'' @ ks @ s @ ''}'')))
      | TVariant \<Rightarrow> Inr ''v''
      | TStruct ts \<Rightarrow> ebind (signature_fields ts) (\<lambda>s. Inr (''('' @ s @ '')''))
      | TPtr e \<Rightarrow> signature_of e
      | _ \<Rightarrow> Inl (Error (ErrNoSignatureFor t)))"
| "signature_fields [] = Inr []"
| "signature_fields (t # ts) =
     ebind (signature_of t) (\<lambda>s. ebind (signature_fields ts) (\<lambda>r. Inr (s @ r)))"

declare signature_of.simps [simp del]

text \<open>The D-Bus type a Go type stands for, where it stands for one.\<close>

fun dty_of :: "gotype \<Rightarrow> dty option"
  and dty_fields :: "gotype list \<Rightarrow> dty list option" where
  "dty_of t =
     (if is_pather t then Some (DBasic CHR ''o'')
      else case t of
        TUint8 \<Rightarrow> Some (DBasic CHR ''y'')
      | TBool \<Rightarrow> Some (DBasic CHR ''b'')
      | TInt16 \<Rightarrow> Some (DBasic CHR ''n'')
      | TUint16 \<Rightarrow> Some (DBasic CHR ''q'')
      | TInt32 \<Rightarrow> Some (DBasic CHR ''i'')
      | TUint32 \<Rightarrow> Some (DBasic CHR ''u'')
      | TInt64 \<Rightarrow> Some (DBasic CHR ''x'')
      | TUint64 \<Rightarrow> Some (DBasic CHR ''t'')
      | TFloat64 \<Rightarrow> Some (DBasic CHR ''d'')
      | TSignature \<Rightarrow> Some (DBasic CHR ''g'')
      | TString \<Rightarrow> Some (DBasic CHR ''s'')
      | TVariant \<Rightarrow> Some (DBasic CHR ''v'')
      | TArray n e \<Rightarrow> map_option DArr (dty_of e)
      | TSlice e \<Rightarrow> map_option DArr (dty_of e)
      | TMap k e \<Rightarrow>
          Option.bind (dty_of k) (\<lambda>dk. map_option (\<lambda>de. DArr (DPair dk de)) (dty_of e))
      | TStruct ts \<Rightarrow> map_option DStr (dty_fields ts)
      | TPtr e \<Rightarrow> dty_of e
      | _ \<Rightarrow> None)"
| "dty_fields [] = Some []"
| "dty_fields (t # ts) = Option.bind (dty_of t) (\<lambda>d. map_option ((#) d) (dty_fields ts))"

declare dty_of.simps [simp del]

text \<open>The equations by constructor.\<close>

lemma dty_of_simps [simp]:
  "dty_of TUint8 = Some (DBasic CHR ''y'')"
  "dty_of TBool = Some (DBasic CHR ''b'')"
  "dty_of TInt16 = Some (DBasic CHR ''n'')"
  "dty_of TUint16 = Some (DBasic CHR ''q'')"
  "dty_of TInt32 = Some (DBasic CHR ''i'')"
  "dty_of TUint32 = Some (DBasic CHR ''u'')"
  "dty_of TInt64 = Some (DBasic CHR ''x'')"
  "dty_of TUint64 = Some (DBasic CHR ''t'')"
  "dty_of TFloat64 = Some (DBasic CHR ''d'')"
  "dty_of TString = Some (DBasic CHR ''s'')"
  "dty_of TObjectPath = Some (DBasic CHR ''o'')"
  "dty_of TSignature = Some (DBasic CHR ''g'')"
  "dty_of TVariant = Some (DBasic CHR ''v'')"
  "dty_of TInterface = None"
  "dty_of (TOther n) = None"
  "dty_of (TMethod n u) = Some (DBasic CHR ''o'')"
  "dty_of (TArray k t) = map_option DArr (dty_of t)"
  "dty_of (TSlice t) = map_option DArr (dty_of t)"
  "dty_of (TMap t u) =
     Option.bind (dty_of t) (\<lambda>dk. map_option (\<lambda>de. DArr (DPair dk de)) (dty_of u))"
  "dty_of (TStruct ts) = map_option DStr (dty_fields ts)"
  by (simp_all add: dty_of.simps [of TUint8] dty_of.simps [of TBool] dty_of.simps [of TInt16]
      dty_of.simps [of TUint16] dty_of.simps [of TInt32] dty_of.simps [of TUint32]
      dty_of.simps [of TInt64] dty_of.simps [of TUint64] dty_of.simps [of TFloat64]
      dty_of.simps [of TString] dty_of.simps [of TObjectPath] dty_of.simps [of TSignature]
      dty_of.simps [of TVariant] dty_of.simps [of TInterface] dty_of.simps [of "TOther n"]
      dty_of.simps [of "TMethod n u"] dty_of.simps [of "TArray k t"] dty_of.simps [of "TSlice t"]
      dty_of.simps [of "TMap t u"] dty_of.simps [of "TStruct ts"])

lemma dty_of_TPtr: "dty_of (TPtr t) = (if is_pather (TPtr t) then Some (DBasic CHR ''o'') else dty_of t)"
  by (simp add: dty_of.simps [of "TPtr t"] del: is_pather.simps(3))

text \<open>\<open>SignatureOf\<close> prints that type, and fails exactly where there is none.\<close>

definition sig_agrees :: "string result \<Rightarrow> dty list option \<Rightarrow> bool" where
  "sig_agrees r d =
     (case d of
        Some ds \<Rightarrow> (\<forall>t \<in> set ds. wf_ty t) \<and> r = Inr (show_tys ds)
      | None \<Rightarrow> \<exists>u. r = Inl (Error (ErrNoSignatureFor u)))"

lemma signature_fields_agrees:
  "(\<And>t. t \<in> set ts \<Longrightarrow> sig_agrees (signature_of t) (map_option (\<lambda>d. [d]) (dty_of t))) \<Longrightarrow>
   sig_agrees (signature_fields ts) (dty_fields ts)"
proof (induction ts)
  case Nil
  show ?case by (simp add: sig_agrees_def)
next
  case (Cons t ts)
  have "sig_agrees (signature_of t) (map_option (\<lambda>d. [d]) (dty_of t))"
    and "sig_agrees (signature_fields ts) (dty_fields ts)"
    using Cons.prems Cons.IH by simp_all
  then show ?case by (auto simp: sig_agrees_def split: option.splits)
qed

lemma signature_of_agrees: "sig_agrees (signature_of t) (map_option (\<lambda>d. [d]) (dty_of t))"
proof (induction t)
  case (TStruct ts)
  have "sig_agrees (signature_fields ts) (dty_fields ts)"
    by (rule signature_fields_agrees) (rule TStruct.IH)
  then show ?case
    by (auto simp: sig_agrees_def signature_of.simps [of "TStruct ts"] dty_of.simps [of "TStruct ts"]
        split: option.splits)
next
  case (TPtr t)
  then show ?case
    by (auto simp: sig_agrees_def signature_of.simps [of "TPtr t"] dty_of.simps [of "TPtr t"]
        basic_codes_def simp del: is_pather.simps(3) split: option.splits)
qed (auto simp: sig_agrees_def signature_of.simps dty_of.simps basic_codes_def split: option.splits)

lemma signature_of_iff:
  "signature_of t = Inr s \<longleftrightarrow> (\<exists>d. dty_of t = Some d \<and> s = show_ty d)"
  using signature_of_agrees [of t] by (auto simp: sig_agrees_def split: option.splits)

lemma dty_of_wf: "dty_of t = Some d \<Longrightarrow> wf_ty d"
  using signature_of_agrees [of t] by (auto simp: sig_agrees_def)

text \<open>
  C22. What \<open>SignatureOf\<close> returns is one complete type, in the eyes of \<open>NextType\<close> as well as of
  \<open>Validate\<close>.
\<close>

theorem signature_of_complete:
  assumes "signature_of t = Inr s"
  shows "next_type s 0 = Inr (length s) \<and> validate s = Inr ()"
proof -
  obtain d where d: "wf_ty d" "s = show_ty d"
    using assms signature_of_iff dty_of_wf by blast
  then have "next_type s 0 = Inr (length s)"
    using next_type_complete [of d 0 s "[]"] by simp
  moreover have "validate s = Inr ()"
    unfolding validate_def validate_from_iff using d by (intro exI [of _ "[d]"]) simp
  ultimately show ?thesis by blast
qed

theorem signature_of_complete_witness:
  "next_type ''(ya{sv})'' 0 = Inr 8 \<and> validate ''(ya{sv})'' = Inr ()"
  using signature_of_complete [of "TStruct [TUint8, TMap TString TVariant]" "''(ya{sv})''"]
  by (simp add: signature_of.simps)

end
