(* ===== verification/WireFormat.thy ===== *)
theory WireFormat
  imports Signatures
begin

text \<open>
  The D-Bus wire format, independent of Go: byte orders (the interface \<open>binary.ByteOrder\<close> of Go's
  standard library), D-Bus values, and the marshalling function that says which bytes a value
  occupies when it starts at a given offset of the message. The encoder and the decoder of the
  repository are each proved against it.
\<close>

section \<open>Byte orders\<close>

text \<open>
  \<open>binary.LittleEndian\<close> and \<open>binary.BigEndian\<close>. \<open>put_word order n w\<close> is the effect of
  \<open>PutUint16\<close>, \<open>PutUint32\<close> or \<open>PutUint64\<close> (and of \<open>binary.Write\<close> of an integer of that size);
  \<open>get_word order bs\<close> is \<open>Uint16\<close>, \<open>Uint32\<close> or \<open>Uint64\<close> of exactly its bytes.
\<close>

datatype byte_order = LittleEndian | BigEndian

fun put_le :: "nat \<Rightarrow> 'a::len word \<Rightarrow> byte list" where
  "put_le 0 w = []"
| "put_le (Suc n) w = ucast w # put_le n (drop_bit 8 w)"

fun get_le :: "byte list \<Rightarrow> 'a::len word" where
  "get_le [] = 0"
| "get_le (b # bs) = or (ucast b) (push_bit 8 (get_le bs))"

definition put_word :: "byte_order \<Rightarrow> nat \<Rightarrow> 'a::len word \<Rightarrow> byte list" where
  "put_word order n w =
     (case order of LittleEndian \<Rightarrow> put_le n w | BigEndian \<Rightarrow> rev (put_le n w))"

definition get_word :: "byte_order \<Rightarrow> byte list \<Rightarrow> 'a::len word" where
  "get_word order bs =
     (case order of LittleEndian \<Rightarrow> get_le bs | BigEndian \<Rightarrow> get_le (rev bs))"

lemma length_put_le [simp]: "length (put_le n w) = n"
  by (induction n arbitrary: w) simp_all

lemma length_put_word [simp]: "length (put_word order n w) = n"
  by (cases order) (simp_all add: put_word_def)

lemma get_put_le: "get_le (put_le n w) = take_bit (8 * n) w"
proof (induction n arbitrary: w)
  case 0
  show ?case by simp
next
  case (Suc n)
  have "or (ucast (ucast w :: byte)) (push_bit 8 (take_bit (8 * n) (drop_bit 8 w))) = take_bit (8 * Suc n) w"
    by (rule bit_word_eqI) (auto simp: bit_simps)
  with Suc show ?case by simp
qed

lemma put_le_cong:
  fixes v v' :: "'a::len word"
  shows "(\<And>i. i < 8 * n \<Longrightarrow> bit v i = bit v' i) \<Longrightarrow> put_le n v = put_le n v'"
proof (induction n arbitrary: v v')
  case 0
  show ?case by simp
next
  case (Suc n)
  have "(ucast v :: byte) = ucast v'"
    using Suc.prems by (intro bit_word_eqI) (auto simp: bit_simps)
  moreover have "put_le n (drop_bit 8 v) = put_le n (drop_bit 8 v')"
    by (rule Suc.IH) (simp add: bit_simps Suc.prems)
  ultimately show ?case by simp
qed

lemma put_get_le:
  "8 * length bs \<le> LENGTH('a) \<Longrightarrow> put_le (length bs) (get_le bs :: 'a::len word) = bs"
proof (induction bs)
  case Nil
  show ?case by simp
next
  case (Cons b bs)
  let ?w = "get_le bs :: 'a word"
  have len: "8 * length bs \<le> LENGTH('a)" "8 \<le> LENGTH('a)" using Cons.prems by simp_all
  have "(ucast (or (ucast b) (push_bit 8 ?w)) :: byte) = b"
    using len by (intro bit_word_eqI) (auto simp: bit_simps)
  moreover have "put_le (length bs) (drop_bit 8 (or (ucast b) (push_bit 8 ?w))) = put_le (length bs) ?w"
    by (rule put_le_cong) (use Cons.prems in \<open>auto simp: bit_simps dest: bit_imp_le_length\<close>)
  ultimately show ?case using Cons.IH len by simp
qed

text \<open>What the package relies on of a byte order, for one width.\<close>

locale byte_codec =
  fixes put :: "'w \<Rightarrow> byte list" and get :: "byte list \<Rightarrow> 'w" and width :: nat
  assumes width_pos: "0 < width"
    and length_put: "length (put w) = width"
    and get_put: "get (put w) = w"
    and put_get: "length bs = width \<Longrightarrow> put (get bs) = bs"
begin

text \<open>Reading at an offset where a value was written, as every reader of the decoder does.\<close>

lemma read_at:
  assumes "drop off data = put w @ rest"
  shows "off + width \<le> length data" and "get (take width (drop off data)) = w"
    and "drop (off + width) data = rest"
proof -
  have "put w \<noteq> []" using length_put [of w] width_pos by auto
  with assms show "off + width \<le> length data"
    using drop_length_le [of off data "put w" rest] by (simp add: length_put)
  have "take width (drop off data) = put w"
    using assms by (simp add: length_put)
  then show "get (take width (drop off data)) = w" by (simp add: get_put)
  show "drop (off + width) data = rest"
    using drop_append_addD [OF assms] by (simp add: length_put)
qed

lemma put_inj: "put w = put w' \<longleftrightarrow> w = w'"
  by (metis get_put)

text \<open>What is read is what had to be written there.\<close>

lemma read_unique:
  assumes "off + width \<le> length data"
  shows "drop off data = put (get (take width (drop off data))) @ drop (off + width) data"
proof -
  have "length (take width (drop off data)) = width" using assms by simp
  then have "put (get (take width (drop off data))) = take width (drop off data)" by (rule put_get)
  then show ?thesis by (metis append_take_drop_id drop_drop add.commute)
qed

end

lemma put_word_codec:
  assumes "8 * n = LENGTH('a::len)" and "0 < n"
  shows "byte_codec (put_word order n :: 'a word \<Rightarrow> byte list) (get_word order) n"
proof
  show "0 < n" by (rule assms)
  fix w :: "'a word" and bs :: "byte list"
  show "length (put_word order n w) = n" by simp
  show "get_word order (put_word order n w) = w"
    using assms by (cases order) (simp_all add: put_word_def get_word_def get_put_le)
  show "put_word order n (get_word order bs :: 'a word) = bs" if "length bs = n"
    using that assms put_get_le [of bs, where ?'a = 'a] put_get_le [of "rev bs", where ?'a = 'a]
    by (cases order) (simp_all add: put_word_def get_word_def)
qed

interpretation codec16: byte_codec
  "put_word order 2 :: 16 word \<Rightarrow> byte list" "get_word order :: byte list \<Rightarrow> 16 word" 2
  for order
  by (rule put_word_codec) simp_all

interpretation codec32: byte_codec
  "put_word order 4 :: 32 word \<Rightarrow> byte list" "get_word order :: byte list \<Rightarrow> 32 word" 4
  for order
  by (rule put_word_codec) simp_all

interpretation codec64: byte_codec
  "put_word order 8 :: 64 word \<Rightarrow> byte list" "get_word order :: byte list \<Rightarrow> 64 word" 8
  for order
  by (rule put_word_codec) simp_all


section \<open>D-Bus values and their marshalled form\<close>

text \<open>
  An array carries its element type, because an empty array has one; a dictionary carries its key and
  value types. Entries are in wire order.
\<close>

datatype dval =
    DByte byte | DBoolean bool
  | DInt16 "16 word" | DUint16 "16 word"
  | DInt32 "32 word" | DUint32 "32 word"
  | DInt64 "64 word" | DUint64 "64 word"
  | DDouble "64 word"
  | DString string | DPath string | DSig string
  | DArray dty "dval list"
  | DDict dty dty "(dval \<times> dval) list"
  | DStruct "dval list"
  | DVariant dty dval

fun dval_ty :: "dval \<Rightarrow> dty" where
  "dval_ty (DByte x) = DBasic CHR ''y''"
| "dval_ty (DBoolean x) = DBasic CHR ''b''"
| "dval_ty (DInt16 x) = DBasic CHR ''n''"
| "dval_ty (DUint16 x) = DBasic CHR ''q''"
| "dval_ty (DInt32 x) = DBasic CHR ''i''"
| "dval_ty (DUint32 x) = DBasic CHR ''u''"
| "dval_ty (DInt64 x) = DBasic CHR ''x''"
| "dval_ty (DUint64 x) = DBasic CHR ''t''"
| "dval_ty (DDouble x) = DBasic CHR ''d''"
| "dval_ty (DString s) = DBasic CHR ''s''"
| "dval_ty (DPath s) = DBasic CHR ''o''"
| "dval_ty (DSig s) = DBasic CHR ''g''"
| "dval_ty (DArray t vs) = DArr t"
| "dval_ty (DDict k v kvs) = DArr (DPair k v)"
| "dval_ty (DStruct vs) = DStr (map dval_ty vs)"
| "dval_ty (DVariant t v) = DBasic CHR ''v''"

text \<open>The alignment of a type on the wire.\<close>

fun align_of :: "dty \<Rightarrow> nat" where
  "align_of (DBasic c) =
     (if c \<in> set ''ygv'' then 1 else if c \<in> set ''nq'' then 2 else if c \<in> set ''xtd'' then 8 else 4)"
| "align_of (DArr t) = 4"
| "align_of (DPair k v) = 8"
| "align_of (DStr ts) = 8"

text \<open>
  \<open>marshal order p v\<close> are the bytes of \<open>v\<close>, padding included, when the bytes before it number
  \<open>p\<close>. The length of an array counts its elements and the padding between them, not the padding
  after the length.
\<close>

function marshal :: "byte_order \<Rightarrow> nat \<Rightarrow> dval \<Rightarrow> byte list"
  and marshal_list :: "byte_order \<Rightarrow> nat \<Rightarrow> dval list \<Rightarrow> byte list"
  and marshal_entries :: "byte_order \<Rightarrow> nat \<Rightarrow> (dval \<times> dval) list \<Rightarrow> byte list" where
  "marshal order p (DByte x) = [x]"
| "marshal order p (DBoolean x) = padding 4 p @ put_word order 4 (if x then 1 else 0 :: 32 word)"
| "marshal order p (DInt16 x) = padding 2 p @ put_word order 2 x"
| "marshal order p (DUint16 x) = padding 2 p @ put_word order 2 x"
| "marshal order p (DInt32 x) = padding 4 p @ put_word order 4 x"
| "marshal order p (DUint32 x) = padding 4 p @ put_word order 4 x"
| "marshal order p (DInt64 x) = padding 8 p @ put_word order 8 x"
| "marshal order p (DUint64 x) = padding 8 p @ put_word order 8 x"
| "marshal order p (DDouble x) = padding 8 p @ put_word order 8 x"
| "marshal order p (DString s) =
     padding 4 p @ put_word order 4 (of_nat (length s) :: 32 word) @ bytes_of s @ [0]"
| "marshal order p (DPath s) =
     padding 4 p @ put_word order 4 (of_nat (length s) :: 32 word) @ bytes_of s @ [0]"
| "marshal order p (DSig s) = of_nat (length s) # bytes_of s @ [0]"
| "marshal order p (DArray t vs) =
     (let q = p + padlen 4 p + 4;
          body = marshal_list order (q + padlen (align_of t) q) vs
      in padding 4 p @ put_word order 4 (of_nat (length body) :: 32 word) @
         padding (align_of t) q @ body)"
| "marshal order p (DDict k t kvs) =
     (let q = p + padlen 4 p + 4;
          body = marshal_entries order (q + padlen 8 q) kvs
      in padding 4 p @ put_word order 4 (of_nat (length body) :: 32 word) @
         padding 8 q @ body)"
| "marshal order p (DStruct vs) = padding 8 p @ marshal_list order (p + padlen 8 p) vs"
| "marshal order p (DVariant t v) =
     (let sig = marshal order p (DSig (show_ty t))
      in sig @ marshal order (p + length sig) v)"
| "marshal_list order p [] = []"
| "marshal_list order p (v # vs) =
     (let b = marshal order p v in b @ marshal_list order (p + length b) vs)"
| "marshal_entries order p [] = []"
| "marshal_entries order p ((k, v) # kvs) =
     (let q = p + padlen 8 p;
          b = marshal order q k;
          c = marshal order (q + length b) v
      in padding 8 p @ b @ c @ marshal_entries order (q + length b + length c) kvs)"
  by pat_completeness auto
termination
  by (relation "measure (\<lambda>x. case x of
        Inl (order, p, v) \<Rightarrow> size v
      | Inr (Inl (order, p, vs)) \<Rightarrow> size_list size vs
      | Inr (Inr (order, p, kvs)) \<Rightarrow> size_list (size_prod size size) kvs)")
     auto

text \<open>
  Does a value contain a component of alignment 8? A value without one is marshalled the same at
  offsets that agree modulo 4, any value at offsets that agree modulo 8.
\<close>

fun need8 :: "dval \<Rightarrow> bool" where
  "need8 (DInt64 x) = True"
| "need8 (DUint64 x) = True"
| "need8 (DDouble x) = True"
| "need8 (DArray t vs) = (align_of t = 8 \<or> (\<exists>v \<in> set vs. need8 v))"
| "need8 (DDict k t kvs) = True"
| "need8 (DStruct vs) = True"
| "need8 (DVariant t v) = need8 v"
| "need8 v = False"

lemma add_mod_cong: "p mod m = q mod m \<Longrightarrow> (p + k) mod m = (q + k) mod (m::nat)"
  by (metis mod_add_left_eq)

lemma align_of_dvd: "align_of t dvd 8"
  by (cases t) auto

lemma align_of_dvd4: "align_of t \<noteq> 8 \<Longrightarrow> align_of t dvd 4"
  by (cases t) auto

lemma align_of_pos: "0 < align_of t"
  by (cases t) auto

lemma skip_mod_cong:
  "p mod m = q mod m \<Longrightarrow> n dvd m \<Longrightarrow> (p + padlen n p) mod m = (q + padlen n q) mod (m::nat)"
  by (simp add: padlen_cong [of p m q] add_mod_cong [of p m q])

lemma marshal_shift_aux:
  assumes "4 dvd m"
  shows "p mod m = q mod m \<Longrightarrow> (need8 v \<Longrightarrow> 8 dvd m) \<Longrightarrow> marshal order p v = marshal order q v"
    and "p mod m = q mod m \<Longrightarrow> (\<And>v. v \<in> set vs \<Longrightarrow> need8 v \<Longrightarrow> 8 dvd m) \<Longrightarrow>
           marshal_list order p vs = marshal_list order q vs"
    and "p mod m = q mod m \<Longrightarrow> 8 dvd m \<Longrightarrow>
           marshal_entries order p kvs = marshal_entries order q kvs"
proof (induction order p v and order p vs and order p kvs arbitrary: q and q and q
    rule: marshal_marshal_list_marshal_entries.induct)
  case (13 order p t vs)
  have p4: "padding 4 p = padding 4 q" using "13.prems"(1) assms by (rule padding_cong)
  have q: "(p + padlen 4 p + 4) mod m = (q + padlen 4 q + 4) mod m"
    by (rule add_mod_cong, rule skip_mod_cong) (use "13.prems"(1) assms in simp_all)
  have a: "align_of t dvd m"
    using "13.prems"(2) dvd_trans [OF align_of_dvd4 [of t] assms] by (cases "align_of t = 8") simp_all
  let ?p = "p + padlen 4 p + 4" and ?q = "q + padlen 4 q + 4"
  have "marshal_list order (?p + padlen (align_of t) ?p) vs = marshal_list order (?q + padlen (align_of t) ?q) vs"
    by (rule "13.IH" [OF refl skip_mod_cong [OF q a]]) (use "13.prems"(2) in auto)
  then show ?case
    using padding_cong [OF q a] p4 by (simp add: Let_def)
next
  case (14 order p k t kvs)
  have m: "8 dvd m" using "14.prems"(2) by simp
  have p4: "padding 4 p = padding 4 q" using "14.prems"(1) assms by (rule padding_cong)
  have q: "(p + padlen 4 p + 4) mod m = (q + padlen 4 q + 4) mod m"
    by (rule add_mod_cong, rule skip_mod_cong) (use "14.prems"(1) assms in simp_all)
  show ?case
    using "14.IH" [OF refl skip_mod_cong [OF q m] m] padding_cong [OF q m] p4
    by (simp add: Let_def)
next
  case (15 order p vs)
  have m: "8 dvd m" using "15.prems"(2) by simp
  show ?case
    using "15.IH" [OF skip_mod_cong [OF "15.prems"(1) m] m] padding_cong [OF "15.prems"(1) m] by simp
next
  case (16 order p t v)
  show ?case
    using "16.IH"(2) [OF refl add_mod_cong [OF "16.prems"(1)]] "16.prems"(2) by (simp add: Let_def)
next
  case (18 order p v vs)
  have v: "marshal order p v = marshal order q v"
    by (rule "18.IH"(1) [OF "18.prems"(1)]) (use "18.prems"(2) [of v] in simp)
  have "marshal_list order (p + length (marshal order p v)) vs = marshal_list order (q + length (marshal order p v)) vs"
    by (rule "18.IH"(2) [OF refl add_mod_cong [OF "18.prems"(1)]]) (rule "18.prems"(2), simp_all)
  with v show ?case by (simp add: Let_def)
next
  case (20 order p k v kvs)
  let ?p = "p + padlen 8 p" and ?q = "q + padlen 8 q"
  note pq = skip_mod_cong [OF "20.prems"(1,2)]
  have k: "marshal order ?p k = marshal order ?q k"
    by (rule "20.IH"(1) [OF refl pq]) (rule "20.prems"(2))
  have v: "marshal order (?p + length (marshal order ?q k)) v = marshal order (?q + length (marshal order ?q k)) v"
    using "20.IH"(2) [OF refl refl add_mod_cong [OF pq]] "20.prems"(2) unfolding k by simp
  show ?case
    using "20.IH"(3) [OF refl refl refl add_mod_cong [OF add_mod_cong [OF pq]] "20.prems"(2)] k v
      padding_cong [OF "20.prems"(1,2)]
    by (simp add: Let_def)
qed (use assms dvd_trans [of 2 4 m] in \<open>auto dest: padding_cong [of p m q for p q]\<close>)

text \<open>Where a value starts matters only modulo 8, or modulo 4 if nothing in it is 8-aligned.\<close>

lemma marshal_shift8: "p mod 8 = q mod 8 \<Longrightarrow> marshal order p v = marshal order q v"
  by (rule marshal_shift_aux(1) [of 8]) simp_all

lemma marshal_list_shift8: "p mod 8 = q mod 8 \<Longrightarrow> marshal_list order p vs = marshal_list order q vs"
  by (rule marshal_shift_aux(2) [of 8]) simp_all

lemma marshal_entries_shift8:
  "p mod 8 = q mod 8 \<Longrightarrow> marshal_entries order p kvs = marshal_entries order q kvs"
  by (rule marshal_shift_aux(3) [of 8]) simp_all

lemma marshal_list_shift4:
  "p mod 4 = q mod 4 \<Longrightarrow> (\<And>v. v \<in> set vs \<Longrightarrow> \<not> need8 v) \<Longrightarrow>
   marshal_list order p vs = marshal_list order q vs"
  by (rule marshal_shift_aux(2) [of 4]) simp_all

end
