(* ===== verification/Encoder.thy ===== *)
theory Encoder
  imports WireFormat
begin

text \<open>
  The encoder (encoder.go): a buffer that grows, the signature of what was appended, and
  \<open>appendValue\<close> by the reflected kind of the value. The refinement against the wire format says
  for which values the bytes appended are the marshalled form, and why not for the others.
\<close>

section \<open>State and alignment\<close>

record encoder =
  e_sig :: string
  e_data :: "byte list"
  e_order :: byte_order

text \<open>\<open>newEncoder\<close>: the initial data are copied into the buffer.\<close>

definition new_encoder :: "string \<Rightarrow> byte list \<Rightarrow> byte_order \<Rightarrow> encoder" where
  "new_encoder signature data order = \<lparr>e_sig = signature, e_data = data, e_order = order\<rparr>"

definition e_write :: "byte list \<Rightarrow> encoder \<Rightarrow> encoder" where
  "e_write bs e = e\<lparr>e_data := e_data e @ bs\<rparr>"

text \<open>\<open>align\<close> writes zero bytes while the length is not a multiple of the alignment.\<close>

function e_align :: "nat \<Rightarrow> encoder \<Rightarrow> encoder" where
  "e_align n e =
     (if n = 0 \<or> length (e_data e) mod n = 0 then e else e_align n (e_write [0] e))"
  by pat_completeness auto
termination
  by (relation "measure (\<lambda>(n, e). padlen n (length (e_data e)))")
     (auto simp: e_write_def padlen_Suc)

declare e_align.simps [simp del]

text \<open>The loop as a closed form.\<close>

lemma e_align_eq: "0 < n \<Longrightarrow> e_align n e = e_write (padding n (length (e_data e))) e"
proof (induction n e rule: e_align.induct)
  case (1 n e)
  let ?l = "length (e_data e)"
  show ?case
  proof (cases "?l mod n = 0")
    case True
    then show ?thesis by (simp add: e_align.simps [of n e] e_write_def padding_def padlen_def)
  next
    case False
    then have "padlen n ?l = Suc (padlen n (Suc ?l))"
      using "1.prems" by (simp add: padlen_Suc)
    then show ?thesis
      using 1 False by (simp add: e_align.simps [of n e] e_write_def padding_def)
  qed
qed

lemma e_write_simps [simp]:
  "e_data (e_write bs e) = e_data e @ bs" "e_sig (e_write bs e) = e_sig e"
  "e_order (e_write bs e) = e_order e"
  by (simp_all add: e_write_def)

lemma e_write_write [simp]: "e_write cs (e_write bs e) = e_write (bs @ cs) e"
  by (simp add: e_write_def)

lemma e_write_Nil [simp]: "e_write [] e = e"
  by (simp add: e_write_def)

lemma e_write_sig [simp]: "(e_write bs e)\<lparr>e_sig := s\<rparr> = e_write bs (e\<lparr>e_sig := s\<rparr>)"
  by (simp add: e_write_def)

section \<open>Pointers and ObjectPath methods\<close>

text \<open>
  The \<open>ObjectPath\<close> methods of the program's own types are not in the repository: \<open>M n v\<close> is
  what the method of type \<open>n\<close> returns for the value \<open>v\<close>, \<open>None\<close> if it panics. A method called
  through a nil interface, or through a nil pointer to a value receiver, panics.
\<close>

type_synonym methods = "string \<Rightarrow> gval \<Rightarrow> string option"

fun pather_path :: "methods \<Rightarrow> gotype \<Rightarrow> gval \<Rightarrow> string option" where
  "pather_path M TObjectPath v = (case v of VString s \<Rightarrow> Some s | _ \<Rightarrow> None)"
| "pather_path M (TMethod n u) v = (if kind_of u = KInterface \<and> v = VNil then None else M n v)"
| "pather_path M (TPtr t) v =
     (case v of
        VPtr w \<Rightarrow>
          (case t of
             TObjectPath \<Rightarrow> (case w of VString s \<Rightarrow> Some s | _ \<Rightarrow> None)
           | TMethod n u \<Rightarrow> M n w
           | _ \<Rightarrow> None)
      | _ \<Rightarrow> None)"
| "pather_path M t v = None"

text \<open>\<open>for t.Kind() == reflect.Ptr { t = t.Elem() }\<close>, on types and on values; nil panics.\<close>

fun strip_ptr_type :: "gotype \<Rightarrow> gotype" where
  "strip_ptr_type (TPtr t) = strip_ptr_type t"
| "strip_ptr_type (TMethod n u) = (if kind_of u = KPtr then strip_ptr_type u else TMethod n u)"
| "strip_ptr_type t = t"

fun strip_ptrs :: "gotype \<Rightarrow> gval \<Rightarrow> (gotype \<times> gval) option" where
  "strip_ptrs (TPtr t) v = (case v of VPtr w \<Rightarrow> strip_ptrs t w | _ \<Rightarrow> None)"
| "strip_ptrs (TMethod n u) v = (if kind_of u = KPtr then strip_ptrs u v else Some (TMethod n u, v))"
| "strip_ptrs t v = Some (t, v)"

lemma strip_ptrs_size: "strip_ptrs t v = Some (t', v') \<Longrightarrow> size v' \<le> size v"
  by (induction t v rule: strip_ptrs.induct) (force split: gval.splits if_splits)+

text \<open>\<open>alignForType\<close>; the error is the one of the default case.\<close>

definition align_for_type :: "gotype \<Rightarrow> encoder \<Rightarrow> encoder result" where
  "align_for_type t0 e =
     (let t = strip_ptr_type (if is_pather t0 then TObjectPath else t0) in
      case kind_of t of
        KUint8 \<Rightarrow> Inr (e_align 1 e)
      | KInt16 \<Rightarrow> Inr (e_align 2 e)
      | KUint16 \<Rightarrow> Inr (e_align 2 e)
      | KBool \<Rightarrow> Inr (e_align 4 e)
      | KInt32 \<Rightarrow> Inr (e_align 4 e)
      | KUint32 \<Rightarrow> Inr (e_align 4 e)
      | KArray \<Rightarrow> Inr (e_align 4 e)
      | KSlice \<Rightarrow> Inr (e_align 4 e)
      | KMap \<Rightarrow> Inr (e_align 4 e)
      | KInt64 \<Rightarrow> Inr (e_align 8 e)
      | KUint64 \<Rightarrow> Inr (e_align 8 e)
      | KFloat64 \<Rightarrow> Inr (e_align 8 e)
      | KString \<Rightarrow> Inr (e_align (if t = TSignature then 1 else 4) e)
      | KStruct \<Rightarrow> Inr (e_align (if t = TVariant then 1 else 8) e)
      | _ \<Rightarrow> Inl (Error (ErrNew ''Don't know how to align'')))"

text \<open>\<open>appendValue\<close> calls it for its effect and drops the error.\<close>

definition e_align_for :: "gotype \<Rightarrow> encoder \<Rightarrow> encoder" where
  "e_align_for t e = (case align_for_type t e of Inl err \<Rightarrow> e | Inr e' \<Rightarrow> e')"

section \<open>appendValue\<close>

text \<open>The string case: the length prefix of a signature is one byte, of other strings four.\<close>

definition append_string :: "gotype \<Rightarrow> string \<Rightarrow> encoder \<Rightarrow> encoder" where
  "append_string t s e =
     e_write (bytes_of s @ [0])
       (if t = TSignature then e_write [of_nat (length s)] e
        else e_write (put_word (e_order e) 4 (of_nat (length s) :: 32 word)) e)"

text \<open>\<open>appendValue(reflect.ValueOf(variantSig))\<close>: \<open>variantSig\<close> has type \<open>Signature\<close>.\<close>

definition append_signature :: "string \<Rightarrow> encoder \<Rightarrow> encoder" where
  "append_signature s e =
     append_string TSignature s (e_align_for TSignature (e\<lparr>e_sig := e_sig e @ ''g''\<rparr>))"

definition content_encoder :: "encoder \<Rightarrow> encoder" where
  "content_encoder e = \<lparr>e_sig = [], e_data = [], e_order = e_order e\<rparr>"

text \<open>
  \<open>append_value\<close> is \<open>appendValue\<close> up to the switch on the kind, \<open>append_kind\<close> the switch, on
  the value that was reached through the pointers. The loops over elements, map entries and fields
  are \<open>append_list\<close>, \<open>append_entries\<close> and \<open>append_fields\<close>. The array and map cases marshal the
  contents into a fresh encoder to learn their length. A value that does not have the type it is
  appended at does not exist in Go; the model gives it the error of the code's last line.
\<close>

abbreviation cannot_marshal :: "gotype \<Rightarrow> 'a result" where
  "cannot_marshal t \<equiv> Inl (Error (ErrCannotMarshal t))"

definition nil_deref :: string where
  "nil_deref = ''invalid memory address or nil pointer dereference''"

function append_value :: "methods \<Rightarrow> gotype \<Rightarrow> gval \<Rightarrow> encoder \<Rightarrow> encoder result"
  and append_kind :: "methods \<Rightarrow> gotype \<Rightarrow> gval \<Rightarrow> encoder \<Rightarrow> encoder result"
  and append_list :: "methods \<Rightarrow> gotype \<Rightarrow> gval list \<Rightarrow> encoder \<Rightarrow> encoder result"
  and append_entries :: "methods \<Rightarrow> gotype \<Rightarrow> gotype \<Rightarrow> (gval \<times> gval) list \<Rightarrow> encoder \<Rightarrow> encoder result"
  and append_fields :: "methods \<Rightarrow> gotype list \<Rightarrow> gval list \<Rightarrow> encoder \<Rightarrow> encoder result" where
  "append_value M t v e =
     ebind (signature_of t) (\<lambda>sig.
       let e1 = e\<lparr>e_sig := e_sig e @ sig\<rparr> in
       if is_pather t then
         (case pather_path M t v of
            None \<Rightarrow> Inl (Panic nil_deref)
          | Some path \<Rightarrow> Inr (append_string TObjectPath path (e_align_for TObjectPath e1)))
       else
         (case strip_ptrs t v of
            None \<Rightarrow> Inl (Panic nil_deref)
          | Some (t', v') \<Rightarrow> append_kind M t' v' (e_align_for t' e1)))"
| "append_kind M t (VUint8 x) e =
     (if kind_of t = KUint8 then Inr (e_write [x] e) else cannot_marshal t)"
| "append_kind M t (VBool x) e =
     (if kind_of t = KBool
      then Inr (e_write (put_word (e_order e) 4 (if x then 1 else 0 :: 32 word)) e)
      else cannot_marshal t)"
| "append_kind M t (VInt16 x) e =
     (if kind_of t = KInt16 then Inr (e_write (put_word (e_order e) 2 x) e) else cannot_marshal t)"
| "append_kind M t (VUint16 x) e =
     (if kind_of t = KUint16 then Inr (e_write (put_word (e_order e) 2 x) e) else cannot_marshal t)"
| "append_kind M t (VInt32 x) e =
     (if kind_of t = KInt32 then Inr (e_write (put_word (e_order e) 4 x) e) else cannot_marshal t)"
| "append_kind M t (VUint32 x) e =
     (if kind_of t = KUint32 then Inr (e_write (put_word (e_order e) 4 x) e) else cannot_marshal t)"
| "append_kind M t (VInt64 x) e =
     (if kind_of t = KInt64 then Inr (e_write (put_word (e_order e) 8 x) e) else cannot_marshal t)"
| "append_kind M t (VUint64 x) e =
     (if kind_of t = KUint64 then Inr (e_write (put_word (e_order e) 8 x) e) else cannot_marshal t)"
| "append_kind M t (VFloat64 x) e =
     (if kind_of t = KFloat64 then Inr (e_write (put_word (e_order e) 8 x) e) else cannot_marshal t)"
| "append_kind M t (VString s) e =
     (if kind_of t = KString then Inr (append_string t s e) else cannot_marshal t)"
| "append_kind M t (VList vs) e =
     (if kind_of t = KArray \<or> kind_of t = KSlice then
        ebind (append_list M (elem_type t) vs (content_encoder e)) (\<lambda>content.
          let e1 = e_write (put_word (e_order e) 4 (of_nat (length (e_data content)) :: 32 word)) e;
              e2 = e_align_for (elem_type t) e1
          in Inr (e_write (e_data content) e2))
      else cannot_marshal t)"
| "append_kind M t (VMap kvs) e =
     (case under t of
        TMap k u \<Rightarrow>
          ebind (append_entries M k u kvs (content_encoder e)) (\<lambda>content.
            let e1 = e_write (put_word (e_order e) 4 (of_nat (length (e_data content)) :: 32 word)) e
            in Inr (e_write (e_data content) (e_align 8 e1)))
      | _ \<Rightarrow> cannot_marshal t)"
| "append_kind M t (VStruct vs) e =
     (if t = TVariant then
        (case vs of
           [VIface u v] \<Rightarrow>
             ebind (signature_of u) (\<lambda>variantSig.
             ebind (append_value M u v (append_signature variantSig e)) (\<lambda>e1.
               Inr (e1\<lparr>e_sig := e_sig e\<rparr>)))
         | [VNil] \<Rightarrow> Inl (Panic nil_deref)
         | _ \<Rightarrow> cannot_marshal t)
      else if kind_of t = KStruct then
        ebind (append_fields M (field_types t) vs e) (\<lambda>e1. Inr (e1\<lparr>e_sig := e_sig e\<rparr>))
      else cannot_marshal t)"
| "append_kind M t (VIface u v) e = cannot_marshal t"
| "append_kind M t (VPtr v) e = cannot_marshal t"
| "append_kind M t VNil e =
     (if kind_of t = KSlice then
        Inr (e_align_for (elem_type t) (e_write (put_word (e_order e) 4 (0 :: 32 word)) e))
      else if kind_of t = KMap then
        Inr (e_align 8 (e_write (put_word (e_order e) 4 (0 :: 32 word)) e))
      else cannot_marshal t)"
| "append_list M t [] e = Inr e"
| "append_list M t (v # vs) e = ebind (append_value M t v e) (append_list M t vs)"
| "append_entries M k u [] e = Inr e"
| "append_entries M k u ((a, b) # kvs) e =
     ebind (append_value M k a (e_align 8 e)) (\<lambda>e1.
     ebind (append_value M u b e1) (append_entries M k u kvs))"
| "append_fields M ts [] e = (case ts of [] \<Rightarrow> Inr e | t # _ \<Rightarrow> cannot_marshal t)"
| "append_fields M ts (v # vs) e =
     (case ts of
        [] \<Rightarrow> Inr e
      | t # ts' \<Rightarrow> ebind (append_value M t v e) (append_fields M ts' vs))"
  by pat_completeness auto
termination
  by (relation "measure (\<lambda>x. case x of
        Inl (Inl (M, t, v, e)) \<Rightarrow> 2 * size v + 1
      | Inl (Inr (M, t, v, e)) \<Rightarrow> 2 * size v
      | Inr (Inl (M, t, vs, e)) \<Rightarrow> 2 * size_list size vs + 1
      | Inr (Inr (Inl (M, k, u, kvs, e))) \<Rightarrow> 2 * size_list (size_prod size size) kvs + 1
      | Inr (Inr (Inr (M, ts, vs, e))) \<Rightarrow> 2 * size_list size vs + 1)")
     (auto dest: strip_ptrs_size)

declare append_value.simps [simp del]

text \<open>\<open>Append\<close>: the arguments are \<open>interface{}\<close> values; \<open>reflect.ValueOf\<close> gives type and value.\<close>

fun e_append :: "methods \<Rightarrow> (gotype \<times> gval) list \<Rightarrow> encoder \<Rightarrow> encoder result" where
  "e_append M [] e = Inr e"
| "e_append M ((t, v) # args) e = ebind (append_value M t v e) (e_append M args)"

section \<open>The value on the wire\<close>

text \<open>
  The abstraction: the D-Bus value a Go value stands for. It is undefined where the code fails (a nil
  pointer, an empty variant, an unsupported dynamic type) and for a pointer to a pointer to a type
  with an \<open>ObjectPath\<close> method, whose signature and contents the code takes from different places
  (\<open>plain_path\<close> excludes it).
\<close>

fun plain_path :: "gotype \<Rightarrow> bool" where
  "plain_path (TPtr t) = plain_path t"
| "plain_path (TMethod n u) = False"
| "plain_path t = True"

definition wire_ty :: "gotype \<Rightarrow> dty option" where
  "wire_ty t = (if is_pather t \<or> plain_path t then dty_of t else None)"

function to_dval :: "methods \<Rightarrow> gotype \<Rightarrow> gval \<Rightarrow> dval option"
  and kind_dval :: "methods \<Rightarrow> gotype \<Rightarrow> gval \<Rightarrow> dval option"
  and list_dval :: "methods \<Rightarrow> gotype \<Rightarrow> gval list \<Rightarrow> dval list option"
  and entries_dval :: "methods \<Rightarrow> gotype \<Rightarrow> gotype \<Rightarrow> (gval \<times> gval) list \<Rightarrow> (dval \<times> dval) list option"
  and fields_dval :: "methods \<Rightarrow> gotype list \<Rightarrow> gval list \<Rightarrow> dval list option" where
  "to_dval M t v =
     (if wire_ty t = None then None
      else if is_pather t then map_option DPath (pather_path M t v)
      else Option.bind (strip_ptrs t v) (\<lambda>(t', v'). kind_dval M t' v'))"
| "kind_dval M t (VUint8 x) = (if t = TUint8 then Some (DByte x) else None)"
| "kind_dval M t (VBool x) = (if t = TBool then Some (DBoolean x) else None)"
| "kind_dval M t (VInt16 x) = (if t = TInt16 then Some (DInt16 x) else None)"
| "kind_dval M t (VUint16 x) = (if t = TUint16 then Some (DUint16 x) else None)"
| "kind_dval M t (VInt32 x) = (if t = TInt32 then Some (DInt32 x) else None)"
| "kind_dval M t (VUint32 x) = (if t = TUint32 then Some (DUint32 x) else None)"
| "kind_dval M t (VInt64 x) = (if t = TInt64 then Some (DInt64 x) else None)"
| "kind_dval M t (VUint64 x) = (if t = TUint64 then Some (DUint64 x) else None)"
| "kind_dval M t (VFloat64 x) = (if t = TFloat64 then Some (DDouble x) else None)"
| "kind_dval M t (VString s) =
     (if t = TString then Some (DString s) else if t = TObjectPath then Some (DPath s)
      else if t = TSignature then Some (DSig s) else None)"
| "kind_dval M t (VList vs) =
     (case t of
        TArray n u \<Rightarrow> Option.bind (wire_ty u) (\<lambda>d. map_option (DArray d) (list_dval M u vs))
      | TSlice u \<Rightarrow> Option.bind (wire_ty u) (\<lambda>d. map_option (DArray d) (list_dval M u vs))
      | _ \<Rightarrow> None)"
| "kind_dval M t (VMap kvs) =
     (case t of
        TMap k u \<Rightarrow>
          Option.bind (wire_ty k) (\<lambda>dk. Option.bind (wire_ty u) (\<lambda>du.
            map_option (DDict dk du) (entries_dval M k u kvs)))
      | _ \<Rightarrow> None)"
| "kind_dval M t (VStruct vs) =
     (case t of
        TVariant \<Rightarrow>
          (case vs of
             [VIface u v] \<Rightarrow>
               Option.bind (wire_ty u) (\<lambda>d. map_option (DVariant d) (to_dval M u v))
           | _ \<Rightarrow> None)
      | TStruct ts \<Rightarrow> map_option DStruct (fields_dval M ts vs)
      | _ \<Rightarrow> None)"
| "kind_dval M t (VIface u v) = None"
| "kind_dval M t (VPtr v) = None"
| "kind_dval M t VNil =
     (case t of
        TSlice u \<Rightarrow> map_option (\<lambda>d. DArray d []) (wire_ty u)
      | TMap k u \<Rightarrow> Option.bind (wire_ty k) (\<lambda>dk. map_option (\<lambda>du. DDict dk du []) (wire_ty u))
      | _ \<Rightarrow> None)"
| "list_dval M t [] = Some []"
| "list_dval M t (v # vs) = Option.bind (to_dval M t v) (\<lambda>d. map_option ((#) d) (list_dval M t vs))"
| "entries_dval M k u [] = Some []"
| "entries_dval M k u ((a, b) # kvs) =
     Option.bind (to_dval M k a) (\<lambda>da. Option.bind (to_dval M u b) (\<lambda>db.
       map_option ((#) (da, db)) (entries_dval M k u kvs)))"
| "fields_dval M ts [] = (case ts of [] \<Rightarrow> Some [] | _ \<Rightarrow> None)"
| "fields_dval M ts (v # vs) =
     (case ts of
        [] \<Rightarrow> None
      | t # ts' \<Rightarrow>
          Option.bind (to_dval M t v) (\<lambda>d. map_option ((#) d) (fields_dval M ts' vs)))"
  by pat_completeness auto
termination
  by (relation "measure (\<lambda>x. case x of
        Inl (Inl (M, t, v)) \<Rightarrow> 2 * size v + 1
      | Inl (Inr (M, t, v)) \<Rightarrow> 2 * size v
      | Inr (Inl (M, t, vs)) \<Rightarrow> 2 * size_list size vs + 1
      | Inr (Inr (Inl (M, k, u, kvs))) \<Rightarrow> 2 * size_list (size_prod size size) kvs + 1
      | Inr (Inr (Inr (M, ts, vs))) \<Rightarrow> 2 * size_list size vs + 1)")
     (auto dest: strip_ptrs_size)

declare to_dval.simps [simp del]

text \<open>
  The contents of an array are marshalled by the code as if they began at offset 0. They are then
  copied to an offset that is a multiple of the element's alignment, and of 4. The paddings inside
  them are right there if the elements are 8-aligned, or if nothing in them is.
\<close>

fun array_safe :: "dval \<Rightarrow> bool" where
  "array_safe (DArray t vs) =
     ((align_of t = 8 \<or> (\<forall>v \<in> set vs. \<not> need8 v)) \<and> (\<forall>v \<in> set vs. array_safe v))"
| "array_safe (DDict k t kvs) = (\<forall>(a, b) \<in> set kvs. array_safe a \<and> array_safe b)"
| "array_safe (DStruct vs) = (\<forall>v \<in> set vs. array_safe v)"
| "array_safe (DVariant t v) = array_safe v"
| "array_safe v = True"

section \<open>The encoder implements the wire format\<close>

lemma plain_path_strip:
  "plain_path t \<Longrightarrow> \<not> is_pather t \<Longrightarrow> dty_of (strip_ptr_type t) = dty_of t"
proof (induction t)
  case (TPtr t)
  show ?case
  proof (cases "is_pather t")
    case True
    with TPtr.prems obtain u where "t = TPtr u" "plain_path u" by (cases t) auto
    with True have "t = TPtr TObjectPath" by (cases u) auto
    then show ?thesis by (simp add: dty_of_TPtr)
  next
    case False
    with TPtr show ?thesis by (simp add: dty_of_TPtr del: is_pather.simps(3))
  qed
qed simp_all

lemma strip_ptr_type_shape: "plain_path t \<Longrightarrow> plain_path (strip_ptr_type t) \<and> kind_of (strip_ptr_type t) \<noteq> KPtr"
  by (induction t) auto

lemma e_align_for_wire:
  assumes "wire_ty t = Some d"
  shows "e_align_for t e = e_write (padding (align_of d) (length (e_data e))) e"
proof (cases "is_pather t")
  case True
  with assms have "d = DBasic CHR ''o''" by (auto simp: wire_ty_def dty_of.simps [of t])
  with True show ?thesis by (simp add: e_align_for_def align_for_type_def e_align_eq)
next
  case False
  let ?t = "strip_ptr_type t"
  have t: "plain_path t" "dty_of ?t = Some d"
    using assms False plain_path_strip by (auto simp: wire_ty_def split: if_splits)
  then have "plain_path ?t" "kind_of ?t \<noteq> KPtr" using strip_ptr_type_shape by blast+
  then show ?thesis using t(2) False
    by (cases ?t) (auto simp: e_align_for_def align_for_type_def e_align_eq bind_eq_Some_conv)
qed

lemma strip_ptrs_type: "strip_ptrs t v = Some (t', v') \<Longrightarrow> t' = strip_ptr_type t"
  by (induction t v rule: strip_ptrs.induct) (auto split: gval.splits if_splits)

lemma wire_ty_dty: "wire_ty t = Some d \<Longrightarrow> dty_of t = Some d"
  by (simp add: wire_ty_def split: if_splits)

lemma dval_ty_of:
  "to_dval M t v = Some dv \<Longrightarrow> wire_ty t = Some (dval_ty dv)"
  "kind_dval M t v = Some dv \<Longrightarrow> dty_of t = Some (dval_ty dv)"
  "list_dval M t vs = Some dvs \<Longrightarrow> \<forall>dv \<in> set dvs. wire_ty t = Some (dval_ty dv)"
  "entries_dval M k u kvs = Some des \<Longrightarrow>
     \<forall>(a, b) \<in> set des. wire_ty k = Some (dval_ty a) \<and> wire_ty u = Some (dval_ty b)"
  "fields_dval M ts vs = Some dvs \<Longrightarrow> dty_fields ts = Some (map dval_ty dvs)"
proof (induction M t v and M t v and M t vs and M k u kvs and M ts vs
    arbitrary: dv and dv and dvs and des and dvs
    rule: to_dval_kind_dval_list_dval_entries_dval_fields_dval.induct)
  case (1 M t v)
  show ?case
  proof (cases "is_pather t")
    case True
    with "1.prems" show ?thesis
      by (auto simp: to_dval.simps [of M t v] wire_ty_def dty_of.simps [of t] split: if_splits)
  next
    case False
    then obtain t' v' where s: "strip_ptrs t v = Some (t', v')" "kind_dval M t' v' = Some dv"
        and w: "wire_ty t \<noteq> None"
      using "1.prems" by (auto simp: to_dval.simps [of M t v] bind_eq_Some_conv split: if_splits)
    have "dty_of t' = Some (dval_ty dv)" using "1.IH" [OF w False s(1) refl s(2)] .
    moreover have "t' = strip_ptr_type t" using s(1) by (rule strip_ptrs_type)
    moreover have "plain_path t" using w False by (simp add: wire_ty_def split: if_splits)
    ultimately show ?thesis using plain_path_strip [of t] False by (simp add: wire_ty_def)
  qed
next
  case (12 M t vs)
  then show ?case by (auto split: gotype.splits simp: bind_eq_Some_conv dest: wire_ty_dty)
next
  case (13 M t kvs)
  then show ?case by (auto split: gotype.splits simp: bind_eq_Some_conv dest: wire_ty_dty)
next
  case (14 M t vs)
  then show ?case
    by (auto split: gotype.splits list.splits gval.splits simp: bind_eq_Some_conv)
next
  case (17 M t)
  then show ?case by (auto split: gotype.splits simp: bind_eq_Some_conv dest: wire_ty_dty)
next
  case (21 M k u a b kvs)
  then obtain da db des' where d: "to_dval M k a = Some da" "to_dval M u b = Some db"
      "entries_dval M k u kvs = Some des'" "des = (da, db) # des'"
    by (auto simp: bind_eq_Some_conv)
  show ?case
    using "21.IH"(1) [OF d(1)] "21.IH"(2) [OF d(1,2)] "21.IH"(3) [OF d(1-3)] d(4) by auto
next
  case (23 M ts v vs)
  then obtain t ts' d dvs' where d: "ts = t # ts'" "to_dval M t v = Some d"
      "fields_dval M ts' vs = Some dvs'" "dvs = d # dvs'"
    by (auto simp: bind_eq_Some_conv split: list.splits)
  show ?case
    using "23.IH"(1) [OF d(1,2)] "23.IH"(2) [OF d(1-3)] d(1,4) by (auto dest: wire_ty_dty)
qed (auto simp: bind_eq_Some_conv split: if_splits list.splits dest: wire_ty_dty)

text \<open>The leading padding of a marshalled value is that of its type.\<close>

lemma marshal_pad:
  "marshal order p dv =
     padding (align_of (dval_ty dv)) p @
     marshal order (p + padlen (align_of (dval_ty dv)) p) dv"
  by (cases dv) (simp_all add: Let_def padding_def)

lemma content_start:
  assumes "4 dvd q"
  shows "(q + padlen (align_of t) q) mod 4 = 0"
    and "align_of t = 8 \<Longrightarrow> (q + padlen (align_of t) q) mod 8 = 0"
proof -
  show "(q + padlen (align_of t) q) mod 8 = 0" if "align_of t = 8"
    using padlen_aligned [of 8 q] that by simp
  then show "(q + padlen (align_of t) q) mod 4 = 0"
    using padlen_dvd [OF dvd_trans [OF align_of_dvd4 assms]] assms
    by (cases "align_of t = 8") (auto simp: mod_eq_0_iff_dvd intro: dvd_trans [of 4 8])
qed

lemma content_shift:
  assumes "4 dvd q" and "align_of t = 8 \<or> (\<forall>v \<in> set vs. \<not> need8 v)"
  shows "marshal_list order (q + padlen (align_of t) q) vs = marshal_list order 0 vs"
  using assms content_start [OF assms(1), of t]
  by (cases "align_of t = 8") (auto intro: marshal_list_shift8 marshal_list_shift4)

lemma append_kind_string:
  "kind_dval M t (VString s) = Some dv \<Longrightarrow> align_of (dval_ty dv) dvd length (e_data e) \<Longrightarrow>
   append_string t s e = e_write (marshal (e_order e) (length (e_data e)) dv) e"
  by (auto simp: append_string_def padding_def padlen_dvd split: if_splits)

lemma append_signature_eq:
  "append_signature s e =
     e_write (marshal (e_order e) (length (e_data e)) (DSig s)) (e\<lparr>e_sig := e_sig e @ ''g''\<rparr>)"
  by (simp add: append_signature_def append_string_def e_align_for_wire [of TSignature "DBasic CHR ''g''"]
      wire_ty_def)

lemma append_marshal:
  "to_dval M t v = Some dv \<Longrightarrow> array_safe dv \<Longrightarrow>
     append_value M t v e =
       Inr (e_write (marshal (e_order e) (length (e_data e)) dv)
              (e\<lparr>e_sig := e_sig e @ show_ty (dval_ty dv)\<rparr>))"
  "kind_dval M t v = Some dv \<Longrightarrow> array_safe dv \<Longrightarrow> align_of (dval_ty dv) dvd length (e_data e) \<Longrightarrow>
     append_kind M t v e = Inr (e_write (marshal (e_order e) (length (e_data e)) dv) e)"
  "list_dval M t vs = Some dvs \<Longrightarrow> \<forall>dv \<in> set dvs. array_safe dv \<Longrightarrow>
     \<exists>s. append_list M t vs e =
       Inr (e_write (marshal_list (e_order e) (length (e_data e)) dvs) (e\<lparr>e_sig := s\<rparr>))"
  "entries_dval M k u kvs = Some des \<Longrightarrow> \<forall>(a, b) \<in> set des. array_safe a \<and> array_safe b \<Longrightarrow>
     \<exists>s. append_entries M k u kvs e =
       Inr (e_write (marshal_entries (e_order e) (length (e_data e)) des) (e\<lparr>e_sig := s\<rparr>))"
  "fields_dval M ts vs = Some dvs \<Longrightarrow> \<forall>dv \<in> set dvs. array_safe dv \<Longrightarrow>
     \<exists>s. append_fields M ts vs e =
       Inr (e_write (marshal_list (e_order e) (length (e_data e)) dvs) (e\<lparr>e_sig := s\<rparr>))"
proof (induction M t v e and M t v e and M t vs e and M k u kvs e and M ts vs e
    arbitrary: dv and dv and dvs and des and dvs
    rule: append_value_append_kind_append_list_append_entries_append_fields.induct)
  case (1 M t v e)
  let ?d = "dval_ty dv" and ?e = "e\<lparr>e_sig := e_sig e @ show_ty (dval_ty dv)\<rparr>"
  have w: "wire_ty t = Some ?d" using "1.prems"(1) by (rule dval_ty_of)
  then have sig: "signature_of t = Inr (show_ty ?d)"
    using signature_of_iff wire_ty_dty by blast
  note pad = marshal_pad [of "e_order e" "length (e_data e)" dv]
  show ?case
  proof (cases "is_pather t")
    case True
    with "1.prems"(1) obtain path where p: "pather_path M t v = Some path" "dv = DPath path"
      by (auto simp: to_dval.simps [of M t v] split: if_splits)
    then show ?thesis
      using True sig
      by (simp add: append_value.simps [of M t v] append_string_def wire_ty_def
          e_align_for_wire [of TObjectPath "DBasic CHR ''o''"])
  next
    case False
    then obtain t' v' where s: "strip_ptrs t v = Some (t', v')" "kind_dval M t' v' = Some dv"
      using "1.prems"(1) by (auto simp: to_dval.simps [of M t v] bind_eq_Some_conv split: if_splits)
    let ?a = "e_align_for t' ?e"
    have t': "t' = strip_ptr_type t" using s(1) by (rule strip_ptrs_type)
    have pp: "plain_path t" using w False by (simp add: wire_ty_def split: if_splits)
    then have "plain_path t'" using t' strip_ptr_type_shape by blast
    moreover have "dty_of t' = Some ?d" using s(2) by (rule dval_ty_of)
    ultimately have "wire_ty t' = Some ?d" by (simp add: wire_ty_def)
    then have a: "?a = e_write (padding (align_of ?d) (length (e_data e))) ?e"
      by (simp add: e_align_for_wire)
    have "append_kind M t' v' ?a = Inr (e_write (marshal (e_order ?a) (length (e_data ?a)) dv) ?a)"
      using "1.IH" [OF sig refl False s(1) refl s(2) "1.prems"(2)] a
      by (simp add: padlen_aligned align_of_pos)
    then have "append_kind M t' v' ?a =
        Inr (e_write (marshal (e_order e) (length (e_data e)) dv) ?e)"
      unfolding a using pad by simp
    then show ?thesis using sig False s(1) by (simp add: append_value.simps [of M t v])
  qed
next
  case (11 M t s e)
  then show ?case
    using append_kind_string [of M t s dv e] by (auto split: if_splits)
next
  case (12 M t vs e)
  let ?q = "length (e_data e) + 4"
  obtain u d dvs where t: "elem_type t = u" "kind_of t = KArray \<or> kind_of t = KSlice"
      and d: "wire_ty u = Some d" "list_dval M u vs = Some dvs" "dv = DArray d dvs"
    using "12.prems"(1) by (auto split: gotype.splits simp: bind_eq_Some_conv)
  have l4: "4 dvd length (e_data e)" using "12.prems"(3) d by simp
  have "\<forall>dv \<in> set dvs. array_safe dv" and safe: "align_of d = 8 \<or> (\<forall>v \<in> set dvs. \<not> need8 v)"
    using "12.prems"(2) d by auto
  then obtain s where "append_list M u vs (content_encoder e) =
      Inr (e_write (marshal_list (e_order e) 0 dvs) (content_encoder e\<lparr>e_sig := s\<rparr>))"
    using "12.IH" [OF t(2)] t(1) d(2) by (auto simp: content_encoder_def)
  moreover have "marshal_list (e_order e) (?q + padlen (align_of d) ?q) dvs = marshal_list (e_order e) 0 dvs"
    using l4 safe by (intro content_shift) simp_all
  ultimately show ?case
    using t d l4 by (simp add: Let_def e_align_for_wire content_encoder_def padding_def [of 4] padlen_dvd)
next
  case (13 M t kvs e)
  let ?q = "length (e_data e) + 4"
  obtain k u dk du des where t: "t = TMap k u"
      and d: "entries_dval M k u kvs = Some des" "dv = DDict dk du des"
    using "13.prems"(1) by (auto split: gotype.splits simp: bind_eq_Some_conv)
  have l4: "4 dvd length (e_data e)" using "13.prems"(3) d by simp
  have "\<forall>(a, b) \<in> set des. array_safe a \<and> array_safe b" using "13.prems"(2) d by auto
  then obtain s where "append_entries M k u kvs (content_encoder e) =
      Inr (e_write (marshal_entries (e_order e) 0 des) (content_encoder e\<lparr>e_sig := s\<rparr>))"
    using "13.IH" t d(1) by (fastforce simp: content_encoder_def)
  moreover have "marshal_entries (e_order e) (?q + padlen 8 ?q) des = marshal_entries (e_order e) 0 des"
    by (rule marshal_entries_shift8) (simp add: padlen_aligned)
  ultimately show ?case
    using t d l4 by (simp add: Let_def e_align_eq content_encoder_def padding_def [of 4] padlen_dvd)
next
  case (14 M t vs e)
  show ?case
  proof (cases "t = TVariant")
    case True
    with "14.prems"(1) obtain u v d dw where v: "vs = [VIface u v]" "wire_ty u = Some d"
        "to_dval M u v = Some dw" "dv = DVariant d dw"
      by (auto split: list.splits gval.splits simp: bind_eq_Some_conv)
    then have d: "d = dval_ty dw" using dval_ty_of(1) [OF v(3)] by simp
    have sig: "signature_of u = Inr (show_ty d)" using v(2) signature_of_iff wire_ty_dty by blast
    show ?thesis
      using "14.IH"(1) [OF True v(1) refl refl sig v(3)] "14.prems"(2) True v sig d
      by (simp add: append_signature_eq Let_def)
  next
    case False
    with "14.prems"(1) obtain ts dvs where t: "t = TStruct ts" "fields_dval M ts vs = Some dvs"
        "dv = DStruct dvs"
      by (auto split: gotype.splits)
    then obtain s where "append_fields M ts vs e =
        Inr (e_write (marshal_list (e_order e) (length (e_data e)) dvs) (e\<lparr>e_sig := s\<rparr>))"
      using "14.IH"(2) [OF False] "14.prems"(2) by auto
    then show ?thesis using t "14.prems"(3) by (simp add: padding_def padlen_dvd)
  qed
next
  case (17 M t e)
  then show ?case
    by (auto split: gotype.splits simp: bind_eq_Some_conv e_align_for_wire e_align_eq padding_def [of 4] padlen_dvd)
next
  case (18 M t e)
  then show ?case by (auto intro: exI [of _ "e_sig e"])
next
  case (19 M t v vs e)
  then obtain d ds where d: "to_dval M t v = Some d" "list_dval M t vs = Some ds" "dvs = d # ds"
    by (auto simp: bind_eq_Some_conv)
  note v = "19.IH"(1) [OF d(1)]
  show ?case
    using v "19.IH"(2) [OF v d(2)] "19.prems"(2) d(3) by (auto simp: Let_def)
next
  case (20 M k u e)
  then show ?case by (auto intro: exI [of _ "e_sig e"])
next
  case (21 M k u a b kvs e)
  then obtain da db ds where d: "to_dval M k a = Some da" "to_dval M u b = Some db"
      "entries_dval M k u kvs = Some ds" "des = (da, db) # ds"
    by (auto simp: bind_eq_Some_conv)
  have safe: "array_safe da" "array_safe db" "\<forall>(a, b) \<in> set ds. array_safe a \<and> array_safe b"
    using "21.prems"(2) d(4) by auto
  note a = "21.IH"(1) [OF d(1) safe(1)]
  note b = "21.IH"(2) [OF a d(2) safe(2)]
  show ?case
    using a b "21.IH"(3) [OF a b d(3) safe(3)] d(4) by (auto simp: Let_def e_align_eq add.assoc)
next
  case (22 M ts e)
  then show ?case by (auto split: list.splits intro: exI [of _ "e_sig e"])
next
  case (23 M ts v vs e)
  then obtain t ts' d ds where d: "ts = t # ts'" "to_dval M t v = Some d"
      "fields_dval M ts' vs = Some ds" "dvs = d # ds"
    by (auto simp: bind_eq_Some_conv split: list.splits)
  have safe: "array_safe d" "\<forall>dv \<in> set ds. array_safe dv" using "23.prems"(2) d(4) by auto
  note v = "23.IH"(1) [OF d(1,2) safe(1)]
  show ?case
    using v "23.IH"(2) [OF d(1) v d(3) safe(2)] d(1,4) by (auto simp: Let_def)
qed (auto simp: padding_def padlen_dvd split: if_splits)

end
