(* ===== verification/Decoder.thy ===== *)
theory Decoder
  imports WireFormat
begin

text \<open>
  The decoder (decoder.go): reads of the fixed-size types, strings and signatures with their bounds
  checks, and \<open>decodeValue\<close>, which is driven by the signature and stores into a variable of any Go
  type. A variable is its type and its current value; a call returns the new value and the decoder.

  Offsets are natural numbers: the code adds to them lengths below \<open>2 ^ 32\<close>, which stays far from
  the limits of Go's 64-bit \<open>int\<close>. When a call fails only the error is kept; what the failed call
  had already stored in the variable is not modelled.

  The loop over array contents runs while the data offset is before the end of the array, so it does
  not stop if an element takes no bytes. \<open>decode_value\<close> and the loops therefore count fuel; more
  fuel never changes an outcome, and the section on termination says when a call needs only so much.
\<close>

section \<open>State and reads\<close>

record decoder =
  d_sig :: string
  d_data :: "byte list"
  d_order :: byte_order
  d_off :: nat
  d_sigoff :: nat

definition new_decoder :: "string \<Rightarrow> byte list \<Rightarrow> byte_order \<Rightarrow> decoder" where
  "new_decoder signature data order =
     \<lparr>d_sig = signature, d_data = data, d_order = order, d_off = 0, d_sigoff = 0\<rparr>"

text \<open>Go's \<open>%\<close> truncates towards zero, hence the correction of a negative remainder.\<close>

definition d_align :: "nat \<Rightarrow> decoder \<Rightarrow> decoder" where
  "d_align alignment d =
     (let inc = (- int (d_off d)) smod int alignment;
          inc' = (if inc < 0 then inc + int alignment else inc)
      in d\<lparr>d_off := nat (int (d_off d) + inc')\<rparr>)"

definition has_more :: "decoder \<Rightarrow> bool" where
  "has_more d = (d_sigoff d < length (d_sig d))"

definition remainder :: "decoder \<Rightarrow> byte list result" where
  "remainder d =
     (if d_off d \<le> length (d_data d) then Inr (drop (d_off d) (d_data d))
      else Inl (Panic ''slice bounds out of range''))"

abbreviation overrun :: "'a result" where
  "overrun \<equiv> Inl (Error ErrBufferOverrun)"

definition read_byte :: "decoder \<Rightarrow> (byte \<times> decoder) result" where
  "read_byte d =
     (if length (d_data d) < d_off d + 1 then overrun
      else Inr (d_data d ! d_off d, d\<lparr>d_off := d_off d + 1\<rparr>))"

definition read_int16 :: "decoder \<Rightarrow> (16 word \<times> decoder) result" where
  "read_int16 d0 =
     (let d = d_align 2 d0 in
      if length (d_data d) < d_off d + 2 then overrun
      else Inr (get_word (d_order d) (take 2 (drop (d_off d) (d_data d))), d\<lparr>d_off := d_off d + 2\<rparr>))"

definition read_uint16 :: "decoder \<Rightarrow> (16 word \<times> decoder) result" where
  "read_uint16 d0 =
     (let d = d_align 2 d0 in
      if length (d_data d) < d_off d + 2 then overrun
      else Inr (get_word (d_order d) (take 2 (drop (d_off d) (d_data d))), d\<lparr>d_off := d_off d + 2\<rparr>))"

definition read_int32 :: "decoder \<Rightarrow> (32 word \<times> decoder) result" where
  "read_int32 d0 =
     (let d = d_align 4 d0 in
      if length (d_data d) < d_off d + 4 then overrun
      else Inr (get_word (d_order d) (take 4 (drop (d_off d) (d_data d))), d\<lparr>d_off := d_off d + 4\<rparr>))"

definition read_uint32 :: "decoder \<Rightarrow> (32 word \<times> decoder) result" where
  "read_uint32 d0 =
     (let d = d_align 4 d0 in
      if length (d_data d) < d_off d + 4 then overrun
      else Inr (get_word (d_order d) (take 4 (drop (d_off d) (d_data d))), d\<lparr>d_off := d_off d + 4\<rparr>))"

definition read_int64 :: "decoder \<Rightarrow> (64 word \<times> decoder) result" where
  "read_int64 d0 =
     (let d = d_align 8 d0 in
      if length (d_data d) < d_off d + 8 then overrun
      else Inr (get_word (d_order d) (take 8 (drop (d_off d) (d_data d))), d\<lparr>d_off := d_off d + 8\<rparr>))"

definition read_uint64 :: "decoder \<Rightarrow> (64 word \<times> decoder) result" where
  "read_uint64 d0 =
     (let d = d_align 8 d0 in
      if length (d_data d) < d_off d + 8 then overrun
      else Inr (get_word (d_order d) (take 8 (drop (d_off d) (d_data d))), d\<lparr>d_off := d_off d + 8\<rparr>))"

text \<open>\<open>math.Float64frombits\<close> keeps the bit pattern.\<close>

definition read_float64 :: "decoder \<Rightarrow> (64 word \<times> decoder) result" where
  "read_float64 d = read_uint64 d"

definition read_string :: "decoder \<Rightarrow> (string \<times> decoder) result" where
  "read_string d0 =
     ebind (read_uint32 d0) (\<lambda>(len, d).
       if length (d_data d) < d_off d + unat len + 1 then overrun
       else Inr (string_of (take (unat len) (drop (d_off d) (d_data d))),
                 d\<lparr>d_off := d_off d + unat len + 1\<rparr>))"

definition read_signature :: "decoder \<Rightarrow> (string \<times> decoder) result" where
  "read_signature d0 =
     ebind (read_byte d0) (\<lambda>(len, d).
       if length (d_data d) < d_off d + unat len + 1 then overrun
       else Inr (string_of (take (unat len) (drop (d_off d) (d_data d))),
                 d\<lparr>d_off := d_off d + unat len + 1\<rparr>))"

section \<open>Map keys\<close>

text \<open>
  Go's \<open>==\<close> on map keys, for keys made by the decoder: floats compare as numbers, every pointer the
  decoder makes is to a new variable, interface values compare by dynamic type and value. A map with
  interface keys panics when the dynamic type of a key is not comparable.
\<close>

definition float_is_nan :: "64 word \<Rightarrow> bool" where
  "float_is_nan x = (take_bit 11 (drop_bit 52 x) = 2047 \<and> take_bit 52 x \<noteq> 0)"

definition float_eq :: "64 word \<Rightarrow> 64 word \<Rightarrow> bool" where
  "float_eq x y =
     (\<not> float_is_nan x \<and> \<not> float_is_nan y \<and>
      (x = y \<or> (take_bit 63 x = 0 \<and> take_bit 63 y = 0)))"

fun key_eq :: "gval \<Rightarrow> gval \<Rightarrow> bool"
  and keys_eq :: "gval list \<Rightarrow> gval list \<Rightarrow> bool" where
  "key_eq (VFloat64 x) w = (case w of VFloat64 y \<Rightarrow> float_eq x y | _ \<Rightarrow> False)"
| "key_eq (VList vs) w = (case w of VList ws \<Rightarrow> keys_eq vs ws | _ \<Rightarrow> False)"
| "key_eq (VStruct vs) w = (case w of VStruct ws \<Rightarrow> keys_eq vs ws | _ \<Rightarrow> False)"
| "key_eq (VIface t v) w = (case w of VIface u x \<Rightarrow> t = u \<and> key_eq v x | _ \<Rightarrow> False)"
| "key_eq (VPtr v) w = False"
| "key_eq (VMap kvs) w = False"
| "key_eq (VUint8 x) w = (w = VUint8 x)"
| "key_eq (VBool x) w = (w = VBool x)"
| "key_eq (VInt16 x) w = (w = VInt16 x)"
| "key_eq (VUint16 x) w = (w = VUint16 x)"
| "key_eq (VInt32 x) w = (w = VInt32 x)"
| "key_eq (VUint32 x) w = (w = VUint32 x)"
| "key_eq (VInt64 x) w = (w = VInt64 x)"
| "key_eq (VUint64 x) w = (w = VUint64 x)"
| "key_eq (VString x) w = (w = VString x)"
| "key_eq VNil w = (w = VNil)"
| "keys_eq [] ws = (ws = [])"
| "keys_eq (v # vs) ws = (case ws of [] \<Rightarrow> False | w # ws' \<Rightarrow> key_eq v w \<and> keys_eq vs ws')"

fun hashable :: "gval \<Rightarrow> bool" where
  "hashable (VIface t v) = (kind_of t \<noteq> KSlice \<and> kind_of t \<noteq> KMap \<and> hashable v)"
| "hashable (VList vs) = (\<forall>v \<in> set vs. hashable v)"
| "hashable (VStruct vs) = (\<forall>v \<in> set vs. hashable v)"
| "hashable v = True"

text \<open>\<open>m[k] = v\<close>, on the entries of the map.\<close>

fun map_put :: "gval \<Rightarrow> gval \<Rightarrow> (gval \<times> gval) list \<Rightarrow> (gval \<times> gval) list" where
  "map_put k v [] = [(k, v)]"
| "map_put k v ((k', v') # kvs) =
     (if key_eq k k' then (k', v) # kvs else (k', v') # map_put k v kvs)"

section \<open>decodeValue\<close>

text \<open>
  The twelve type codes whose value is read by one of the functions above: \<open>read_basic\<close> reads it,
  with the Go type that \<open>reflect.ValueOf\<close> of the result has; \<open>store_basic\<close> sets the variable
  if its kind is the kind of that type or if it is a blank interface.
\<close>

definition basic_read_codes :: string where
  "basic_read_codes = ''ybnqiuxtdsog''"

definition read_basic :: "char \<Rightarrow> decoder \<Rightarrow> ((gotype \<times> gval) \<times> decoder) result" where
  "read_basic c d =
     (if c = CHR ''y'' then ebind (read_byte d) (\<lambda>(x, d). Inr ((TUint8, VUint8 x), d))
      else if c = CHR ''b'' then ebind (read_uint32 d) (\<lambda>(x, d). Inr ((TBool, VBool (x \<noteq> 0)), d))
      else if c = CHR ''n'' then ebind (read_int16 d) (\<lambda>(x, d). Inr ((TInt16, VInt16 x), d))
      else if c = CHR ''q'' then ebind (read_uint16 d) (\<lambda>(x, d). Inr ((TUint16, VUint16 x), d))
      else if c = CHR ''i'' then ebind (read_int32 d) (\<lambda>(x, d). Inr ((TInt32, VInt32 x), d))
      else if c = CHR ''u'' then ebind (read_uint32 d) (\<lambda>(x, d). Inr ((TUint32, VUint32 x), d))
      else if c = CHR ''x'' then ebind (read_int64 d) (\<lambda>(x, d). Inr ((TInt64, VInt64 x), d))
      else if c = CHR ''t'' then ebind (read_uint64 d) (\<lambda>(x, d). Inr ((TUint64, VUint64 x), d))
      else if c = CHR ''d'' then ebind (read_float64 d) (\<lambda>(x, d). Inr ((TFloat64, VFloat64 x), d))
      else if c = CHR ''s'' then ebind (read_string d) (\<lambda>(s, d). Inr ((TString, VString s), d))
      else if c = CHR ''o'' then ebind (read_string d) (\<lambda>(s, d). Inr ((TObjectPath, VString s), d))
      else if c = CHR ''g'' then
        ebind (read_signature d) (\<lambda>(s, d). Inr ((TSignature, VString s), d))
      else Inl (Error (ErrUnknownTypeCode c)))"

definition store_basic :: "char \<Rightarrow> gotype \<Rightarrow> gotype \<times> gval \<Rightarrow> gval result" where
  "store_basic c t nv =
     (if kind_of t = kind_of (fst nv) then Inr (snd nv)
      else if t = TInterface then Inr (VIface (fst nv) (snd nv))
      else Inl (Error (ErrCannotDecode c t)))"

fun struct_fields :: "gval \<Rightarrow> gval list" where
  "struct_fields (VStruct vs) = vs"
| "struct_fields v = []"

fun list_elems :: "gval \<Rightarrow> gval list" where
  "list_elems (VList vs) = vs"
| "list_elems v = []"

fun ptr_target :: "gotype \<Rightarrow> gval \<Rightarrow> gval" where
  "ptr_target t (VPtr v) = v"
| "ptr_target t v = zero_val t"

definition at_close :: "decoder \<Rightarrow> bool" where
  "at_close d = (d_sigoff d < length (d_sig d) \<and> d_sig d ! d_sigoff d = CHR '')'')"

text \<open>
  The loops: \<open>decode_array\<close> stores into an array in place and panics past its end, \<open>decode_slice\<close>
  appends to a slice (of the element type, or of blank interfaces), \<open>decode_map\<close> fills a map, where
  \<open>voff\<close> is the fixed signature offset of the value that the blank interface case uses,
  \<open>decode_fields\<close> goes through the fields of a struct and \<open>decode_ifields\<close> collects the members of
  a struct into a slice of blank interfaces.
\<close>

function decode_value :: "nat \<Rightarrow> gotype \<Rightarrow> gval \<Rightarrow> decoder \<Rightarrow> (gval \<times> decoder) result"
  and decode_array :: "nat \<Rightarrow> gotype \<Rightarrow> gval list \<Rightarrow> nat \<Rightarrow> nat \<Rightarrow> nat \<Rightarrow> decoder \<Rightarrow> (gval list \<times> decoder) result"
  and decode_slice :: "nat \<Rightarrow> gotype \<Rightarrow> gval list \<Rightarrow> nat \<Rightarrow> nat \<Rightarrow> decoder \<Rightarrow> (gval list \<times> decoder) result"
  and decode_map :: "nat \<Rightarrow> gotype \<Rightarrow> gotype \<Rightarrow> (gval \<times> gval) list \<Rightarrow> nat \<Rightarrow> nat \<Rightarrow> nat option \<Rightarrow> decoder \<Rightarrow>
      ((gval \<times> gval) list \<times> decoder) result"
  and decode_fields :: "nat \<Rightarrow> gotype list \<Rightarrow> gval list \<Rightarrow> decoder \<Rightarrow> (gval list \<times> decoder) result"
  and decode_ifields :: "nat \<Rightarrow> gval list \<Rightarrow> decoder \<Rightarrow> (gval list \<times> decoder) result" where
  "decode_value 0 t v d0 = Inl OutOfFuel"
| "decode_value (Suc n) t v d0 =
     (if length (d_sig d0) \<le> d_sigoff d0 then Inl (Error ErrSignatureOverrun)
      else let c = d_sig d0 ! d_sigoff d0; d = d0\<lparr>d_sigoff := d_sigoff d0 + 1\<rparr> in
        if c \<in> set basic_read_codes then
          ebind (read_basic c d) (\<lambda>(nv, d1). ebind (store_basic c t nv) (\<lambda>x. Inr (x, d1)))
        else if c = CHR ''a'' then
          ebind (read_uint32 d) (\<lambda>(len, d1).
            let elemSig = d_sigoff d1 in
            ebind (next_type (d_sig d1) elemSig) (\<lambda>afterElem.
              let d2 = (if d_sig d1 ! elemSig \<in> set ''xtd({'' then d_align 8 d1 else d1);
                  arrayEnd = d_off d2 + unat len
              in if length (d_data d2) < arrayEnd then overrun
                 else ebind
                   (if kind_of t = KArray then
                      ebind (decode_array n (elem_type t) (list_elems v) 0 arrayEnd elemSig d2)
                        (\<lambda>(vs, d3). Inr (VList vs, d3))
                    else if kind_of t = KSlice then
                      ebind (decode_slice n (elem_type t) [] arrayEnd elemSig d2)
                        (\<lambda>(vs, d3). Inr (VList vs, d3))
                    else if kind_of t = KMap then
                      (if d_sig d2 ! elemSig \<noteq> CHR ''{''
                       then Inl (Error (ErrNotDictEntry (d_sig d2 ! elemSig)))
                       else ebind (decode_map n (key_type t) (elem_type t) [] arrayEnd (elemSig + 1) None d2)
                              (\<lambda>(kvs, d3). Inr (VMap kvs, d3)))
                    else if t = TInterface then
                      (if d_sig d2 ! elemSig = CHR ''{'' then
                         ebind (decode_map n TInterface TInterface [] arrayEnd (elemSig + 1)
                             (Some (elemSig + 2)) d2)
                           (\<lambda>(kvs, d3). Inr (VIface (TMap TInterface TInterface) (VMap kvs), d3))
                       else
                         ebind (decode_slice n TInterface [] arrayEnd elemSig d2)
                           (\<lambda>(vs, d3). Inr (VIface (TSlice TInterface) (VList vs), d3)))
                    else Inr (v, d2))
                   (\<lambda>(x, d3). Inr (x, d3\<lparr>d_sigoff := afterElem\<rparr>))))
        else if c = CHR ''('' then
          let d1 = d_align 8 d;
              isp = (kind_of t = KPtr \<and> kind_of (elem_type t) = KStruct);
              t' = (if isp then elem_type t else t);
              v' = (if isp then ptr_target (elem_type t) v else v)
          in if kind_of t' = KStruct then
               ebind (decode_fields n (field_types t') (struct_fields v') d1) (\<lambda>(vs, d2).
                 if at_close d2
                 then Inr (if isp then VPtr (VStruct vs) else VStruct vs,
                           d2\<lparr>d_sigoff := d_sigoff d2 + 1\<rparr>)
                 else Inl (Error ErrSignatureOverrun))
             else if t' = TInterface then
               ebind (decode_ifields n [] d1) (\<lambda>(vs, d2).
                 Inr (VIface (TSlice TInterface) (VList vs), d2))
             else Inl (Error (ErrCannotDecode c t'))
        else if c = CHR ''v'' \<and>
            (kind_of t = KPtr \<and> elem_type t = TVariant \<or> t = TVariant \<or> t = TInterface) then
          ebind (read_signature d) (\<lambda>(sig, d1).
            ebind (decode_value n TInterface VNil (d1\<lparr>d_sig := sig, d_sigoff := 0\<rparr>)) (\<lambda>(x, d2).
              Inr (if kind_of t = KPtr then VPtr (VStruct [x])
                   else if t = TVariant then VStruct [x]
                   else VIface (TPtr TVariant) (VPtr (VStruct [x])),
                   d1\<lparr>d_off := d_off d2\<rparr>)))
        else Inl (Error (ErrCannotDecode c t)))"
| "decode_array 0 t vs i arrayEnd elemSig d = Inl OutOfFuel"
| "decode_array (Suc n) t vs i arrayEnd elemSig d =
     (if d_off d < arrayEnd then
        (if i < length vs then
           ebind (decode_value n t (vs ! i) (d\<lparr>d_sigoff := elemSig\<rparr>)) (\<lambda>(v, d1).
             decode_array n t (vs[i := v]) (i + 1) arrayEnd elemSig d1)
         else Inl (Panic ''reflect: array index out of range''))
      else Inr (vs, d))"
| "decode_slice 0 t vs arrayEnd elemSig d = Inl OutOfFuel"
| "decode_slice (Suc n) t vs arrayEnd elemSig d =
     (if d_off d < arrayEnd then
        ebind (decode_value n t (zero_val t) (d\<lparr>d_sigoff := elemSig\<rparr>)) (\<lambda>(v, d1).
          decode_slice n t (vs @ [v]) arrayEnd elemSig d1)
      else Inr (vs, d))"
| "decode_map 0 k u kvs arrayEnd keySig voff d = Inl OutOfFuel"
| "decode_map (Suc n) k u kvs arrayEnd keySig voff d =
     (if d_off d < arrayEnd then
        ebind (decode_value n k (zero_val k) ((d_align 8 d)\<lparr>d_sigoff := keySig\<rparr>)) (\<lambda>(a, d1).
        ebind (decode_value n u (zero_val u)
            (case voff of None \<Rightarrow> d1 | Some off \<Rightarrow> d1\<lparr>d_sigoff := off\<rparr>)) (\<lambda>(b, d2).
          if hashable a then decode_map n k u (map_put a b kvs) arrayEnd keySig voff d2
          else Inl (Panic ''runtime error: hash of unhashable type'')))
      else Inr (kvs, d))"
| "decode_fields 0 ts vs d = Inl OutOfFuel"
| "decode_fields (Suc n) ts vs d =
     (case ts of
        [] \<Rightarrow> Inr (vs, d)
      | t # ts' \<Rightarrow>
          (case vs of
             [] \<Rightarrow> Inr (vs, d)
           | v # vs' \<Rightarrow>
               if d_sigoff d < length (d_sig d) \<and> d_sig d ! d_sigoff d \<noteq> CHR '')'' then
                 ebind (decode_value n t v d) (\<lambda>(w, d1).
                 ebind (decode_fields n ts' vs' d1) (\<lambda>(ws, d2). Inr (w # ws, d2)))
               else Inr (vs, d)))"
| "decode_ifields 0 vs d = Inl OutOfFuel"
| "decode_ifields (Suc n) vs d =
     (if d_sigoff d < length (d_sig d) \<and> d_sig d ! d_sigoff d \<noteq> CHR '')'' then
        ebind (decode_value n TInterface VNil d) (\<lambda>(v, d1). decode_ifields n (vs @ [v]) d1)
      else Inr (vs, d))"
  by pat_completeness auto
termination
  by (relation "measure (\<lambda>x. case x of
        Inl (Inl (n, _)) \<Rightarrow> n
      | Inl (Inr (Inl (n, _))) \<Rightarrow> n
      | Inl (Inr (Inr (n, _))) \<Rightarrow> n
      | Inr (Inl (n, _)) \<Rightarrow> n
      | Inr (Inr (Inl (n, _))) \<Rightarrow> n
      | Inr (Inr (Inr (n, _))) \<Rightarrow> n)") simp_all

text \<open>
  \<open>Decode\<close>: an argument is a non-nil pointer to a variable, or something that is not a pointer.
  The result is the new contents of the variables.
\<close>

datatype arg = PtrTo gotype gval | NotPtr

fun decode_args :: "nat \<Rightarrow> arg list \<Rightarrow> decoder \<Rightarrow> (gval list \<times> decoder) result" where
  "decode_args n [] d = Inr ([], d)"
| "decode_args n (a # args) d =
     (case a of
        NotPtr \<Rightarrow> Inl (Error ErrNotPointer)
      | PtrTo t v \<Rightarrow>
          ebind (decode_value n t v d) (\<lambda>(w, d1).
          ebind (decode_args n args d1) (\<lambda>(ws, d2). Inr (w # ws, d2))))"

section \<open>Lemmas on the reads\<close>

named_theorems read_defs

declare read_byte_def [read_defs] read_int16_def [read_defs] read_uint16_def [read_defs]
  read_int32_def [read_defs] read_uint32_def [read_defs] read_int64_def [read_defs]
  read_uint64_def [read_defs] read_float64_def [read_defs] read_string_def [read_defs]
  read_signature_def [read_defs]

lemma smod_nat: "int p smod int n = int (p mod n)"
  by (cases "p = 0") (simp_all add: signed_modulo_int_def zmod_int)

text \<open>The alignment of the decoder skips exactly the padding.\<close>

lemma d_align_eq:
  assumes "0 < n"
  shows "d_align n d = d\<lparr>d_off := d_off d + padlen n (d_off d)\<rparr>"
proof -
  have "d_off d mod n < n" using assms by simp
  then show ?thesis
    by (cases "d_off d mod n = 0") (simp_all add: d_align_def smod_nat padlen_def nat_minus_as_int)
qed

text \<open>No operation of the decoder touches the data, the byte order or the signature.\<close>

definition same_input :: "decoder \<Rightarrow> decoder \<Rightarrow> bool" where
  "same_input d d' \<longleftrightarrow> d_data d' = d_data d \<and> d_order d' = d_order d \<and> d_sig d' = d_sig d"

lemma same_input_refl [simp]: "same_input d d"
  by (simp add: same_input_def)

lemma same_input_trans: "same_input a b \<Longrightarrow> same_input b c \<Longrightarrow> same_input a c"
  by (simp add: same_input_def)

lemma same_input_upd [simp]:
  "same_input d (d'\<lparr>d_off := x\<rparr>) = same_input d d'" "same_input (d\<lparr>d_off := x\<rparr>) d' = same_input d d'"
  "same_input d (d'\<lparr>d_sigoff := y\<rparr>) = same_input d d'" "same_input (d\<lparr>d_sigoff := y\<rparr>) d' = same_input d d'"
  by (simp_all add: same_input_def)

text \<open>
  A read that succeeds moves only the data offset, forward, by at least one byte, and stays inside
  the data.
\<close>

definition advanced :: "decoder \<Rightarrow> decoder \<Rightarrow> bool" where
  "advanced d d' \<longleftrightarrow> same_input d d' \<and> d_sigoff d' = d_sigoff d \<and> d_off d < d_off d' \<and>
     d_off d' \<le> length (d_data d)"

lemma read_advanced:
  "read_byte d = Inr (b, d') \<Longrightarrow> advanced d d'"
  "read_int16 d = Inr (h, d') \<Longrightarrow> advanced d d'"
  "read_uint16 d = Inr (h, d') \<Longrightarrow> advanced d d'"
  "read_int32 d = Inr (w, d') \<Longrightarrow> advanced d d' \<and> d_off d + 4 \<le> d_off d'"
  "read_uint32 d = Inr (w, d') \<Longrightarrow> advanced d d' \<and> d_off d + 4 \<le> d_off d'"
  "read_int64 d = Inr (x, d') \<Longrightarrow> advanced d d'"
  "read_uint64 d = Inr (x, d') \<Longrightarrow> advanced d d'"
  by (auto simp: read_defs d_align_eq Let_def advanced_def same_input_def split: if_splits)

lemma read_string_advanced: "read_string d = Inr (s, d') \<Longrightarrow> advanced d d'"
  by (auto simp: read_string_def ebind_Inr_iff advanced_def same_input_def split: if_splits
      dest!: read_advanced(5))

lemma read_signature_advanced:
  "read_signature d = Inr (s, d') \<Longrightarrow> advanced d d' \<and> length s < 256 \<and>
     s = string_of (take (length s) (drop (d_off d + 1) (d_data d)))"
proof -
  assume "read_signature d = Inr (s, d')"
  then obtain len d1 where r: "read_byte d = Inr (len, d1)"
      and l: "d_off d1 + unat len + 1 \<le> length (d_data d1)"
      and s: "s = string_of (take (unat len) (drop (d_off d1) (d_data d1)))"
      and d': "d' = d1\<lparr>d_off := d_off d1 + unat len + 1\<rparr>"
    by (auto simp: read_signature_def ebind_Inr_iff not_less split: if_splits)
  from r have d1: "d1 = d\<lparr>d_off := d_off d + 1\<rparr>" by (auto simp: read_byte_def split: if_splits)
  have "unat len < 2 ^ LENGTH(8)" by (rule unsigned_less)
  moreover have "length s = unat len" using s l by simp
  ultimately show ?thesis using s l d' d1 by (auto simp: advanced_def same_input_def)
qed

lemma read_basic_advanced: "read_basic c d = Inr (nv, d') \<Longrightarrow> advanced d d'"
  by (auto simp: read_basic_def read_float64_def ebind_Inr_iff split: if_splits
      dest: read_advanced read_string_advanced read_signature_advanced)

lemma read_no_fuel:
  "read_byte d \<noteq> Inl OutOfFuel" "read_uint32 d \<noteq> Inl OutOfFuel" "read_string d \<noteq> Inl OutOfFuel"
  "read_signature d \<noteq> Inl OutOfFuel" "read_basic c d \<noteq> Inl OutOfFuel"
  "store_basic c t nv \<noteq> Inl OutOfFuel"
  by (auto simp: read_defs read_basic_def store_basic_def ebind_Inl_iff Let_def split: if_splits)

section \<open>Fuel\<close>

text \<open>More fuel never changes an outcome.\<close>

lemma decode_fuel_mono_aux:
  "n \<le> m \<Longrightarrow>
   fuel_le (decode_value n t v d) (decode_value m t v d) \<and>
   fuel_le (decode_array n t vs i e s d) (decode_array m t vs i e s d) \<and>
   fuel_le (decode_slice n t vs e s d) (decode_slice m t vs e s d) \<and>
   fuel_le (decode_map n k t kvs e s voff d) (decode_map m k t kvs e s voff d) \<and>
   fuel_le (decode_fields n ts vs d) (decode_fields m ts vs d) \<and>
   fuel_le (decode_ifields n vs d) (decode_ifields m vs d)"
proof (induction n arbitrary: m t v d vs i e s k kvs voff ts)
  case 0
  show ?case by simp
next
  case (Suc n)
  then obtain m' where m: "m = Suc m'" and "n \<le> m'" by (cases m) auto
  with Suc.IH have IH:
    "fuel_le (decode_value n t v d) (decode_value m' t v d)"
    "fuel_le (decode_array n t vs i e s d) (decode_array m' t vs i e s d)"
    "fuel_le (decode_slice n t vs e s d) (decode_slice m' t vs e s d)"
    "fuel_le (decode_map n k t kvs e s voff d) (decode_map m' k t kvs e s voff d)"
    "fuel_le (decode_fields n ts vs d) (decode_fields m' ts vs d)"
    "fuel_le (decode_ifields n vs d) (decode_ifields m' vs d)"
    for t v d vs i e s k kvs voff ts
    by blast+
  show ?case
    unfolding m decode_value.simps(2) decode_array.simps(2) decode_slice.simps(2)
      decode_map.simps(2) decode_fields.simps(2) decode_ifields.simps(2) Let_def
    by (intro conjI fuel_intro IH)
qed

lemma decode_value_mono: "n \<le> m \<Longrightarrow> decode_value n t v d = Inr r \<Longrightarrow> decode_value m t v d = Inr r"
  by (rule fuel_le_InrD [OF conjunct1 [OF decode_fuel_mono_aux]])

lemma decode_args_fuel_mono: "n \<le> m \<Longrightarrow> fuel_le (decode_args n args d) (decode_args m args d)"
proof (induction args arbitrary: d)
  case Nil
  show ?case by simp
next
  case (Cons a args)
  then show ?case
    by (cases a) (auto intro!: fuel_intro simp: conjunct1 [OF decode_fuel_mono_aux])
qed

section \<open>The type invariant\<close>

text \<open>Storing keeps a variable at its type.\<close>

lemma has_types_nth_upd:
  "\<forall>v \<in> set vs. has_type t v \<Longrightarrow> has_type t w \<Longrightarrow> \<forall>v \<in> set (vs[i := w]). has_type t v"
  by (auto dest: set_update_subset_insert [THEN subsetD])

lemma has_types_zero: "has_types ts (map zero_val ts) \<longleftrightarrow> (\<forall>t \<in> set ts. has_type t (zero_val t))"
  by (induction ts) auto

lemma zero_val_type [simp]: "has_type t (zero_val t)"
proof (induction t)
  case (TMethod n u)
  then show ?case by (cases "zero_val u") simp_all
qed (auto simp: has_types_zero)

lemma map_put_type:
  "\<forall>(a, b) \<in> set kvs. has_type k a \<and> has_type t b \<Longrightarrow> has_type k a \<Longrightarrow> has_type t b \<Longrightarrow>
   \<forall>(a, b) \<in> set (map_put a b kvs). has_type k a \<and> has_type t b"
  by (induction a b kvs rule: map_put.induct) auto

lemma read_basic_type:
  "read_basic c d = Inr ((t, v), d') \<Longrightarrow>
     has_type t v \<and> (t \<in> {TUint8, TBool, TInt16, TUint16, TInt32, TUint32, TInt64, TUint64, TFloat64,
       TString, TObjectPath, TSignature})"
  by (auto simp: read_basic_def ebind_Inr_iff split: if_splits)

lemma store_basic_type:
  assumes "read_basic c d = Inr (nv, d')" and "store_basic c t nv = Inr w"
  shows "has_type t w"
proof -
  obtain u v where nv: "nv = (u, v)" by (cases nv)
  note u = read_basic_type [OF assms(1) [unfolded nv]]
  show ?thesis
  proof (cases "kind_of t = kind_of u")
    case True
    with assms(2) nv have w: "w = v" by (simp add: store_basic_def)
    show ?thesis using u True w by (cases v) (auto dest!: kind_ofD)
  next
    case False
    with assms(2) nv u show ?thesis by (auto simp: store_basic_def split: if_splits)
  qed
qed

lemma kind_of_underD: "under t = u \<Longrightarrow> kind_of t = kind_of u"
  by auto

lemma has_type_structD:
  assumes "has_type t v" and "kind_of t = KStruct"
  shows "\<exists>vs. v = VStruct vs \<and> has_types (field_types t) vs"
  using assms by (cases v) (auto split: gotype.splits dest!: kind_of_underD)

lemma has_type_ptr_target:
  assumes "has_type t v" and "kind_of t = KPtr"
  shows "has_type (elem_type t) (ptr_target (elem_type t) v)"
  using assms kind_ofD(14) [OF assms(2)] by (cases v) auto

lemma has_type_arrayD:
  assumes "has_type t v" and "kind_of t = KArray"
  shows "\<exists>n. under t = TArray n (elem_type t) \<and> length (list_elems v) = n \<and>
     (\<forall>w \<in> set (list_elems v). has_type (elem_type t) w)"
proof -
  obtain n where "under t = TArray n (elem_type t)" using kind_ofD(11) [OF assms(2)] by blast
  with assms show ?thesis by (cases v) auto
qed

lemma has_type_by_kind:
  "kind_of t = KSlice \<Longrightarrow> has_type t (VList vs) = (\<forall>v \<in> set vs. has_type (elem_type t) v)"
  "kind_of t = KMap \<Longrightarrow>
     has_type t (VMap kvs) = (\<forall>(a, b) \<in> set kvs. has_type (key_type t) a \<and> has_type (elem_type t) b)"
  "kind_of t = KPtr \<Longrightarrow> has_type t (VPtr v) = has_type (elem_type t) v"
  "has_type TInterface (VIface u v) = (kind_of u \<noteq> KInterface \<and> has_type u v)"
  "has_type (TMap TInterface TInterface) (VMap kvs) = (\<forall>(a, b) \<in> set kvs. has_type TInterface a \<and> has_type TInterface b)"
  "has_type (TSlice TInterface) (VList vs) = (\<forall>v \<in> set vs. has_type TInterface v)"
  "has_type (TPtr TVariant) (VPtr v) = has_type TVariant v"
  by (auto dest!: kind_ofD(12-14))

lemma decode_types:
  "(\<forall>t v d w d'. has_type t v \<longrightarrow> decode_value n t v d = Inr (w, d') \<longrightarrow> has_type t w) \<and>
   (\<forall>t vs i e s d ws d'. (\<forall>v \<in> set vs. has_type t v) \<longrightarrow> decode_array n t vs i e s d = Inr (ws, d') \<longrightarrow>
      (\<forall>v \<in> set ws. has_type t v) \<and> length ws = length vs) \<and>
   (\<forall>t vs e s d ws d'. (\<forall>v \<in> set vs. has_type t v) \<longrightarrow> decode_slice n t vs e s d = Inr (ws, d') \<longrightarrow>
      (\<forall>v \<in> set ws. has_type t v)) \<and>
   (\<forall>k t kvs e s voff d des d'. (\<forall>(a, b) \<in> set kvs. has_type k a \<and> has_type t b) \<longrightarrow>
      decode_map n k t kvs e s voff d = Inr (des, d') \<longrightarrow> (\<forall>(a, b) \<in> set des. has_type k a \<and> has_type t b)) \<and>
   (\<forall>ts vs d ws d'. has_types ts vs \<longrightarrow> decode_fields n ts vs d = Inr (ws, d') \<longrightarrow> has_types ts ws) \<and>
   (\<forall>vs d ws d'. (\<forall>v \<in> set vs. has_type TInterface v) \<longrightarrow> decode_ifields n vs d = Inr (ws, d') \<longrightarrow>
      (\<forall>v \<in> set ws. has_type TInterface v))"
proof (induction n)
  case 0
  show ?case by simp
next
  case (Suc n)
  then have IH:
    "\<And>t v d w d'. has_type t v \<Longrightarrow> decode_value n t v d = Inr (w, d') \<Longrightarrow> has_type t w"
    "\<And>t vs i e s d ws d'. \<forall>v \<in> set vs. has_type t v \<Longrightarrow> decode_array n t vs i e s d = Inr (ws, d') \<Longrightarrow>
      (\<forall>v \<in> set ws. has_type t v) \<and> length ws = length vs"
    "\<And>t vs e s d ws d'. \<forall>v \<in> set vs. has_type t v \<Longrightarrow> decode_slice n t vs e s d = Inr (ws, d') \<Longrightarrow>
      \<forall>v \<in> set ws. has_type t v"
    "\<And>k t kvs e s voff d des d'. \<forall>(a, b) \<in> set kvs. has_type k a \<and> has_type t b \<Longrightarrow>
      decode_map n k t kvs e s voff d = Inr (des, d') \<Longrightarrow> \<forall>(a, b) \<in> set des. has_type k a \<and> has_type t b"
    "\<And>ts vs d ws d'. has_types ts vs \<Longrightarrow> decode_fields n ts vs d = Inr (ws, d') \<Longrightarrow> has_types ts ws"
    "\<And>vs d ws d'. \<forall>v \<in> set vs. has_type TInterface v \<Longrightarrow> decode_ifields n vs d = Inr (ws, d') \<Longrightarrow>
      \<forall>v \<in> set ws. has_type TInterface v"
    by metis+
  show ?case
  proof (intro conjI allI impI)
    fix t v d w d'
    assume t: "has_type t v" and r: "decode_value (Suc n) t v d = Inr (w, d')"
    define c where "c = d_sig d ! d_sigoff d"
    define d0 where "d0 = d\<lparr>d_sigoff := d_sigoff d + 1\<rparr>"
    have bound: "\<not> length (d_sig d) \<le> d_sigoff d" using r by auto
    note r = r [unfolded decode_value.simps(2) Let_def if_not_P [OF bound] c_def [symmetric] d0_def [symmetric]]
    consider "c \<in> set basic_read_codes" | "c = CHR ''a''" | "c = CHR ''(''" | "c = CHR ''v''"
      using r by (auto split: if_splits)
    then show "has_type t w"
    proof cases
      case 1
      with r show ?thesis by (auto simp: ebind_Inr_iff dest: store_basic_type)
    next
      case 2
      show ?thesis
      proof (cases "kind_of t = KArray")
        case True
        with r 2 show ?thesis
          by (auto simp: ebind_Inr_iff basic_read_codes_def split: if_splits
            dest!: IH(2) [rotated, OF _ _] has_type_arrayD [OF t])
      next
        case False
        with r 2 t show ?thesis
          by (auto simp: ebind_Inr_iff basic_read_codes_def has_type_by_kind simp del: has_type.simps(11,12,15) split: if_splits
            dest: IH(3) [OF ballI, rotated] IH(4) [OF ballI, rotated])
      qed
    next
      case 3
      show ?thesis
      proof (cases "kind_of t = KPtr \<and> kind_of (elem_type t) = KStruct")
        case True
        with has_type_structD [OF has_type_ptr_target [OF t]] r 3 show ?thesis
          by (auto simp: ebind_Inr_iff basic_read_codes_def has_type_by_kind simp del: has_type.simps(11,12,15) split: if_splits
            dest: IH(5))
      next
        case False
        with has_type_structD [OF t] r 3 show ?thesis
          by (auto simp: ebind_Inr_iff basic_read_codes_def split: if_splits
            dest: IH(5) IH(6) [OF ballI, rotated])
      qed
    next
      case 4
      then show ?thesis using r t
        by (auto simp: ebind_Inr_iff basic_read_codes_def has_type_by_kind simp del: has_type.simps(11,12,15) split: if_splits
          dest!: IH(1) [rotated])
    qed
  next
    fix t vs i e s d ws d'
    assume vs: "\<forall>v \<in> set vs. has_type t v" and r: "decode_array (Suc n) t vs i e s d = Inr (ws, d')"
    then show "\<forall>v \<in> set ws. has_type t v" and "length ws = length vs"
      by (auto simp: ebind_Inr_iff nth_mem split: if_splits
          dest!: IH(1) [rotated] IH(2) [rotated] dest: has_types_nth_upd)
  next
    fix t vs e s d ws d'
    assume "\<forall>v \<in> set vs. has_type t v" and "decode_slice (Suc n) t vs e s d = Inr (ws, d')"
    then show "\<forall>v \<in> set ws. has_type t v"
      by (auto simp: ebind_Inr_iff split: if_splits dest!: IH(1) [rotated] IH(3) [rotated])
  next
    fix k t kvs e s voff d des d'
    assume "\<forall>(a, b) \<in> set kvs. has_type k a \<and> has_type t b"
      and "decode_map (Suc n) k t kvs e s voff d = Inr (des, d')"
    then show "\<forall>(a, b) \<in> set des. has_type k a \<and> has_type t b"
      by (auto simp: ebind_Inr_iff split: if_splits prod.splits
          dest!: IH(1) [OF zero_val_type] IH(4) [OF map_put_type, rotated -1])
  next
    fix ts vs d ws d'
    assume "has_types ts vs" and "decode_fields (Suc n) ts vs d = Inr (ws, d')"
    then show "has_types ts ws"
      by (auto simp: ebind_Inr_iff split: if_splits list.splits dest: IH(1,5))
  next
    fix vs d ws d'
    assume "\<forall>v \<in> set vs. has_type TInterface v" and "decode_ifields (Suc n) vs d = Inr (ws, d')"
    then show "\<forall>v \<in> set ws. has_type TInterface v"
      by (auto simp: ebind_Inr_iff split: if_splits dest!: IH(1) [rotated] IH(6) [rotated])
  qed
qed

lemma decode_value_type: "has_type t v \<Longrightarrow> decode_value n t v d = Inr (w, d') \<Longrightarrow> has_type t w"
  using conjunct1 [OF decode_types [of n]] by metis

section \<open>The two container cases by the kind of the target\<close>

lemma array_code_not_basic: "CHR ''a'' \<notin> set basic_read_codes" "CHR ''('' \<notin> set basic_read_codes"
  by (simp_all add: basic_read_codes_def)

lemma decode_value_array:
  assumes "\<not> length (d_sig d) \<le> d_sigoff d" and "d_sig d ! d_sigoff d = CHR ''a''"
    and "read_uint32 (d\<lparr>d_sigoff := d_sigoff d + 1\<rparr>) = Inr (len, d1)"
    and "next_type (d_sig d1) (d_sigoff d1) = Inr afterElem"
    and "(if d_sig d1 ! d_sigoff d1 \<in> set ''xtd({'' then d_align 8 d1 else d1) = d2"
    and "\<not> length (d_data d2) < d_off d2 + unat len"
  shows "kind_of t = KArray \<Longrightarrow> decode_value (Suc m) t v d =
      ebind (decode_array m (elem_type t) (list_elems v) 0 (d_off d2 + unat len) (d_sigoff d1) d2)
        (\<lambda>(vs, d3). Inr (VList vs, d3\<lparr>d_sigoff := afterElem\<rparr>))"
    and "kind_of t = KSlice \<Longrightarrow> decode_value (Suc m) t v d =
      ebind (decode_slice m (elem_type t) [] (d_off d2 + unat len) (d_sigoff d1) d2)
        (\<lambda>(vs, d3). Inr (VList vs, d3\<lparr>d_sigoff := afterElem\<rparr>))"
    and "kind_of t = KMap \<Longrightarrow> d_sig d2 ! d_sigoff d1 = CHR ''{'' \<Longrightarrow> decode_value (Suc m) t v d =
      ebind (decode_map m (key_type t) (elem_type t) [] (d_off d2 + unat len) (d_sigoff d1 + 1) None d2)
        (\<lambda>(kvs, d3). Inr (VMap kvs, d3\<lparr>d_sigoff := afterElem\<rparr>))"
    and "t = TInterface \<Longrightarrow> d_sig d2 ! d_sigoff d1 = CHR ''{'' \<Longrightarrow> decode_value (Suc m) t v d =
      ebind (decode_map m TInterface TInterface [] (d_off d2 + unat len) (d_sigoff d1 + 1)
          (Some (d_sigoff d1 + 2)) d2)
        (\<lambda>(kvs, d3). Inr (VIface (TMap TInterface TInterface) (VMap kvs), d3\<lparr>d_sigoff := afterElem\<rparr>))"
    and "t = TInterface \<Longrightarrow> d_sig d2 ! d_sigoff d1 \<noteq> CHR ''{'' \<Longrightarrow> decode_value (Suc m) t v d =
      ebind (decode_slice m TInterface [] (d_off d2 + unat len) (d_sigoff d1) d2)
        (\<lambda>(vs, d3). Inr (VIface (TSlice TInterface) (VList vs), d3\<lparr>d_sigoff := afterElem\<rparr>))"
    and "kind_of t \<notin> {KArray, KSlice, KMap} \<Longrightarrow> t \<noteq> TInterface \<Longrightarrow>
      decode_value (Suc m) t v d = Inr (v, d2\<lparr>d_sigoff := afterElem\<rparr>)"
proof -
  note eq = decode_value.simps(2) [of m t v d, unfolded Let_def if_not_P [OF assms(1)] assms(2),
      unfolded if_not_P [OF array_code_not_basic(1)] if_P [OF refl] assms(3) ebind_simps prod.case assms(4,5)
      if_not_P [OF assms(6)]]
  have kI: "kind_of TInterface = KInterface" by simp
  show "kind_of t = KArray \<Longrightarrow> decode_value (Suc m) t v d =
      ebind (decode_array m (elem_type t) (list_elems v) 0 (d_off d2 + unat len) (d_sigoff d1) d2)
        (\<lambda>(vs, d3). Inr (VList vs, d3\<lparr>d_sigoff := afterElem\<rparr>))"
    unfolding eq by (simp add: ebind_assoc case_prod_unfold)
  show "kind_of t = KSlice \<Longrightarrow> decode_value (Suc m) t v d =
      ebind (decode_slice m (elem_type t) [] (d_off d2 + unat len) (d_sigoff d1) d2)
        (\<lambda>(vs, d3). Inr (VList vs, d3\<lparr>d_sigoff := afterElem\<rparr>))"
    unfolding eq by (simp add: ebind_assoc case_prod_unfold)
  show "kind_of t = KMap \<Longrightarrow> d_sig d2 ! d_sigoff d1 = CHR ''{'' \<Longrightarrow> decode_value (Suc m) t v d =
      ebind (decode_map m (key_type t) (elem_type t) [] (d_off d2 + unat len) (d_sigoff d1 + 1) None d2)
        (\<lambda>(kvs, d3). Inr (VMap kvs, d3\<lparr>d_sigoff := afterElem\<rparr>))"
    unfolding eq by (simp add: ebind_assoc case_prod_unfold)
  show "t = TInterface \<Longrightarrow> d_sig d2 ! d_sigoff d1 = CHR ''{'' \<Longrightarrow> decode_value (Suc m) t v d =
      ebind (decode_map m TInterface TInterface [] (d_off d2 + unat len) (d_sigoff d1 + 1)
          (Some (d_sigoff d1 + 2)) d2)
        (\<lambda>(kvs, d3). Inr (VIface (TMap TInterface TInterface) (VMap kvs), d3\<lparr>d_sigoff := afterElem\<rparr>))"
    unfolding eq by (simp add: ebind_assoc case_prod_unfold)
  show "t = TInterface \<Longrightarrow> d_sig d2 ! d_sigoff d1 \<noteq> CHR ''{'' \<Longrightarrow> decode_value (Suc m) t v d =
      ebind (decode_slice m TInterface [] (d_off d2 + unat len) (d_sigoff d1) d2)
        (\<lambda>(vs, d3). Inr (VIface (TSlice TInterface) (VList vs), d3\<lparr>d_sigoff := afterElem\<rparr>))"
    unfolding eq by (simp add: ebind_assoc case_prod_unfold)
  show "kind_of t \<notin> {KArray, KSlice, KMap} \<Longrightarrow> t \<noteq> TInterface \<Longrightarrow>
      decode_value (Suc m) t v d = Inr (v, d2\<lparr>d_sigoff := afterElem\<rparr>)"
    unfolding eq by (simp add: ebind_assoc case_prod_unfold)
qed

lemma decode_value_struct:
  assumes "\<not> length (d_sig d) \<le> d_sigoff d" and "d_sig d ! d_sigoff d = CHR ''(''"
    and "d1 = d_align 8 (d\<lparr>d_sigoff := d_sigoff d + 1\<rparr>)"
  shows "kind_of t = KPtr \<Longrightarrow> kind_of (elem_type t) = KStruct \<Longrightarrow>
      decode_fields m (field_types (elem_type t)) (struct_fields (ptr_target (elem_type t) v)) d1 = Inr (vs, d2) \<Longrightarrow>
      at_close d2 \<Longrightarrow>
      decode_value (Suc m) t v d = Inr (VPtr (VStruct vs), d2\<lparr>d_sigoff := d_sigoff d2 + 1\<rparr>)"
    and "kind_of t = KStruct \<Longrightarrow>
      decode_fields m (field_types t) (struct_fields v) d1 = Inr (vs, d2) \<Longrightarrow> at_close d2 \<Longrightarrow>
      decode_value (Suc m) t v d = Inr (VStruct vs, d2\<lparr>d_sigoff := d_sigoff d2 + 1\<rparr>)"
    and "t = TInterface \<Longrightarrow> decode_ifields m [] d1 = Inr (vs, d2) \<Longrightarrow>
      decode_value (Suc m) t v d = Inr (VIface (TSlice TInterface) (VList vs), d2)"
proof -
  note eq = decode_value.simps(2) [of m t v d, unfolded Let_def if_not_P [OF assms(1)] assms(2),
      unfolded if_not_P [OF array_code_not_basic(2)]]
  show "kind_of t = KPtr \<Longrightarrow> kind_of (elem_type t) = KStruct \<Longrightarrow>
      decode_fields m (field_types (elem_type t)) (struct_fields (ptr_target (elem_type t) v)) d1 = Inr (vs, d2) \<Longrightarrow>
      at_close d2 \<Longrightarrow>
      decode_value (Suc m) t v d = Inr (VPtr (VStruct vs), d2\<lparr>d_sigoff := d_sigoff d2 + 1\<rparr>)"
    unfolding eq by (simp add: assms(3))
  show "kind_of t = KStruct \<Longrightarrow>
      decode_fields m (field_types t) (struct_fields v) d1 = Inr (vs, d2) \<Longrightarrow> at_close d2 \<Longrightarrow>
      decode_value (Suc m) t v d = Inr (VStruct vs, d2\<lparr>d_sigoff := d_sigoff d2 + 1\<rparr>)"
    unfolding eq by (simp add: assms(3))
  show "t = TInterface \<Longrightarrow> decode_ifields m [] d1 = Inr (vs, d2) \<Longrightarrow>
      decode_value (Suc m) t v d = Inr (VIface (TSlice TInterface) (VList vs), d2)"
    unfolding eq by (simp add: assms(3))
qed

section \<open>Properties\<close>

text \<open>
  C19. \<open>Decode\<close> keeps the type invariant: variables that hold values of their types hold values of
  their types after it, on whatever signature and data it ran.
\<close>

theorem decode_keeps_types:
  assumes "\<forall>a \<in> set args. case a of PtrTo t v \<Rightarrow> has_type t v | NotPtr \<Rightarrow> True"
    and "decode_args n args d = Inr (ws, d')"
  shows "list_all2 (\<lambda>a w. \<exists>t v. a = PtrTo t v \<and> has_type t w) args ws"
  using assms
proof (induction args arbitrary: d ws)
  case (Cons a args)
  then obtain t v w d1 ws' where a: "a = PtrTo t v" "ws = w # ws'"
      and r: "decode_value n t v d = Inr (w, d1)" "decode_args n args d1 = Inr (ws', d')"
    by (auto simp: ebind_Inr_iff split: arg.splits)
  have "has_type t v" using Cons.prems(1) a by simp
  with r(1) have "has_type t w" by (rule decode_value_type [rotated])
  with Cons.IH [OF _ r(2)] Cons.prems(1) a show ?case by simp
qed simp

theorem decode_keeps_types_witness:
  "\<exists>w d'. decode_args 9 [PtrTo (TSlice TUint16) VNil] (new_decoder ''aq'' [2, 0, 0, 0, 5, 1] LittleEndian) =
      Inr ([w], d') \<and> has_type (TSlice TUint16) w"
proof -
  have "decode_args 9 [PtrTo (TSlice TUint16) VNil] (new_decoder ''aq'' [2, 0, 0, 0, 5, 1] LittleEndian) =
      Inr ([VList [VUint16 261]],
        \<lparr>d_sig = ''aq'', d_data = [2, 0, 0, 0, 5, 1], d_order = LittleEndian, d_off = 6, d_sigoff = 2\<rparr>)"
    by code_simp
  with decode_keeps_types [OF _ this] show ?thesis by auto
qed

end
