(* ===== verification/DecoderWire.thy ===== *)
theory DecoderWire
  imports Decoder
begin

text \<open>
  The decoder reads the wire format. \<open>stored t old dv\<close> is the abstract specification of
  \<open>decodeValue\<close>: what a variable of type \<open>t\<close> that held \<open>old\<close> holds after the D-Bus value \<open>dv\<close> was
  decoded into it. The main lemma says that decoding the bytes of \<open>marshal\<close> stores exactly that and
  moves both offsets past the value.

  \<open>stored\<close> is undefined where the code fails, and in the two places where the code does not behave as
  a decoder should: an array decoded into a variable of another kind (the code reports success and
  skips nothing), and a struct decoded into a blank interface that is a member of another struct (the
  code does not move past the closing parenthesis).
\<close>

section \<open>Well-formed wire values\<close>

fun wf_dval :: "dval \<Rightarrow> bool" where
  "wf_dval (DSig s) = (length s < 256)"
| "wf_dval (DArray t vs) =
     (wf_ty t \<and> (case t of DPair k v \<Rightarrow> False | _ \<Rightarrow> True) \<and> (\<forall>v \<in> set vs. dval_ty v = t \<and> wf_dval v))"
| "wf_dval (DDict k t kvs) =
     (wf_ty k \<and> wf_ty t \<and> (case k of DBasic c \<Rightarrow> True | _ \<Rightarrow> False) \<and>
      (\<forall>(a, b) \<in> set kvs. dval_ty a = k \<and> dval_ty b = t \<and> wf_dval a \<and> wf_dval b))"
| "wf_dval (DStruct vs) = (vs \<noteq> [] \<and> (\<forall>v \<in> set vs. wf_dval v))"
| "wf_dval (DVariant t v) = (wf_ty t \<and> dval_ty v = t \<and> length (show_ty t) < 256 \<and> wf_dval v)"
| "wf_dval v = True"

lemma wf_dval_ty: "wf_dval dv \<Longrightarrow> wf_ty (dval_ty dv)"
  by (induction dv) (auto simp: basic_codes_def split: dty.splits)

lemma put_word_not_Nil [simp]: "0 < n \<Longrightarrow> put_word order n w \<noteq> []"
  by (metis length_put_word less_numeral_extra(3) list.size(3))

text \<open>A well-formed value takes at least one byte.\<close>

lemma marshal_not_Nil: "wf_dval dv \<Longrightarrow> marshal order p dv \<noteq> []"
proof (induction dv arbitrary: p)
  case (DStruct vs)
  then show ?case by (cases vs) (auto simp: Let_def)
qed (simp_all add: Let_def)

section \<open>What is stored\<close>

fun basic_value :: "dval \<Rightarrow> (gotype \<times> gval) option" where
  "basic_value (DByte x) = Some (TUint8, VUint8 x)"
| "basic_value (DBoolean x) = Some (TBool, VBool x)"
| "basic_value (DInt16 x) = Some (TInt16, VInt16 x)"
| "basic_value (DUint16 x) = Some (TUint16, VUint16 x)"
| "basic_value (DInt32 x) = Some (TInt32, VInt32 x)"
| "basic_value (DUint32 x) = Some (TUint32, VUint32 x)"
| "basic_value (DInt64 x) = Some (TInt64, VInt64 x)"
| "basic_value (DUint64 x) = Some (TUint64, VUint64 x)"
| "basic_value (DDouble x) = Some (TFloat64, VFloat64 x)"
| "basic_value (DString s) = Some (TString, VString s)"
| "basic_value (DPath s) = Some (TObjectPath, VString s)"
| "basic_value (DSig s) = Some (TSignature, VString s)"
| "basic_value v = None"

definition store_into :: "gotype \<Rightarrow> gotype \<times> gval \<Rightarrow> gval option" where
  "store_into t nv =
     (if kind_of t = kind_of (fst nv) then Some (snd nv)
      else if t = TInterface then Some (VIface (fst nv) (snd nv))
      else None)"

text \<open>The closing parenthesis of a struct that was decoded into a blank interface is not consumed.\<close>

definition stops_short :: "gotype \<Rightarrow> dval \<Rightarrow> bool" where
  "stops_short t dv = (t = TInterface \<and> (case dv of DStruct vs \<Rightarrow> True | _ \<Rightarrow> False))"

function stored :: "gotype \<Rightarrow> gval \<Rightarrow> dval \<Rightarrow> gval option"
  and stored_array :: "gotype \<Rightarrow> gval list \<Rightarrow> dval list \<Rightarrow> gval list option"
  and stored_list :: "gotype \<Rightarrow> dval list \<Rightarrow> gval list option"
  and stored_entries :: "gotype \<Rightarrow> gotype \<Rightarrow> (gval \<times> gval) list \<Rightarrow> (dval \<times> dval) list \<Rightarrow> (gval \<times> gval) list option"
  and stored_fields :: "gotype list \<Rightarrow> gval list \<Rightarrow> dval list \<Rightarrow> gval list option"
  and stored_members :: "dval list \<Rightarrow> gval list option" where
  "stored t v (DArray ty vs) =
     (if kind_of t = KArray then map_option VList (stored_array (elem_type t) (list_elems v) vs)
      else if kind_of t = KSlice then map_option VList (stored_list (elem_type t) vs)
      else if t = TInterface then
        map_option (\<lambda>ws. VIface (TSlice TInterface) (VList ws)) (stored_list TInterface vs)
      else None)"
| "stored t v (DDict ky ty kvs) =
     (if kind_of t = KMap then map_option VMap (stored_entries (key_type t) (elem_type t) [] kvs)
      else if t = TInterface then
        map_option (\<lambda>es. VIface (TMap TInterface TInterface) (VMap es))
          (stored_entries TInterface TInterface [] kvs)
      else None)"
| "stored t v (DStruct vs) =
     (if kind_of t = KPtr \<and> kind_of (elem_type t) = KStruct then
        map_option (\<lambda>ws. VPtr (VStruct ws))
          (stored_fields (field_types (elem_type t)) (struct_fields (ptr_target (elem_type t) v)) vs)
      else if kind_of t = KStruct then
        map_option VStruct (stored_fields (field_types t) (struct_fields v) vs)
      else if t = TInterface then
        map_option (\<lambda>ws. VIface (TSlice TInterface) (VList ws)) (stored_members vs)
      else None)"
| "stored t v (DVariant ty dv) =
     (if kind_of t = KPtr \<and> elem_type t = TVariant then
        map_option (\<lambda>w. VPtr (VStruct [w])) (stored TInterface VNil dv)
      else if t = TVariant then map_option (\<lambda>w. VStruct [w]) (stored TInterface VNil dv)
      else if t = TInterface then
        map_option (\<lambda>w. VIface (TPtr TVariant) (VPtr (VStruct [w]))) (stored TInterface VNil dv)
      else None)"
| "stored t v (DByte x) = store_into t (TUint8, VUint8 x)"
| "stored t v (DBoolean x) = store_into t (TBool, VBool x)"
| "stored t v (DInt16 x) = store_into t (TInt16, VInt16 x)"
| "stored t v (DUint16 x) = store_into t (TUint16, VUint16 x)"
| "stored t v (DInt32 x) = store_into t (TInt32, VInt32 x)"
| "stored t v (DUint32 x) = store_into t (TUint32, VUint32 x)"
| "stored t v (DInt64 x) = store_into t (TInt64, VInt64 x)"
| "stored t v (DUint64 x) = store_into t (TUint64, VUint64 x)"
| "stored t v (DDouble x) = store_into t (TFloat64, VFloat64 x)"
| "stored t v (DString s) = store_into t (TString, VString s)"
| "stored t v (DPath s) = store_into t (TObjectPath, VString s)"
| "stored t v (DSig s) = store_into t (TSignature, VString s)"
| "stored_array t ws [] = Some ws"
| "stored_array t ws (dv # dvs) =
     (case ws of
        [] \<Rightarrow> None
      | w # ws' \<Rightarrow>
          Option.bind (stored t w dv) (\<lambda>x. map_option ((#) x) (stored_array t ws' dvs)))"
| "stored_list t [] = Some []"
| "stored_list t (dv # dvs) =
     Option.bind (stored t (zero_val t) dv) (\<lambda>x. map_option ((#) x) (stored_list t dvs))"
| "stored_entries k t es [] = Some es"
| "stored_entries k t es ((da, db) # des) =
     Option.bind (stored k (zero_val k) da) (\<lambda>a. Option.bind (stored t (zero_val t) db) (\<lambda>b.
       if hashable a then stored_entries k t (map_put a b es) des else None))"
| "stored_fields ts ws [] = Some ws"
| "stored_fields ts ws (dv # dvs) =
     (case ts of
        [] \<Rightarrow> None
      | t # ts' \<Rightarrow>
          (case ws of
             [] \<Rightarrow> None
           | w # ws' \<Rightarrow>
               if stops_short t dv then None
               else Option.bind (stored t w dv) (\<lambda>x. map_option ((#) x) (stored_fields ts' ws' dvs))))"
| "stored_members [] = Some []"
| "stored_members (dv # dvs) =
     (if stops_short TInterface dv then None
      else Option.bind (stored TInterface VNil dv) (\<lambda>x. map_option ((#) x) (stored_members dvs)))"
  by pat_completeness auto
termination
  by (relation "measure (\<lambda>x. case x of
        Inl (Inl (t, v, dv)) \<Rightarrow> size dv
      | Inl (Inr (Inl (t, ws, dvs))) \<Rightarrow> size_list size dvs
      | Inl (Inr (Inr (t, dvs))) \<Rightarrow> size_list size dvs
      | Inr (Inl (k, t, es, des)) \<Rightarrow> size_list (size_prod size size) des
      | Inr (Inr (Inl (ts, ws, dvs))) \<Rightarrow> size_list size dvs
      | Inr (Inr (Inr dvs)) \<Rightarrow> size_list size dvs)") auto

lemma stored_basic: "basic_value dv = Some nv \<Longrightarrow> stored t v dv = store_into t nv"
  by (cases dv) auto

section \<open>Reading what was marshalled\<close>

lemma read_byte_at: "drop (d_off d) (d_data d) = x # after \<Longrightarrow> read_byte d = Inr (x, d\<lparr>d_off := d_off d + 1\<rparr>)"
  by (auto simp: read_byte_def dest!: drop_eq_ConsD)

lemma read_word16_at:
  assumes "drop (d_off d) (d_data d) = padding 2 (d_off d) @ put_word (d_order d) 2 (x :: 16 word) @ after"
  shows "read_int16 d = Inr (x, d\<lparr>d_off := d_off d + padlen 2 (d_off d) + 2\<rparr>)"
    and "read_uint16 d = Inr (x, d\<lparr>d_off := d_off d + padlen 2 (d_off d) + 2\<rparr>)"
  using codec16.read_at [OF drop_append_addD [OF assms]]
  by (simp_all add: read_defs d_align_eq not_less)

lemma read_word32_at:
  assumes "drop (d_off d) (d_data d) = padding 4 (d_off d) @ put_word (d_order d) 4 (x :: 32 word) @ after"
  shows "read_int32 d = Inr (x, d\<lparr>d_off := d_off d + padlen 4 (d_off d) + 4\<rparr>)"
    and "read_uint32 d = Inr (x, d\<lparr>d_off := d_off d + padlen 4 (d_off d) + 4\<rparr>)"
  using codec32.read_at [OF drop_append_addD [OF assms]]
  by (simp_all add: read_defs d_align_eq not_less)

lemma read_word64_at:
  assumes "drop (d_off d) (d_data d) = padding 8 (d_off d) @ put_word (d_order d) 8 (x :: 64 word) @ after"
  shows "read_int64 d = Inr (x, d\<lparr>d_off := d_off d + padlen 8 (d_off d) + 8\<rparr>)"
    and "read_uint64 d = Inr (x, d\<lparr>d_off := d_off d + padlen 8 (d_off d) + 8\<rparr>)"
    and "read_float64 d = Inr (x, d\<lparr>d_off := d_off d + padlen 8 (d_off d) + 8\<rparr>)"
  using codec64.read_at [OF drop_append_addD [OF assms]]
  by (simp_all add: read_defs d_align_eq not_less)

lemma length_of_drop: "drop n xs = ys @ zs \<Longrightarrow> length ys \<le> length xs"
  by (metis length_append length_drop diff_le_self le_add1 le_trans)

lemma read_string_at:
  assumes "drop (d_off d) (d_data d) =
      padding 4 (d_off d) @ put_word (d_order d) 4 (of_nat (length s) :: 32 word) @ bytes_of s @ [0] @ after"
    and "length (d_data d) < 2 ^ 32"
  shows "read_string d = Inr (s, d\<lparr>d_off := d_off d + padlen 4 (d_off d) + 4 + length s + 1\<rparr>)"
proof -
  let ?q = "d_off d + padlen 4 (d_off d) + 4"
  have s: "drop ?q (d_data d) = bytes_of s @ [0] @ after"
    using drop_append_addD [OF drop_append_addD [OF assms(1)]] by simp
  then have "length s < 2 ^ 32" using length_of_drop assms(2) by fastforce
  then have "unat (of_nat (length s) :: 32 word) = length s" by (simp add: unat_of_nat)
  moreover have "?q + length s + 1 \<le> length (d_data d)"
    using drop_length_le [of ?q "d_data d" "bytes_of s @ [0]" after] s by simp
  ultimately show ?thesis
    using s by (simp add: read_string_def read_word32_at(2) [OF assms(1)])
qed

lemma read_signature_at:
  assumes "drop (d_off d) (d_data d) = of_nat (length s) # bytes_of s @ [0] @ after" and "length s < 256"
  shows "read_signature d = Inr (s, d\<lparr>d_off := d_off d + length s + 2\<rparr>)"
proof -
  have s: "drop (d_off d + 1) (d_data d) = bytes_of s @ [0] @ after"
    using assms(1) by (auto dest!: drop_eq_ConsD)
  have "unat (of_nat (length s) :: byte) = length s" using assms(2) by (simp add: unat_of_nat)
  moreover have "d_off d + 1 + length s + 1 \<le> length (d_data d)"
    using drop_length_le [of "d_off d + 1" "d_data d" "bytes_of s @ [0]" after] s by simp
  ultimately show ?thesis
    using s by (simp add: read_signature_def read_byte_at [OF assms(1)])
qed

lemma read_basic_marshal:
  assumes "basic_value dv = Some nv" and "wf_dval dv" and "length (d_data d) < 2 ^ 32"
    and "drop (d_off d) (d_data d) = marshal (d_order d) (d_off d) dv @ after"
  shows "\<exists>c. dval_ty dv = DBasic c \<and> c \<in> set basic_read_codes \<and>
    read_basic c d = Inr (nv, d\<lparr>d_off := d_off d + length (marshal (d_order d) (d_off d) dv)\<rparr>)"
  using assms
  by (cases dv)
    (auto simp: read_basic_def basic_read_codes_def read_byte_at read_word16_at read_word32_at
      read_word64_at read_string_at read_signature_at)

section \<open>Decoding is storing\<close>

text \<open>
  \<open>decodes dv\<close>: wherever the bytes and the type of \<open>dv\<close> stand, decoding there with enough fuel
  stores what the specification says and moves past both.
\<close>

definition decodes :: "dval \<Rightarrow> bool" where
  "decodes dv \<longleftrightarrow> (\<forall>n t v w d after rest.
     stored t v dv = Some w \<longrightarrow> size dv < n \<longrightarrow> length (d_data d) < 2 ^ 32 \<longrightarrow>
     drop (d_off d) (d_data d) = marshal (d_order d) (d_off d) dv @ after \<longrightarrow>
     drop (d_sigoff d) (d_sig d) = show_ty (dval_ty dv) @ rest \<longrightarrow>
     decode_value n t v d =
       Inr (w, d\<lparr>d_off := d_off d + length (marshal (d_order d) (d_off d) dv),
                d_sigoff := d_sigoff d + (length (show_ty (dval_ty dv)) - (if stops_short t dv then 1 else 0))\<rparr>))"

lemma decodesD:
  assumes "decodes dv" and "stored t v dv = Some w" and "size dv < n" and "length (d_data d) < 2 ^ 32"
    and "drop (d_off d) (d_data d) = marshal (d_order d) (d_off d) dv @ after"
    and "drop (d_sigoff d) (d_sig d) = show_ty (dval_ty dv) @ rest"
  shows "decode_value n t v d =
    Inr (w, d\<lparr>d_off := d_off d + length (marshal (d_order d) (d_off d) dv),
             d_sigoff := d_sigoff d + (length (show_ty (dval_ty dv)) - (if stops_short t dv then 1 else 0))\<rparr>)"
  using assms unfolding decodes_def by blast

lemma decode_array_stored:
  assumes "\<forall>dv \<in> set dvs. decodes dv \<and> wf_dval dv \<and> dval_ty dv = ty"
    and "stored_array t olds dvs = Some ws" and "size_list size dvs < n" and "length (d_data d) < 2 ^ 32"
    and "drop (d_off d) (d_data d) = marshal_list (d_order d) (d_off d) dvs @ after"
    and "drop elemSig (d_sig d) = show_ty ty @ rest"
  shows "\<exists>s. decode_array n t (pre @ olds) (length pre) (d_off d + length (marshal_list (d_order d) (d_off d) dvs)) elemSig d =
    Inr (pre @ ws, d\<lparr>d_off := d_off d + length (marshal_list (d_order d) (d_off d) dvs), d_sigoff := s\<rparr>)"
  using assms
proof (induction dvs arbitrary: n d pre olds ws)
  case Nil
  then obtain m where "n = Suc m" by (cases n) auto
  with Nil show ?case by (auto intro!: exI [of _ "d_sigoff d"])
next
  case (Cons dv dvs)
  then obtain m where n: "n = Suc m" by (cases n) auto
  from Cons.prems(2) obtain old olds' w ws' where o: "olds = old # olds'" "stored t old dv = Some w"
      "stored_array t olds' dvs = Some ws'" "ws = w # ws'"
    by (auto simp: bind_eq_Some_conv split: list.splits)
  let ?b = "marshal (d_order d) (d_off d) dv"
  define d1 where "d1 = d\<lparr>d_off := d_off d + length ?b,
      d_sigoff := elemSig + (length (show_ty ty) - (if stops_short t dv then 1 else 0))\<rparr>"
  have v: "decode_value m t old (d\<lparr>d_sigoff := elemSig\<rparr>) = Inr (w, d1)"
    using decodesD [of dv t old w m "d\<lparr>d_sigoff := elemSig\<rparr>" _ rest] Cons.prems o n
    by (auto simp: d1_def Let_def)
  have "?b \<noteq> []" using Cons.prems(1) by (simp add: marshal_not_Nil)
  moreover have "\<exists>s. decode_array m t ((pre @ [w]) @ olds') (length (pre @ [w]))
      (d_off d1 + length (marshal_list (d_order d1) (d_off d1) dvs)) elemSig d1 =
    Inr ((pre @ [w]) @ ws', d1\<lparr>d_off := d_off d1 + length (marshal_list (d_order d1) (d_off d1) dvs), d_sigoff := s\<rparr>)"
    by (rule Cons.IH) (use Cons.prems o n drop_append_addD [of "d_off d" "d_data d" ?b] in \<open>auto simp: d1_def Let_def\<close>)
  ultimately show ?case
    using v o n by (auto simp: Let_def d1_def add.assoc)
qed

lemma decode_slice_stored:
  assumes "\<forall>dv \<in> set dvs. decodes dv \<and> wf_dval dv \<and> dval_ty dv = ty"
    and "stored_list t dvs = Some ws" and "size_list size dvs < n" and "length (d_data d) < 2 ^ 32"
    and "drop (d_off d) (d_data d) = marshal_list (d_order d) (d_off d) dvs @ after"
    and "drop elemSig (d_sig d) = show_ty ty @ rest"
  shows "\<exists>s. decode_slice n t pre (d_off d + length (marshal_list (d_order d) (d_off d) dvs)) elemSig d =
    Inr (pre @ ws, d\<lparr>d_off := d_off d + length (marshal_list (d_order d) (d_off d) dvs), d_sigoff := s\<rparr>)"
  using assms
proof (induction dvs arbitrary: n d pre ws)
  case Nil
  then obtain m where "n = Suc m" by (cases n) auto
  with Nil show ?case by (auto intro!: exI [of _ "d_sigoff d"])
next
  case (Cons dv dvs)
  then obtain m where n: "n = Suc m" by (cases n) auto
  from Cons.prems(2) obtain w ws' where o: "stored t (zero_val t) dv = Some w"
      "stored_list t dvs = Some ws'" "ws = w # ws'"
    by (auto simp: bind_eq_Some_conv)
  let ?b = "marshal (d_order d) (d_off d) dv"
  define d1 where "d1 = d\<lparr>d_off := d_off d + length ?b,
      d_sigoff := elemSig + (length (show_ty ty) - (if stops_short t dv then 1 else 0))\<rparr>"
  have v: "decode_value m t (zero_val t) (d\<lparr>d_sigoff := elemSig\<rparr>) = Inr (w, d1)"
    using decodesD [of dv t "zero_val t" w m "d\<lparr>d_sigoff := elemSig\<rparr>" _ rest] Cons.prems o n
    by (auto simp: d1_def Let_def)
  have "?b \<noteq> []" using Cons.prems(1) by (simp add: marshal_not_Nil)
  moreover have "\<exists>s. decode_slice m t (pre @ [w])
      (d_off d1 + length (marshal_list (d_order d1) (d_off d1) dvs)) elemSig d1 =
    Inr ((pre @ [w]) @ ws', d1\<lparr>d_off := d_off d1 + length (marshal_list (d_order d1) (d_off d1) dvs), d_sigoff := s\<rparr>)"
    by (rule Cons.IH) (use Cons.prems o n drop_append_addD [of "d_off d" "d_data d" ?b] in \<open>auto simp: d1_def Let_def\<close>)
  ultimately show ?case
    using v o n by (auto simp: Let_def d1_def add.assoc)
qed

lemma decode_map_stored:
  assumes "\<forall>(a, b) \<in> set des. decodes a \<and> decodes b \<and> wf_dval a \<and> wf_dval b \<and> dval_ty a = DBasic c \<and> dval_ty b = ty"
    and "stored_entries k t es des = Some es'" and "size_list (size_prod size size) des < n"
    and "length (d_data d) < 2 ^ 32"
    and "drop (d_off d) (d_data d) = marshal_entries (d_order d) (d_off d) des @ after"
    and "drop keySig (d_sig d) = c # show_ty ty @ rest" and "voff = None \<or> voff = Some (Suc keySig)"
  shows "\<exists>s. decode_map n k t es (d_off d + length (marshal_entries (d_order d) (d_off d) des)) keySig voff d =
    Inr (es', d\<lparr>d_off := d_off d + length (marshal_entries (d_order d) (d_off d) des), d_sigoff := s\<rparr>)"
  using assms(1-6)
proof (induction des arbitrary: n d es)
  case Nil
  then obtain m where "n = Suc m" by (cases n) auto
  with Nil show ?case by (auto intro!: exI [of _ "d_sigoff d"])
next
  case (Cons e des)
  then obtain m where n: "n = Suc m" by (cases n) auto
  obtain da db where e: "e = (da, db)" by (cases e)
  from Cons.prems(2) obtain a b where o: "stored k (zero_val k) da = Some a"
      "stored t (zero_val t) db = Some b" "hashable a" "stored_entries k t (map_put a b es) des = Some es'"
    by (auto simp: e bind_eq_Some_conv split: if_splits)
  define q where "q = d_off d + padlen 8 (d_off d)"
  define x where "x = marshal (d_order d) q da"
  define y where "y = marshal (d_order d) (q + length x) db"
  define z where "z = marshal_entries (d_order d) (q + length x + length y) des"
  have m: "marshal_entries (d_order d) (d_off d) (e # des) = padding 8 (d_off d) @ x @ y @ z"
    by (simp add: e Let_def q_def x_def y_def z_def)
  have dq: "drop q (d_data d) = x @ y @ z @ after"
    using drop_append_addD [of "d_off d" "d_data d" "padding 8 (d_off d)"] Cons.prems(5) m by (simp add: q_def)
  note dx = drop_append_addD [OF dq]
  note dy = drop_append_addD [OF dx]
  have s1: "drop (Suc keySig) (d_sig d) = show_ty ty @ rest"
    using Cons.prems(6) by (auto dest: drop_eq_ConsD)
  define d1 where "d1 = d\<lparr>d_off := q + length x, d_sigoff := Suc keySig\<rparr>"
  define d2 where "d2 = d1\<lparr>d_off := q + length x + length y,
      d_sigoff := Suc keySig + (length (show_ty ty) - (if stops_short t db then 1 else 0))\<rparr>"
  have k: "\<not> stops_short k da"
    using Cons.prems(1) e by (auto simp: stops_short_def split: dval.splits)
  have ra: "decode_value m k (zero_val k) ((d_align 8 d)\<lparr>d_sigoff := keySig\<rparr>) = Inr (a, d1)"
    using decodesD [of da k "zero_val k" a m "(d_align 8 d)\<lparr>d_sigoff := keySig\<rparr>" "y @ z @ after" "show_ty ty @ rest"]
      Cons.prems(1,3,4,6) o(1) n k dq by (auto simp: d_align_eq e d1_def x_def q_def)
  have rb: "decode_value m t (zero_val t) d1 = Inr (b, d2)"
    using decodesD [of db t "zero_val t" b m d1 "z @ after" rest]
      Cons.prems(1,3,4) o(2) n dx s1 by (auto simp: e d1_def d2_def y_def)
  have "\<exists>s. decode_map m k t (map_put a b es) (d_off d2 + length (marshal_entries (d_order d2) (d_off d2) des)) keySig voff d2 =
    Inr (es', d2\<lparr>d_off := d_off d2 + length (marshal_entries (d_order d2) (d_off d2) des), d_sigoff := s\<rparr>)"
    by (rule Cons.IH) (use Cons.prems o n dy in \<open>auto simp: d1_def d2_def z_def e\<close>)
  moreover have "x \<noteq> []" using Cons.prems(1) by (simp add: e x_def marshal_not_Nil)
  ultimately show ?case
    using ra rb o(3) n assms(7) unfolding m by (auto simp: d1_def d2_def q_def z_def add.assoc)
qed

lemma decode_fields_stored:
  assumes "\<forall>dv \<in> set dvs. decodes dv \<and> wf_dval dv"
    and "stored_fields ts olds dvs = Some ws" and "size_list size dvs < n" and "length (d_data d) < 2 ^ 32"
    and "drop (d_off d) (d_data d) = marshal_list (d_order d) (d_off d) dvs @ after"
    and "drop (d_sigoff d) (d_sig d) = show_tys (map dval_ty dvs) @ CHR '')'' # rest"
  shows "decode_fields n ts olds d =
    Inr (ws, d\<lparr>d_off := d_off d + length (marshal_list (d_order d) (d_off d) dvs),
              d_sigoff := d_sigoff d + length (show_tys (map dval_ty dvs))\<rparr>)"
  using assms
proof (induction dvs arbitrary: n d ts olds ws)
  case Nil
  then obtain m where "n = Suc m" by (cases n) auto
  with Nil show ?case by (auto dest!: drop_eq_ConsD split: list.splits)
next
  case (Cons dv dvs)
  then obtain m where n: "n = Suc m" by (cases n) auto
  from Cons.prems(2) obtain t ts' old olds' w ws' where o: "ts = t # ts'" "olds = old # olds'"
      "\<not> stops_short t dv" "stored t old dv = Some w" "stored_fields ts' olds' dvs = Some ws'" "ws = w # ws'"
    by (auto simp: bind_eq_Some_conv split: list.splits if_splits)
  let ?b = "marshal (d_order d) (d_off d) dv"
  define d1 where "d1 = d\<lparr>d_off := d_off d + length ?b, d_sigoff := d_sigoff d + length (show_ty (dval_ty dv))\<rparr>"
  have v: "decode_value m t old d = Inr (w, d1)"
    using decodesD [of dv t old w m d _ "show_tys (map dval_ty dvs) @ CHR '')'' # rest"] Cons.prems o n
    by (auto simp: d1_def Let_def)
  have "wf_ty (dval_ty dv)" using Cons.prems(1) wf_dval_ty by simp
  then obtain c cs where "show_ty (dval_ty dv) = c # cs" and "c \<noteq> CHR '')''"
    using hd_show_ty [of "dval_ty dv"] by (cases "show_ty (dval_ty dv)") auto
  then have "d_sigoff d < length (d_sig d) \<and> d_sig d ! d_sigoff d \<noteq> CHR '')''"
    using Cons.prems(6) by (auto dest!: drop_eq_ConsD)
  moreover have "decode_fields m ts' olds' d1 =
    Inr (ws', d1\<lparr>d_off := d_off d1 + length (marshal_list (d_order d1) (d_off d1) dvs),
                d_sigoff := d_sigoff d1 + length (show_tys (map dval_ty dvs))\<rparr>)"
    by (rule Cons.IH)
      (use Cons.prems o n drop_append_addD [of "d_off d" "d_data d" ?b]
        drop_append_addD [of "d_sigoff d" "d_sig d" "show_ty (dval_ty dv)"] in \<open>auto simp: d1_def Let_def\<close>)
  ultimately show ?case
    using v o n by (auto simp: Let_def d1_def add.assoc)
qed

lemma decode_ifields_stored:
  assumes "\<forall>dv \<in> set dvs. decodes dv \<and> wf_dval dv"
    and "stored_members dvs = Some ws" and "size_list size dvs < n" and "length (d_data d) < 2 ^ 32"
    and "drop (d_off d) (d_data d) = marshal_list (d_order d) (d_off d) dvs @ after"
    and "drop (d_sigoff d) (d_sig d) = show_tys (map dval_ty dvs) @ CHR '')'' # rest"
  shows "decode_ifields n pre d =
    Inr (pre @ ws, d\<lparr>d_off := d_off d + length (marshal_list (d_order d) (d_off d) dvs),
              d_sigoff := d_sigoff d + length (show_tys (map dval_ty dvs))\<rparr>)"
  using assms
proof (induction dvs arbitrary: n d pre ws)
  case Nil
  then obtain m where "n = Suc m" by (cases n) auto
  with Nil show ?case by (auto dest!: drop_eq_ConsD split: list.splits)
next
  case (Cons dv dvs)
  then obtain m where n: "n = Suc m" by (cases n) auto
  from Cons.prems(2) obtain w ws' where o:
      "\<not> stops_short TInterface dv" "stored TInterface VNil dv = Some w" "stored_members dvs = Some ws'" "ws = w # ws'"
    by (auto simp: bind_eq_Some_conv split: list.splits if_splits)
  let ?b = "marshal (d_order d) (d_off d) dv"
  define d1 where "d1 = d\<lparr>d_off := d_off d + length ?b, d_sigoff := d_sigoff d + length (show_ty (dval_ty dv))\<rparr>"
  have v: "decode_value m TInterface VNil d = Inr (w, d1)"
    using decodesD [of dv TInterface VNil w m d _ "show_tys (map dval_ty dvs) @ CHR '')'' # rest"] Cons.prems o n
    by (auto simp: d1_def Let_def)
  have "wf_ty (dval_ty dv)" using Cons.prems(1) wf_dval_ty by simp
  then obtain c cs where "show_ty (dval_ty dv) = c # cs" and "c \<noteq> CHR '')''"
    using hd_show_ty [of "dval_ty dv"] by (cases "show_ty (dval_ty dv)") auto
  then have "d_sigoff d < length (d_sig d) \<and> d_sig d ! d_sigoff d \<noteq> CHR '')''"
    using Cons.prems(6) by (auto dest!: drop_eq_ConsD)
  moreover have "decode_ifields m (pre @ [w]) d1 =
    Inr ((pre @ [w]) @ ws', d1\<lparr>d_off := d_off d1 + length (marshal_list (d_order d1) (d_off d1) dvs),
                d_sigoff := d_sigoff d1 + length (show_tys (map dval_ty dvs))\<rparr>)"
    by (rule Cons.IH)
      (use Cons.prems o n drop_append_addD [of "d_off d" "d_data d" ?b]
        drop_append_addD [of "d_sigoff d" "d_sig d" "show_ty (dval_ty dv)"] in \<open>auto simp: d1_def Let_def\<close>)
  ultimately show ?case
    using v o n by (auto simp: Let_def d1_def add.assoc)
qed

text \<open>The array cases: what the code does between reading the length and leaving the loop.\<close>

lemma array_code_split:
  "elemSig < length sig \<Longrightarrow> drop elemSig sig = show_ty ty @ rest \<Longrightarrow> wf_ty ty \<Longrightarrow>
   (sig ! elemSig \<in> set ''xtd({'') = (align_of ty = 8)"
  by (cases ty) (auto dest!: drop_eq_ConsD)

lemma padlen_divides: "n dvd 4 \<Longrightarrow> padlen n (p + padlen 4 p + 4) = 0"
  by (rule padlen_dvd, rule dvd_trans [of n 4]) (simp_all add: padlen_aligned)

text \<open>
  Up to the loop: reading the length of an array whose contents \<open>body\<close> are of type \<open>ty\<close>, and
  aligning to the first element.
\<close>

lemma decode_array_head:
  assumes "drop (d_off d) (d_data d) =
      padding 4 (d_off d) @ put_word (d_order d) 4 (of_nat (length body) :: 32 word) @
      padding (align_of ty) q @ body @ after"
    and q: "q = d_off d + padlen 4 (d_off d) + 4"
    and "drop (d_sigoff d) (d_sig d) = show_ty ty @ rest" and "wf_ty ty" and "length (d_data d) < 2 ^ 32"
  defines "d2 \<equiv> d\<lparr>d_off := q + padlen (align_of ty) q\<rparr>"
  shows "read_uint32 d = Inr (of_nat (length body), d\<lparr>d_off := q\<rparr>)"
    and "unat (of_nat (length body) :: 32 word) = length body"
    and "(if d_sig d ! d_sigoff d \<in> set ''xtd({'' then d_align 8 (d\<lparr>d_off := q\<rparr>) else d\<lparr>d_off := q\<rparr>) = d2"
    and "next_type (d_sig d) (d_sigoff d) = Inr (d_sigoff d + length (show_ty ty))"
    and "drop (d_off d2) (d_data d2) = body @ after"
    and "d_off d2 + length body \<le> length (d_data d2)"
proof -
  show "read_uint32 d = Inr (of_nat (length body), d\<lparr>d_off := q\<rparr>)"
    using read_word32_at(2) [OF assms(1)] q by simp
  have b: "drop (q + padlen (align_of ty) q) (d_data d) = body @ after"
    using drop_append_addD [OF drop_append_addD [OF drop_append_addD [OF assms(1)]]] q by simp
  then show "drop (d_off d2) (d_data d2) = body @ after" by (simp add: d2_def)
  have "d_off d + length (padding 4 (d_off d) @ put_word (d_order d) 4 (of_nat (length body) :: 32 word) @
      padding (align_of ty) q @ body) \<le> length (d_data d)"
    by (rule drop_length_le [of _ _ _ after]) (use assms(1) in simp_all)
  then show "d_off d2 + length body \<le> length (d_data d2)"
    using q by (simp add: d2_def)
  then show "unat (of_nat (length body) :: 32 word) = length body"
    using assms(5) by (simp add: unat_of_nat d2_def)
  show "next_type (d_sig d) (d_sigoff d) = Inr (d_sigoff d + length (show_ty ty))"
    using assms(3,4) next_type_complete by blast
  have "d_sigoff d < length (d_sig d)"
    using drop_length_le [OF assms(3)] by (cases "show_ty ty") auto
  note c = array_code_split [OF this assms(3,4)]
  show "(if d_sig d ! d_sigoff d \<in> set ''xtd({'' then d_align 8 (d\<lparr>d_off := q\<rparr>) else d\<lparr>d_off := q\<rparr>) = d2"
    using padlen_divides [OF align_of_dvd4 [of ty], of "d_off d"] q
    unfolding c d2_def by (cases "align_of ty = 8") (simp_all add: d_align_eq)
qed

text \<open>The four kinds of containers, one at a time.\<close>

lemma decodes_basic: "basic_value dv = Some nv \<Longrightarrow> wf_dval dv \<Longrightarrow> decodes dv"
  unfolding decodes_def
proof (intro allI impI)
  fix n t v w and d :: decoder and after rest
  assume b: "basic_value dv = Some nv" and wf: "wf_dval dv" and s: "stored t v dv = Some w" and "size dv < n"
    and len: "length (d_data d) < 2 ^ 32"
    and data: "drop (d_off d) (d_data d) = marshal (d_order d) (d_off d) dv @ after"
    and sig: "drop (d_sigoff d) (d_sig d) = show_ty (dval_ty dv) @ rest"
  then obtain m where n: "n = Suc m" by (cases n) auto
  let ?d = "d\<lparr>d_sigoff := Suc (d_sigoff d)\<rparr>"
  obtain c where c: "dval_ty dv = DBasic c" "c \<in> set basic_read_codes"
      "read_basic c ?d = Inr (nv, ?d\<lparr>d_off := d_off d + length (marshal (d_order d) (d_off d) dv)\<rparr>)"
    using read_basic_marshal [OF b wf, of ?d after] len data by auto
  have "\<not> stops_short t dv" using b by (cases dv) (auto simp: stops_short_def)
  moreover have "store_basic c t nv = Inr w"
    using s stored_basic [OF b] by (auto simp: store_into_def store_basic_def split: if_splits)
  ultimately show "decode_value n t v d = Inr (w, d\<lparr>d_off := d_off d + length (marshal (d_order d) (d_off d) dv),
       d_sigoff := d_sigoff d + (length (show_ty (dval_ty dv)) - (if stops_short t dv then 1 else 0))\<rparr>)"
    using sig c by (auto simp: n dest!: drop_eq_ConsD)
qed

lemma decodes_variant:
  assumes "decodes dv" and "wf_dval (DVariant ty dv)"
  shows "decodes (DVariant ty dv)"
  unfolding decodes_def
proof (intro allI impI)
  fix n t v w and d :: decoder and after rest
  assume s: "stored t v (DVariant ty dv) = Some w" and size: "size (DVariant ty dv) < n"
    and len: "length (d_data d) < 2 ^ 32"
    and data: "drop (d_off d) (d_data d) = marshal (d_order d) (d_off d) (DVariant ty dv) @ after"
    and sig: "drop (d_sigoff d) (d_sig d) = show_ty (dval_ty (DVariant ty dv)) @ rest"
  then obtain m where n: "n = Suc m" by (cases n) auto
  let ?d = "d\<lparr>d_sigoff := Suc (d_sigoff d)\<rparr>" and ?b = "marshal (d_order d) (d_off d + length (show_ty ty) + 2) dv"
  let ?d1 = "?d\<lparr>d_off := d_off d + length (show_ty ty) + 2\<rparr>"
  obtain x where x: "stored TInterface VNil dv = Some x" using s by (auto split: if_splits)
  have sg: "drop (d_off d) (d_data d) = of_nat (length (show_ty ty)) # bytes_of (show_ty ty) @ [0] @ ?b @ after"
    using data by (simp add: Let_def add.commute add.left_commute)
  have r: "read_signature ?d = Inr (show_ty ty, ?d1)"
    using read_signature_at [of ?d "show_ty ty" "?b @ after"] sg assms(2) by simp
  have "drop (d_off d + length (show_ty ty) + 2) (d_data d) = ?b @ after"
    using drop_append_addD [of "d_off d" "d_data d" "of_nat (length (show_ty ty)) # bytes_of (show_ty ty) @ [0]"] sg
    by (simp add: add.commute add.left_commute)
  then have "decode_value m TInterface VNil (?d1\<lparr>d_sig := show_ty ty, d_sigoff := 0\<rparr>) =
      Inr (x, ?d1\<lparr>d_off := d_off ?d1 + length ?b, d_sig := show_ty ty,
        d_sigoff := length (show_ty ty) - (if stops_short TInterface dv then 1 else 0)\<rparr>)"
    using decodesD [OF assms(1) x, of m "?d1\<lparr>d_sig := show_ty ty, d_sigoff := 0\<rparr>" after "[]"] assms(2) size len n by simp
  then show "decode_value n t v d =
      Inr (w, d\<lparr>d_off := d_off d + length (marshal (d_order d) (d_off d) (DVariant ty dv)),
               d_sigoff := d_sigoff d + (length (show_ty (dval_ty (DVariant ty dv))) - (if stops_short t (DVariant ty dv) then 1 else 0))\<rparr>)"
    using sig r s x by (auto simp: n basic_read_codes_def stops_short_def Let_def split: if_splits dest!: drop_eq_ConsD)
qed

lemma array_start:
  assumes sig: "drop (d_sigoff d) (d_sig d) = CHR ''a'' # show_ty ty @ rest" and "wf_ty ty"
    and "length (d_data d) < 2 ^ 32"
    and "drop (d_off d) (d_data d) =
      padding 4 (d_off d) @ put_word (d_order d) 4 (of_nat (length body) :: 32 word) @
      padding (align_of ty) q @ body @ after"
    and "q = d_off d + padlen 4 (d_off d) + 4"
    and d1: "d1 = d\<lparr>d_off := q, d_sigoff := d_sigoff d + 1\<rparr>"
    and d2: "d2 = d1\<lparr>d_off := q + padlen (align_of ty) q\<rparr>"
  shows "\<not> length (d_sig d) \<le> d_sigoff d" and "d_sig d ! d_sigoff d = CHR ''a''"
    and "read_uint32 (d\<lparr>d_sigoff := d_sigoff d + 1\<rparr>) = Inr (of_nat (length body), d1)"
    and "next_type (d_sig d1) (d_sigoff d1) = Inr (d_sigoff d + 1 + length (show_ty ty))"
    and "(if d_sig d1 ! d_sigoff d1 \<in> set ''xtd({'' then d_align 8 d1 else d1) = d2"
    and "\<not> length (d_data d2) < d_off d2 + unat (of_nat (length body) :: 32 word)"
    and "unat (of_nat (length body) :: 32 word) = length body"
    and "drop (d_off d2) (d_data d2) = body @ after"
    and "drop (d_sigoff d1) (d_sig d2) = show_ty ty @ rest"
proof -
  have s: "d_sigoff d < length (d_sig d)" "d_sig d ! d_sigoff d = CHR ''a''"
      "drop (d_sigoff d + 1) (d_sig d) = show_ty ty @ rest"
    using sig by (auto dest!: drop_eq_ConsD)
  let ?d = "d\<lparr>d_sigoff := d_sigoff d + 1\<rparr>"
  have p: "drop (d_off ?d) (d_data ?d) =
      padding 4 (d_off ?d) @ put_word (d_order ?d) 4 (of_nat (length body) :: 32 word) @
      padding (align_of ty) q @ body @ after" "q = d_off ?d + padlen 4 (d_off ?d) + 4"
      "drop (d_sigoff ?d) (d_sig ?d) = show_ty ty @ rest" "length (d_data ?d) < 2 ^ 32"
    using assms s by simp_all
  note head = decode_array_head [OF p(1-3) assms(2) p(4)]
  show "\<not> length (d_sig d) \<le> d_sigoff d" "d_sig d ! d_sigoff d = CHR ''a''" using s by simp_all
  show "read_uint32 ?d = Inr (of_nat (length body), d1)" using head(1) d1 by simp
  show "next_type (d_sig d1) (d_sigoff d1) = Inr (d_sigoff d + 1 + length (show_ty ty))"
    using head(4) d1 by simp
  have "?d\<lparr>d_off := q\<rparr> = d1" "d_sig ?d = d_sig d1" "d_sigoff ?d = d_sigoff d1"
      "?d\<lparr>d_off := q + padlen (align_of ty) q\<rparr> = d2" using d1 d2 by simp_all
  then show "(if d_sig d1 ! d_sigoff d1 \<in> set ''xtd({'' then d_align 8 d1 else d1) = d2"
    using head(3) by metis
  show "unat (of_nat (length body) :: 32 word) = length body" by (rule head(2))
  then show "\<not> length (d_data d2) < d_off d2 + unat (of_nat (length body) :: 32 word)"
    using head(6) d1 d2 by simp
  show "drop (d_off d2) (d_data d2) = body @ after" using head(5) d1 d2 by simp
  show "drop (d_sigoff d1) (d_sig d2) = show_ty ty @ rest" using s d1 d2 by simp
qed

lemma decodes_array:
  assumes "\<forall>dv \<in> set dvs. decodes dv" and wf: "wf_dval (DArray ty dvs)"
  shows "decodes (DArray ty dvs)"
  unfolding decodes_def
proof (intro allI impI)
  fix n t v w and d :: decoder and after rest
  assume s: "stored t v (DArray ty dvs) = Some w" and size: "size (DArray ty dvs) < n"
    and len: "length (d_data d) < 2 ^ 32"
    and data: "drop (d_off d) (d_data d) = marshal (d_order d) (d_off d) (DArray ty dvs) @ after"
    and sig: "drop (d_sigoff d) (d_sig d) = show_ty (dval_ty (DArray ty dvs)) @ rest"
  then obtain m where n: "n = Suc m" by (cases n) auto
  define q where "q = d_off d + padlen 4 (d_off d) + 4"
  define body where "body = marshal_list (d_order d) (q + padlen (align_of ty) q) dvs"
  define d1 where "d1 = d\<lparr>d_off := q, d_sigoff := d_sigoff d + 1\<rparr>"
  define d2 where "d2 = d1\<lparr>d_off := q + padlen (align_of ty) q\<rparr>"
  have ty: "wf_ty ty" "hd (show_ty ty) \<noteq> CHR ''{''" using wf by (auto split: dty.splits)
  have sig': "drop (d_sigoff d) (d_sig d) = CHR ''a'' # show_ty ty @ rest" using sig by simp
  have data': "drop (d_off d) (d_data d) = padding 4 (d_off d) @
      put_word (d_order d) 4 (of_nat (length body) :: 32 word) @ padding (align_of ty) q @ body @ after"
    using data by (simp add: Let_def body_def q_def)
  note start = array_start [OF sig' ty(1) len data' q_def d1_def d2_def]
  note code = decode_value_array [OF start(1-6)]
  have ih: "\<forall>dv \<in> set dvs. decodes dv \<and> wf_dval dv \<and> dval_ty dv = ty" using assms by simp
  have m: "size_list size dvs < m" using size n by simp
  have d2: "marshal_list (d_order d2) (d_off d2) dvs = body" "length (d_data d2) < 2 ^ 32"
    using len by (simp_all add: d2_def d1_def body_def)
  have brace: "d_sig d2 ! d_sigoff d1 \<noteq> CHR ''{''"
    using start(9) ty(2) by (cases "show_ty ty") (auto dest!: drop_eq_ConsD)
  note loops = decode_array_stored [OF ih _ m d2(2) _ start(9), unfolded d2(1), OF _ start(8), of _ _ _ "[]"]
    decode_slice_stored [OF ih _ m d2(2) _ start(9), unfolded d2(1), OF _ start(8), of _ _ "[]"]
  have end_pos: "d2\<lparr>d_off := d_off d2 + length body, d_sigoff := x\<rparr> =
      d\<lparr>d_off := d_off d + length (marshal (d_order d) (d_off d) (DArray ty dvs)), d_sigoff := x\<rparr>" for x
    by (simp add: d2_def d1_def q_def body_def Let_def)
  have short: "\<not> stops_short t (DArray ty dvs)" by (simp add: stops_short_def)
  consider "kind_of t = KArray" | "kind_of t = KSlice" | "t = TInterface"
    using s by (auto split: if_splits)
  then have "decode_value (Suc m) t v d =
      Inr (w, d2\<lparr>d_off := d_off d2 + length body, d_sigoff := d_sigoff d + 1 + length (show_ty ty)\<rparr>)"
  proof cases
    case 1
    then obtain ws where "stored_array (elem_type t) (list_elems v) dvs = Some ws" "w = VList ws"
      using s by auto
    with loops(1) code(1) [OF 1] show ?thesis by (fastforce simp: start(7))
  next
    case 2
    then obtain ws where "stored_list (elem_type t) dvs = Some ws" "w = VList ws"
      using s by auto
    with loops(2) code(2) [OF 2] show ?thesis by (fastforce simp: start(7))
  next
    case 3
    then obtain ws where "stored_list TInterface dvs = Some ws" "w = VIface (TSlice TInterface) (VList ws)"
      using s by auto
    with loops(2) code(5) [OF 3 brace] show ?thesis by (fastforce simp: start(7))
  qed
  then show "decode_value n t v d =
      Inr (w, d\<lparr>d_off := d_off d + length (marshal (d_order d) (d_off d) (DArray ty dvs)),
               d_sigoff := d_sigoff d + (length (show_ty (dval_ty (DArray ty dvs))) - (if stops_short t (DArray ty dvs) then 1 else 0))\<rparr>)"
    unfolding n end_pos using short by simp
qed

lemma decodes_dict:
  assumes "\<forall>(a, b) \<in> set des. decodes a \<and> decodes b" and wf: "wf_dval (DDict ky ty des)"
  shows "decodes (DDict ky ty des)"
  unfolding decodes_def
proof (intro allI impI)
  fix n t v w and d :: decoder and after rest
  assume s: "stored t v (DDict ky ty des) = Some w" and size: "size (DDict ky ty des) < n"
    and len: "length (d_data d) < 2 ^ 32"
    and data: "drop (d_off d) (d_data d) = marshal (d_order d) (d_off d) (DDict ky ty des) @ after"
    and sig: "drop (d_sigoff d) (d_sig d) = show_ty (dval_ty (DDict ky ty des)) @ rest"
  then obtain m where n: "n = Suc m" by (cases n) auto
  define q where "q = d_off d + padlen 4 (d_off d) + 4"
  define body where "body = marshal_entries (d_order d) (q + padlen 8 q) des"
  define d1 where "d1 = d\<lparr>d_off := q, d_sigoff := d_sigoff d + 1\<rparr>"
  define d2 where "d2 = d1\<lparr>d_off := q + padlen (align_of (DPair ky ty)) q\<rparr>"
  obtain c where ky: "ky = DBasic c" using wf by (auto split: dty.splits)
  have ty: "wf_ty (DPair ky ty)" using wf by simp
  have sig': "drop (d_sigoff d) (d_sig d) = CHR ''a'' # show_ty (DPair ky ty) @ rest" using sig by simp
  have data': "drop (d_off d) (d_data d) = padding 4 (d_off d) @
      put_word (d_order d) 4 (of_nat (length body) :: 32 word) @ padding (align_of (DPair ky ty)) q @ body @ after"
    using data by (simp add: Let_def body_def q_def)
  note start = array_start [OF sig' ty(1) len data' q_def d1_def d2_def]
  note code = decode_value_array [OF start(1-6)]
  have ih: "\<forall>(a, b) \<in> set des. decodes a \<and> decodes b \<and> wf_dval a \<and> wf_dval b \<and> dval_ty a = DBasic c \<and> dval_ty b = ty"
    using assms ky by auto
  have m: "size_list (size_prod size size) des < m" using size n by simp
  have d2: "marshal_entries (d_order d2) (d_off d2) des = body" "length (d_data d2) < 2 ^ 32"
    using len by (simp_all add: d2_def d1_def body_def)
  have brace: "d_sig d2 ! d_sigoff d1 = CHR ''{''"
    and keysig: "drop (d_sigoff d1 + 1) (d_sig d2) = c # show_ty ty @ CHR ''}'' # rest"
    using start(9) ky by (auto dest!: drop_eq_ConsD)
  note loops = decode_map_stored [OF ih _ m d2(2) _ keysig, unfolded d2(1), OF _ start(8)]
  have end_pos: "d2\<lparr>d_off := d_off d2 + length body, d_sigoff := x\<rparr> =
      d\<lparr>d_off := d_off d + length (marshal (d_order d) (d_off d) (DDict ky ty des)), d_sigoff := x\<rparr>" for x
    by (simp add: d2_def d1_def q_def body_def Let_def)
  have short: "\<not> stops_short t (DDict ky ty des)" by (simp add: stops_short_def)
  consider "kind_of t = KMap" | "t = TInterface"
    using s by (auto split: if_splits)
  then have "decode_value (Suc m) t v d =
      Inr (w, d2\<lparr>d_off := d_off d2 + length body, d_sigoff := d_sigoff d + 1 + length (show_ty (DPair ky ty))\<rparr>)"
  proof cases
    case 1
    then obtain ws where "stored_entries (key_type t) (elem_type t) [] des = Some ws" "w = VMap ws"
      using s by auto
    with loops [of _ _ _ _ None] code(3) [OF 1 brace] show ?thesis by (fastforce simp: start(7))
  next
    case 2
    then obtain ws where "stored_entries TInterface TInterface [] des = Some ws"
        "w = VIface (TMap TInterface TInterface) (VMap ws)"
      using s by auto
    with loops [of _ _ _ _ "Some (d_sigoff d1 + 2)"] code(4) [OF 2 brace] show ?thesis
      by (fastforce simp: start(7))
  qed
  then show "decode_value n t v d =
      Inr (w, d\<lparr>d_off := d_off d + length (marshal (d_order d) (d_off d) (DDict ky ty des)),
               d_sigoff := d_sigoff d + (length (show_ty (dval_ty (DDict ky ty des))) - (if stops_short t (DDict ky ty des) then 1 else 0))\<rparr>)"
    unfolding n end_pos using short by simp
qed

lemma decodes_struct:
  assumes "\<forall>dv \<in> set dvs. decodes dv" and wf: "wf_dval (DStruct dvs)"
  shows "decodes (DStruct dvs)"
  unfolding decodes_def
proof (intro allI impI)
  fix n t v w and d :: decoder and after rest
  assume s: "stored t v (DStruct dvs) = Some w" and size: "size (DStruct dvs) < n"
    and len: "length (d_data d) < 2 ^ 32"
    and data: "drop (d_off d) (d_data d) = marshal (d_order d) (d_off d) (DStruct dvs) @ after"
    and sig: "drop (d_sigoff d) (d_sig d) = show_ty (dval_ty (DStruct dvs)) @ rest"
  then obtain m where n: "n = Suc m" by (cases n) auto
  define d1 where "d1 = d_align 8 (d\<lparr>d_sigoff := d_sigoff d + 1\<rparr>)"
  define body where "body = marshal_list (d_order d) (d_off d1) dvs"
  define d2 where "d2 = d1\<lparr>d_off := d_off d1 + length body, d_sigoff := d_sigoff d1 + length (show_tys (map dval_ty dvs))\<rparr>"
  have d1: "d1 = d\<lparr>d_off := d_off d + padlen 8 (d_off d), d_sigoff := d_sigoff d + 1\<rparr>"
    by (simp add: d1_def d_align_eq)
  have open_sig: "\<not> length (d_sig d) \<le> d_sigoff d" "d_sig d ! d_sigoff d = CHR ''(''"
      "drop (d_sigoff d1) (d_sig d1) = show_tys (map dval_ty dvs) @ CHR '')'' # rest"
    using sig by (auto simp: d1 dest!: drop_eq_ConsD)
  have body_at: "drop (d_off d1) (d_data d1) = marshal_list (d_order d1) (d_off d1) dvs @ after"
    using drop_append_addD [of "d_off d" "d_data d" "padding 8 (d_off d)"] data by (simp add: d1)
  have ih: "\<forall>dv \<in> set dvs. decodes dv \<and> wf_dval dv" using assms by simp
  have m: "size_list size dvs < m" and len1: "length (d_data d1) < 2 ^ 32"
    and body: "marshal_list (d_order d1) (d_off d1) dvs = body"
    using size n len by (simp_all add: d1 body_def)
  note code = decode_value_struct [OF open_sig(1,2) d1_def]
  note loops = decode_fields_stored [OF ih _ m len1 body_at open_sig(3), unfolded body, folded d2_def]
    decode_ifields_stored [OF ih _ m len1 body_at open_sig(3), unfolded body, folded d2_def]
  have "drop (d_sigoff d2) (d_sig d2) = CHR '')'' # rest"
    using drop_append_addD [OF open_sig(3)] by (simp add: d2_def)
  then have close: "at_close d2" by (auto simp: at_close_def dest: drop_eq_ConsD)
  have end_pos: "d2\<lparr>d_sigoff := x\<rparr> =
      d\<lparr>d_off := d_off d + length (marshal (d_order d) (d_off d) (DStruct dvs)), d_sigoff := x\<rparr>" for x
    by (simp add: d2_def d1 body_def)
  have short: "stops_short t (DStruct dvs) = (t = TInterface)" by (simp add: stops_short_def)
  consider "kind_of t = KPtr" "kind_of (elem_type t) = KStruct" | "kind_of t = KStruct" | "t = TInterface"
    using s by (auto split: if_splits)
  then have "decode_value (Suc m) t v d =
      Inr (w, d2\<lparr>d_sigoff := d_sigoff d2 + (if t = TInterface then 0 else 1)\<rparr>)"
  proof cases
    case 1
    with s obtain ws where ws: "stored_fields (field_types (elem_type t))
        (struct_fields (ptr_target (elem_type t) v)) dvs = Some ws" "w = VPtr (VStruct ws)" by auto
    show ?thesis using code(1) [OF 1 loops(1) [OF ws(1)] close] ws(2) 1 by auto
  next
    case 2
    with s obtain ws where ws: "stored_fields (field_types t) (struct_fields v) dvs = Some ws" "w = VStruct ws"
      by auto
    show ?thesis using code(2) [OF 2 loops(1) [OF ws(1)] close] ws(2) 2 by auto
  next
    case 3
    with s obtain ws where ws: "stored_members dvs = Some ws" "w = VIface (TSlice TInterface) (VList ws)"
      by auto
    show ?thesis using code(3) [OF 3 loops(2) [OF ws(1), of "[]", unfolded append_Nil]] ws(2) 3 by simp
  qed
  then show "decode_value n t v d =
      Inr (w, d\<lparr>d_off := d_off d + length (marshal (d_order d) (d_off d) (DStruct dvs)),
               d_sigoff := d_sigoff d + (length (show_ty (dval_ty (DStruct dvs))) - (if stops_short t (DStruct dvs) then 1 else 0))\<rparr>)"
    unfolding n end_pos short by (simp add: d2_def d1)
qed

lemma wf_decodes: "wf_dval dv \<Longrightarrow> decodes dv"
proof (induction dv)
  case (DArray ty dvs)
  then show ?case by (intro decodes_array) auto
next
  case (DDict ky ty des)
  then show ?case by (intro decodes_dict) force+
next
  case (DStruct dvs)
  then show ?case by (intro decodes_struct) auto
next
  case (DVariant ty dv)
  then show ?case by (intro decodes_variant) auto
qed (auto intro: decodes_basic)

text \<open>The main lemma: decoding what was marshalled.\<close>

lemmas decode_stored = decodesD [OF wf_decodes]

text \<open>Several arguments in a row, as \<open>Decode\<close> reads them.\<close>

fun stored_args :: "arg list \<Rightarrow> dval list \<Rightarrow> gval list option" where
  "stored_args [] dvs = Some []"
| "stored_args (a # args) dvs =
     (case dvs of
        [] \<Rightarrow> None
      | dv # dvs' \<Rightarrow>
          (case a of
             NotPtr \<Rightarrow> None
           | PtrTo t v \<Rightarrow>
               if stops_short t dv then None
               else Option.bind (stored t v dv) (\<lambda>w. map_option ((#) w) (stored_args args dvs'))))"

lemma decode_args_stored:
  assumes "\<forall>dv \<in> set dvs. wf_dval dv" and "stored_args args dvs = Some ws"
    and "size_list size dvs < n" and "length (d_data d) < 2 ^ 32"
    and "drop (d_off d) (d_data d) = marshal_list (d_order d) (d_off d) dvs @ after"
    and "drop (d_sigoff d) (d_sig d) = show_tys (map dval_ty dvs) @ rest"
  shows "decode_args n args d =
    Inr (ws, d\<lparr>d_off := d_off d + length (marshal_list (d_order d) (d_off d) (take (length args) dvs)),
              d_sigoff := d_sigoff d + length (show_tys (map dval_ty (take (length args) dvs)))\<rparr>)"
  using assms
proof (induction args arbitrary: dvs d ws)
  case Nil
  then show ?case by simp
next
  case (Cons a args)
  then obtain t v dv dvs' w ws' where o: "a = PtrTo t v" "dvs = dv # dvs'" "\<not> stops_short t dv"
      "stored t v dv = Some w" "stored_args args dvs' = Some ws'" "ws = w # ws'"
    by (auto simp: bind_eq_Some_conv split: list.splits arg.splits if_splits)
  let ?b = "marshal (d_order d) (d_off d) dv"
  define d1 where "d1 = d\<lparr>d_off := d_off d + length ?b, d_sigoff := d_sigoff d + length (show_ty (dval_ty dv))\<rparr>"
  have v: "decode_value n t v d = Inr (w, d1)"
    using decode_stored [of dv t v w n d _ "show_tys (map dval_ty dvs') @ rest"] Cons.prems o
    by (auto simp: d1_def Let_def)
  have "decode_args n args d1 =
    Inr (ws', d1\<lparr>d_off := d_off d1 + length (marshal_list (d_order d1) (d_off d1) (take (length args) dvs')),
                d_sigoff := d_sigoff d1 + length (show_tys (map dval_ty (take (length args) dvs')))\<rparr>)"
    by (rule Cons.IH)
      (use Cons.prems o drop_append_addD [of "d_off d" "d_data d" ?b]
        drop_append_addD [of "d_sigoff d" "d_sig d" "show_ty (dval_ty dv)"] in \<open>auto simp: d1_def Let_def\<close>)
  then show ?case using v o by (simp add: d1_def Let_def add.assoc)
qed

end
