(* ===== verification/Codec.thy ===== *)
theory Codec
  imports Encoder DecoderWire
begin

text \<open>
  Encoder and decoder together: what a round trip through the wire does to a Go value.
  \<open>exact t v\<close> describes the values that come back unchanged when they are decoded into a variable of
  the type they were encoded at: values of the types that D-Bus has, without nil maps and slices (they
  come back empty, not nil) and with variants that hold a basic value (containers in a variant come
  back as containers of blank interfaces).
\<close>

fun basic_type :: "gotype \<Rightarrow> bool" where
  "basic_type t = (t \<in> {TUint8, TBool, TInt16, TUint16, TInt32, TUint32, TInt64, TUint64, TFloat64,
     TString, TObjectPath, TSignature})"

declare basic_type.simps [simp del]

fun exact_type :: "gotype \<Rightarrow> bool" where
  "exact_type (TArray n t) = exact_type t"
| "exact_type (TSlice t) = exact_type t"
| "exact_type (TMap k t) = (basic_type k \<and> exact_type t)"
| "exact_type (TStruct ts) = (ts \<noteq> [] \<and> (\<forall>t \<in> set ts. exact_type t))"
| "exact_type TVariant = True"
| "exact_type t = basic_type t"

text \<open>No key is equal, in Go's sense, to a later one.\<close>

fun distinct_keys :: "(gval \<times> gval) list \<Rightarrow> bool" where
  "distinct_keys [] = True"
| "distinct_keys ((a, b) # kvs) = ((\<forall>(a', b') \<in> set kvs. \<not> key_eq a' a) \<and> distinct_keys kvs)"

fun exact_val :: "gotype \<Rightarrow> gval \<Rightarrow> bool"
  and exact_vals :: "gotype list \<Rightarrow> gval list \<Rightarrow> bool" where
  "exact_val t (VString s) = (t = TSignature \<longrightarrow> length s < 256)"
| "exact_val t (VList vs) = (\<forall>v \<in> set vs. exact_val (elem_type t) v)"
| "exact_val t (VMap kvs) =
     (distinct_keys kvs \<and> (\<forall>(a, b) \<in> set kvs. exact_val (key_type t) a \<and> exact_val (elem_type t) b))"
| "exact_val t (VStruct vs) =
     (if t = TVariant then (case vs of [VIface u v] \<Rightarrow> basic_type u \<and> exact_val u v | _ \<Rightarrow> False)
      else exact_vals (field_types t) vs)"
| "exact_val t (VIface u v) = False"
| "exact_val t (VPtr v) = False"
| "exact_val t VNil = False"
| "exact_val t v = True"
| "exact_vals ts [] = True"
| "exact_vals ts (v # vs) = (case ts of [] \<Rightarrow> False | t # ts' \<Rightarrow> exact_val t v \<and> exact_vals ts' vs)"

definition exact :: "gotype \<Rightarrow> gval \<Rightarrow> bool" where
  "exact t v = (exact_type t \<and> has_type t v \<and> exact_val t v)"

section \<open>Exact values have a wire form and come back\<close>

lemma basic_type_cases:
  "basic_type t \<Longrightarrow> exact_type t \<and> plain_path t \<and> kind_of t \<noteq> KInterface \<and> under t = t \<and>
     (\<exists>c. dty_of t = Some (DBasic c))"
  by (auto simp: basic_type.simps)

lemma exact_type_wire: "exact_type t \<Longrightarrow> \<exists>d. wire_ty t = Some d"
proof (induction t)
  case (TStruct ts)
  then have "\<forall>t \<in> set ts. \<exists>d. dty_of t = Some d" using wire_ty_dty by (metis exact_type.simps(4))
  then have "\<exists>ds. dty_fields ts = Some ds" by (induction ts) auto
  then show ?case by (auto simp: wire_ty_def)
qed (auto simp: wire_ty_def basic_type.simps split: if_splits)

lemma dty_of_not_pair: "dty_of t \<noteq> Some (DPair k u)"
  by (induction t) (auto simp: dty_of_TPtr bind_eq_Some_conv simp del: is_pather.simps(3))

text \<open>
  \<open>survives t v\<close>: the value has a well-formed wire form, and decoding that into any variable of the
  type stores the value.
\<close>

definition survives :: "methods \<Rightarrow> gotype \<Rightarrow> gval \<Rightarrow> bool" where
  "survives M t v \<longleftrightarrow> (\<exists>dv. to_dval M t v = Some dv \<and> wf_dval dv \<and> \<not> stops_short t dv \<and>
     (\<forall>old. has_type t old \<longrightarrow> stored t old dv = Some v))"

lemma exact_strip: "exact_type t \<Longrightarrow> (is_pather t \<longleftrightarrow> t = TObjectPath) \<and> strip_ptrs t v = Some (t, v)"
  by (cases t) (auto simp: basic_type.simps)

lemma exact_to_dval:
  "exact_type t \<Longrightarrow> t \<noteq> TObjectPath \<Longrightarrow> to_dval M t v = kind_dval M t v"
  using exact_strip [of t v] exact_type_wire [of t] by (auto simp: to_dval.simps [of M t v])

lemma basic_survives:
  assumes "basic_type t" and "has_type t v" and "exact_val t v"
  shows "survives M t v \<and> hashable v \<and>
    (\<forall>dv. to_dval M t v = Some dv \<longrightarrow> stored TInterface VNil dv = Some (VIface t v))"
proof -
  have "t = TObjectPath \<or> to_dval M t v = kind_dval M t v"
    using exact_to_dval basic_type_cases assms(1) by blast
  then show ?thesis
    using assms
    by (cases v) (auto simp: survives_def basic_type.simps store_into_def stops_short_def wire_ty_def
        to_dval.simps [of M TObjectPath])
qed

lemma variant_survives:
  assumes "basic_type t" and "has_type t v" and "exact_val t v"
  shows "survives M TVariant (VVariant t v)"
proof -
  obtain dv where dv: "to_dval M t v = Some dv" "wf_dval dv"
      "\<forall>old. has_type t old \<longrightarrow> stored t old dv = Some v"
    using basic_survives [OF assms, of M] by (auto simp: survives_def)
  obtain c where c: "dty_of t = Some (DBasic c)" using basic_type_cases [OF assms(1)] by blast
  have w: "wire_ty t = Some (dval_ty dv)" using dv(1) by (rule dval_ty_of)
  then have ty: "dval_ty dv = DBasic c" using wire_ty_dty c by fastforce
  have "stored TInterface VNil dv = Some (VIface t v)"
    using basic_survives [OF assms, of M] dv(1) by blast
  then show ?thesis
    using dv w ty wf_dval_ty [OF dv(2)] exact_to_dval [of TVariant M]
    by (auto simp: survives_def stops_short_def)
qed

lemma list_survives:
  assumes "\<forall>v \<in> set vs. survives M t v" and "wire_ty t = Some d"
  shows "\<exists>dvs. list_dval M t vs = Some dvs \<and> (\<forall>dv \<in> set dvs. wf_dval dv \<and> dval_ty dv = d) \<and>
    stored_list t dvs = Some vs \<and>
    (\<forall>olds. length olds = length vs \<longrightarrow> (\<forall>v \<in> set olds. has_type t v) \<longrightarrow> stored_array t olds dvs = Some vs)"
  using assms
proof (induction vs)
  case (Cons v vs)
  then obtain dvs where ih: "list_dval M t vs = Some dvs" "\<forall>dv \<in> set dvs. wf_dval dv \<and> dval_ty dv = d"
      "stored_list t dvs = Some vs"
      "\<forall>olds. length olds = length vs \<longrightarrow> (\<forall>v \<in> set olds. has_type t v) \<longrightarrow> stored_array t olds dvs = Some vs"
    by auto
  from Cons.prems obtain dv where v: "to_dval M t v = Some dv" "wf_dval dv"
      "\<forall>old. has_type t old \<longrightarrow> stored t old dv = Some v"
    by (auto simp: survives_def)
  then have "dval_ty dv = d" using dval_ty_of(1) [OF v(1)] Cons.prems(2) by simp
  with ih v show ?case by (auto simp: length_Suc_conv)
qed simp

lemma map_put_last:
  "\<forall>(a', b') \<in> set es. \<not> key_eq a a' \<Longrightarrow> map_put a b es = es @ [(a, b)]"
  by (induction a b es rule: map_put.induct) auto

lemma distinct_keys_append:
  "distinct_keys (es @ [(a, b)]) = (distinct_keys es \<and> (\<forall>(a', b') \<in> set es. \<not> key_eq a a'))"
  by (induction es) auto

lemma distinct_keys_prefix: "distinct_keys (es @ kvs) \<Longrightarrow> distinct_keys es"
  by (induction es) auto

lemma entries_survive:
  assumes "\<forall>(a, b) \<in> set kvs. survives M k a \<and> hashable a \<and> survives M t b"
    and "wire_ty k = Some dk" and "wire_ty t = Some dt"
  shows "\<exists>des. entries_dval M k t kvs = Some des \<and>
    (\<forall>(a, b) \<in> set des. wf_dval a \<and> wf_dval b \<and> dval_ty a = dk \<and> dval_ty b = dt) \<and>
    (\<forall>es. distinct_keys (es @ kvs) \<longrightarrow> stored_entries k t es des = Some (es @ kvs))"
  using assms
proof (induction kvs)
  case (Cons e kvs)
  obtain a b where e: "e = (a, b)" by (cases e)
  from Cons obtain des where ih: "entries_dval M k t kvs = Some des"
      "\<forall>(a, b) \<in> set des. wf_dval a \<and> wf_dval b \<and> dval_ty a = dk \<and> dval_ty b = dt"
      "\<forall>es. distinct_keys (es @ kvs) \<longrightarrow> stored_entries k t es des = Some (es @ kvs)"
    by auto
  from Cons.prems e obtain da db where v: "to_dval M k a = Some da" "wf_dval da" "hashable a"
      "\<forall>old. has_type k old \<longrightarrow> stored k old da = Some a"
      "to_dval M t b = Some db" "wf_dval db" "\<forall>old. has_type t old \<longrightarrow> stored t old db = Some b"
    by (auto simp: survives_def)
  have ty: "dval_ty da = dk" "dval_ty db = dt"
    using dval_ty_of(1) [OF v(1)] dval_ty_of(1) [OF v(5)] Cons.prems(2,3) by simp_all
  have "stored_entries k t es ((da, db) # des) = Some (es @ (a, b) # kvs)"
    if "distinct_keys (es @ (a, b) # kvs)" for es
  proof -
    have "distinct_keys (es @ [(a, b)])" using that distinct_keys_prefix [of "es @ [(a, b)]" kvs] by simp
    then have "map_put a b es = es @ [(a, b)]"
      by (auto simp: distinct_keys_append intro: map_put_last)
    then show ?thesis using v ih(3) [rule_format, of "es @ [(a, b)]"] that by simp
  qed
  with ih(1,2) v ty e show ?case by auto
qed simp

lemma fields_survive:
  assumes "list_all2 (survives M) ts vs"
  shows "\<exists>dvs. fields_dval M ts vs = Some dvs \<and> (\<forall>dv \<in> set dvs. wf_dval dv) \<and> length dvs = length vs \<and>
    (\<forall>olds. has_types ts olds \<longrightarrow> stored_fields ts olds dvs = Some vs)"
  using assms
proof (induction rule: list_all2_induct)
  case Nil
  then show ?case by (auto elim: has_types.elims)
next
  case (Cons t ts v vs)
  then obtain dvs where ih: "fields_dval M ts vs = Some dvs" "\<forall>dv \<in> set dvs. wf_dval dv"
      "\<forall>olds. has_types ts olds \<longrightarrow> stored_fields ts olds dvs = Some vs" "length dvs = length vs"
    by auto
  from Cons obtain dv where v: "to_dval M t v = Some dv" "wf_dval dv" "\<not> stops_short t dv"
      "\<forall>old. has_type t old \<longrightarrow> stored t old dv = Some v"
    by (auto simp: survives_def)
  have "stored_fields (t # ts) olds (dv # dvs) = Some (v # vs)" if "has_types (t # ts) olds" for olds
    using that ih v by (cases olds) auto
  with ih v show ?case by auto
qed

lemma has_types_iff: "has_types ts vs = list_all2 has_type ts vs"
  by (induction ts vs rule: list_induct2') simp_all

lemma has_types_single: "has_types [t] vs = (\<exists>v. vs = [v] \<and> has_type t v)"
  by (auto simp: has_types_iff list_all2_Cons1)

lemma exact_vals_iff: "length vs = length ts \<Longrightarrow> exact_vals ts vs = list_all2 exact_val ts vs"
  by (induction vs ts rule: list_induct2) simp_all

lemma exact_type_kind: "exact_type t \<Longrightarrow> basic_type t \<or> kind_of t \<in> {KArray, KSlice, KMap, KStruct}"
  by (cases t) auto

lemma exact_survives:
  "exact_type t \<Longrightarrow> has_type t v \<Longrightarrow> exact_val t v \<Longrightarrow> survives M t v"
proof (induction v arbitrary: t)
  case (VList vs)
  then obtain u where t: "t = TSlice u \<or> t = TArray (length vs) u"
    by (cases t) (auto simp: basic_type.simps)
  then have u: "elem_type t = u" "exact_type u" "\<forall>v \<in> set vs. has_type u v \<and> exact_val u v" "t \<noteq> TObjectPath"
    using VList.prems by auto
  obtain d where d: "wire_ty u = Some d" using exact_type_wire [OF u(2)] by blast
  obtain dvs where l: "list_dval M u vs = Some dvs" "\<forall>dv \<in> set dvs. wf_dval dv \<and> dval_ty dv = d"
      "stored_list u dvs = Some vs"
      "\<forall>olds. length olds = length vs \<longrightarrow> (\<forall>v \<in> set olds. has_type u v) \<longrightarrow> stored_array u olds dvs = Some vs"
    using list_survives [OF _ d, of vs M] VList.IH u(2,3) by blast
  have "stored t old (DArray d dvs) = Some (VList vs)" if "has_type t old" for old
    using t l(3) l(4) [rule_format, of "list_elems old"] has_type_arrayD [OF that] by (elim disjE) auto
  moreover have "kind_dval M t (VList vs) = Some (DArray d dvs)" using t l(1) d by auto
  moreover have "wf_dval (DArray d dvs)"
    using l(2) dty_of_wf [OF wire_ty_dty [OF d]] dty_of_not_pair wire_ty_dty [OF d]
    by (cases d) auto
  ultimately show ?case
    using exact_to_dval [OF VList.prems(1) u(4)] by (auto simp: survives_def stops_short_def)
next
  case (VMap kvs)
  then obtain k u where t: "t = TMap k u" by (cases t) (auto simp: basic_type.simps)
  with VMap.prems have ty: "basic_type k" "exact_type u" by simp_all
  obtain c where c: "dty_of k = Some (DBasic c)" using basic_type_cases [OF ty(1)] by blast
  obtain dk du where d: "wire_ty k = Some dk" "wire_ty u = Some du"
    using exact_type_wire basic_type_cases [OF ty(1)] ty(2) by blast
  have "\<forall>(a, b) \<in> set kvs. survives M k a \<and> hashable a \<and> survives M u b"
    using VMap.prems t ty basic_survives [OF ty(1), of _ M] VMap.IH by (fastforce simp: snds.simps)
  from entries_survive [OF this d] obtain des where e: "entries_dval M k u kvs = Some des"
      "\<forall>(a, b) \<in> set des. wf_dval a \<and> wf_dval b \<and> dval_ty a = dk \<and> dval_ty b = du"
      "\<forall>es. distinct_keys (es @ kvs) \<longrightarrow> stored_entries k u es des = Some (es @ kvs)"
    by blast
  have "dk = DBasic c" using c wire_ty_dty [OF d(1)] by simp
  then show ?case
    using t VMap.prems(3) e d exact_to_dval [OF VMap.prems(1)] dty_of_wf [OF wire_ty_dty] 
    by (fastforce simp: survives_def stops_short_def)
next
  case (VStruct vs)
  show ?case
  proof (cases "t = TVariant")
    case True
    with VStruct.prems obtain u v where "vs = [VIface u v]" "basic_type u" "exact_val u v" "has_type u v"
      by (auto simp: has_types_single split: list.splits gval.splits simp del: has_types.simps)
    with True show ?thesis using variant_survives by simp
  next
    case False
    then obtain ts where t: "t = TStruct ts" using VStruct.prems by (cases t) (auto simp: basic_type.simps)
    with VStruct.prems have "list_all2 has_type ts vs" "\<forall>t \<in> set ts. exact_type t"
      by (simp_all add: has_types_iff)
    moreover have "list_all2 exact_val ts vs"
      using VStruct.prems t calculation(1) by (simp add: exact_vals_iff list_all2_lengthD)
    ultimately have "list_all2 (survives M) ts vs"
      using VStruct.IH by (auto simp: list_all2_conv_all_nth)
    from fields_survive [OF this] obtain dvs where f: "fields_dval M ts vs = Some dvs" "\<forall>dv \<in> set dvs. wf_dval dv"
      "length dvs = length vs" "\<forall>olds. has_types ts olds \<longrightarrow> stored_fields ts olds dvs = Some vs"
      by blast
    have "stored t old (DStruct dvs) = Some (VStruct vs)" if "has_type t old" for old
      using has_type_structD [OF that] t f(4) by auto
    moreover have "dvs \<noteq> []" using VStruct.prems(1,2) t f(3) by (auto simp: has_types_iff)
    ultimately show ?thesis
      using t f VStruct.prems exact_to_dval [OF VStruct.prems(1)]
      by (auto simp: survives_def stops_short_def)
  qed
qed (rule conjunct1 [OF basic_survives]; force dest: exact_type_kind kind_of_underD)+

section \<open>The round trip\<close>

text \<open>What \<open>Append\<close> of several arguments leaves in the encoder.\<close>

fun args_dval :: "methods \<Rightarrow> (gotype \<times> gval) list \<Rightarrow> dval list option" where
  "args_dval M [] = Some []"
| "args_dval M ((t, v) # args) =
     Option.bind (to_dval M t v) (\<lambda>dv. map_option ((#) dv) (args_dval M args))"

lemma e_append_marshal:
  "args_dval M args = Some dvs \<Longrightarrow> \<forall>dv \<in> set dvs. array_safe dv \<Longrightarrow>
   e_append M args e =
     Inr (e_write (marshal_list (e_order e) (length (e_data e)) dvs)
            (e\<lparr>e_sig := e_sig e @ show_tys (map dval_ty dvs)\<rparr>))"
proof (induction args arbitrary: e dvs)
  case Nil
  then show ?case by simp
next
  case (Cons a args)
  obtain t v where a: "a = (t, v)" by (cases a)
  with Cons.prems(1) obtain dv dvs' where d: "to_dval M t v = Some dv" "args_dval M args = Some dvs'"
      "dvs = dv # dvs'"
    by (auto simp: bind_eq_Some_conv)
  show ?case
    using append_marshal(1) [OF d(1)] Cons.IH [OF d(2)] Cons.prems(2) by (simp add: a d(3) Let_def)
qed

lemma exact_args:
  assumes "\<forall>(t, v) \<in> set args. exact t v"
    and "list_all2 (\<lambda>(t, v) old. has_type t old) args olds"
  shows "\<exists>dvs. args_dval M args = Some dvs \<and> (\<forall>dv \<in> set dvs. wf_dval dv) \<and> length dvs = length args \<and>
    stored_args (map2 (\<lambda>(t, v) old. PtrTo t old) args olds) dvs = Some (map snd args)"
  using assms(2,1)
proof (induction rule: list_all2_induct)
  case (Cons a args old olds)
  obtain t v where a: "a = (t, v)" by (cases a)
  have "survives M t v" using Cons.prems a by (auto simp: exact_def intro: exact_survives)
  with Cons a show ?case by (fastforce simp: survives_def)
qed simp

end
