(* ===== verification/DecoderTermination.thy ===== *)
theory DecoderTermination
  imports Decoder
begin

text \<open>
  When the decoder stops. The loops of \<open>decodeValue\<close> over the contents of an array run while the
  data offset is before the end of the array; an element that takes no bytes makes them run for ever.
  The only types without bytes are built from structs without members, which the grammar of
  \<open>Signature.Validate\<close> admits. This theory shows that these are the only danger: if neither the
  signature nor the data (where the signatures of variants come from) contains an opening parenthesis
  directly followed by a closing one, a number of steps computed from the lengths of both is enough;
  and that the danger is real, with an input on which no number of steps is.
\<close>

section \<open>What a successful call moves\<close>

lemma decode_array_cases:
  assumes r: "decode_value (Suc n) t v d = Inr (w, d')" and a: "d_sig d ! d_sigoff d = CHR ''a''"
  obtains len d1 afterElem d2 d3 where
    "read_uint32 (d\<lparr>d_sigoff := d_sigoff d + 1\<rparr>) = Inr (len, d1)"
    "next_type (d_sig d1) (d_sigoff d1) = Inr afterElem"
    "d2 = (if d_sig d1 ! d_sigoff d1 \<in> set ''xtd({'' then d_align 8 d1 else d1)"
    "d_off d2 + unat len \<le> length (d_data d2)"
    "d' = d3\<lparr>d_sigoff := afterElem\<rparr>"
    "(\<exists>u vs ws. decode_array n u vs 0 (d_off d2 + unat len) (d_sigoff d1) d2 = Inr (ws, d3)) \<or>
     (\<exists>u ws. decode_slice n u [] (d_off d2 + unat len) (d_sigoff d1) d2 = Inr (ws, d3)) \<or>
     (\<exists>k u voff kvs. decode_map n k u [] (d_off d2 + unat len) (d_sigoff d1 + 1) voff d2 = Inr (kvs, d3)) \<or>
     d3 = d2"
proof -
  have bound: "\<not> length (d_sig d) \<le> d_sigoff d" using r by auto
  note r = r [unfolded decode_value.simps(2) [of n t v d] Let_def if_not_P [OF bound] a]
  from r obtain len d1 afterElem where l: "read_uint32 (d\<lparr>d_sigoff := d_sigoff d + 1\<rparr>) = Inr (len, d1)"
      "next_type (d_sig d1) (d_sigoff d1) = Inr afterElem"
    by (auto simp: ebind_Inr_iff basic_read_codes_def)
  define d2 where "d2 = (if d_sig d1 ! d_sigoff d1 \<in> set ''xtd({'' then d_align 8 d1 else d1)"
  have ab: "CHR ''a'' \<notin> set basic_read_codes" by (simp add: basic_read_codes_def)
  note r = r [unfolded if_not_P [OF ab] if_P [OF refl] l ebind_simps prod.case d2_def [symmetric]]
  from r have b: "\<not> length (d_data d2) < d_off d2 + unat len" by auto
  note r = r [unfolded if_not_P [OF b]]
  from r have "\<exists>d3. d' = d3\<lparr>d_sigoff := afterElem\<rparr> \<and>
    ((\<exists>u vs ws. decode_array n u vs 0 (d_off d2 + unat len) (d_sigoff d1) d2 = Inr (ws, d3)) \<or>
     (\<exists>u ws. decode_slice n u [] (d_off d2 + unat len) (d_sigoff d1) d2 = Inr (ws, d3)) \<or>
     (\<exists>k u voff kvs. decode_map n k u [] (d_off d2 + unat len) (d_sigoff d1 + 1) voff d2 = Inr (kvs, d3)) \<or>
     d3 = d2)"
    by (auto simp: ebind_Inr_iff split: if_splits) blast+
  then show thesis using that [OF l d2_def leI [OF b]] by blast
qed

text \<open>
  \<open>moved k\<close>: the input is the same, the data offset did not go back and the signature offset
  went forward by \<open>k\<close> at least.
\<close>

definition moved :: "nat \<Rightarrow> decoder \<Rightarrow> decoder \<Rightarrow> bool" where
  "moved k d d' \<longleftrightarrow> same_input d d' \<and> d_off d \<le> d_off d' \<and> d_sigoff d + k \<le> d_sigoff d'"

definition kept :: "decoder \<Rightarrow> decoder \<Rightarrow> bool" where
  "kept d d' \<longleftrightarrow> same_input d d' \<and> d_off d \<le> d_off d'"

lemmas moved_simps = moved_def kept_def same_input_def

lemma kept_refl [simp]: "kept d d"
  by (simp add: kept_def)

lemma decode_moves:
  "(\<forall>t v d w d'. decode_value n t v d = Inr (w, d') \<longrightarrow> moved 1 d d') \<and>
   (\<forall>t vs i e s d ws d'. decode_array n t vs i e s d = Inr (ws, d') \<longrightarrow> kept d d') \<and>
   (\<forall>t vs e s d ws d'. decode_slice n t vs e s d = Inr (ws, d') \<longrightarrow> kept d d') \<and>
   (\<forall>k t kvs e s voff d des d'. decode_map n k t kvs e s voff d = Inr (des, d') \<longrightarrow> kept d d') \<and>
   (\<forall>ts vs d ws d'. decode_fields n ts vs d = Inr (ws, d') \<longrightarrow> moved 0 d d') \<and>
   (\<forall>vs d ws d'. decode_ifields n vs d = Inr (ws, d') \<longrightarrow> moved 0 d d')"
proof (induction n)
  case 0
  show ?case by simp
next
  case (Suc n)
  then have IH:
    "\<And>t v d w d'. decode_value n t v d = Inr (w, d') \<Longrightarrow> moved 1 d d'"
    "\<And>t vs i e s d ws d'. decode_array n t vs i e s d = Inr (ws, d') \<Longrightarrow> kept d d'"
    "\<And>t vs e s d ws d'. decode_slice n t vs e s d = Inr (ws, d') \<Longrightarrow> kept d d'"
    "\<And>k t kvs e s voff d des d'. decode_map n k t kvs e s voff d = Inr (des, d') \<Longrightarrow> kept d d'"
    "\<And>ts vs d ws d'. decode_fields n ts vs d = Inr (ws, d') \<Longrightarrow> moved 0 d d'"
    "\<And>vs d ws d'. decode_ifields n vs d = Inr (ws, d') \<Longrightarrow> moved 0 d d'"
    by metis+
  show ?case
  proof (intro conjI allI impI)
    fix t v d w d'
    assume r0: "decode_value (Suc n) t v d = Inr (w, d')"
    define c where "c = d_sig d ! d_sigoff d"
    define d0 where "d0 = d\<lparr>d_sigoff := d_sigoff d + 1\<rparr>"
    have bound: "\<not> length (d_sig d) \<le> d_sigoff d" using r0 by auto
    note r = r0 [unfolded decode_value.simps(2) Let_def if_not_P [OF bound] c_def [symmetric] d0_def [symmetric]]
    have d0: "d_off d0 = d_off d" "d_sigoff d0 = d_sigoff d + 1" "same_input d d0" by (simp_all add: d0_def)
    consider "c \<in> set basic_read_codes" | "c = CHR ''a''" | "c = CHR ''(''" | "c = CHR ''v''"
      using r by (auto split: if_splits)
    then show "moved 1 d d'"
    proof cases
      case 1
      with r d0 show ?thesis
        by (auto simp: ebind_Inr_iff moved_simps advanced_def dest!: read_basic_advanced)
    next
      case 2
      from decode_array_cases [OF r0 2 [unfolded c_def]] obtain len d1 after d2 d3 where l:
          "read_uint32 d0 = Inr (len, d1)" "next_type (d_sig d1) (d_sigoff d1) = Inr after"
          "d2 = d1 \<or> d2 = d_align 8 d1" "kept d2 d3" "d' = d3\<lparr>d_sigoff := after\<rparr>"
        unfolding d0_def by (metis IH(2-4) kept_refl)
      from read_advanced(5) [OF l(1)] next_type_bounds [OF l(2)] l(3-5) d0 show ?thesis
        by (auto simp: moved_simps advanced_def d_align_eq)
    next
      case 3
      then show ?thesis using r 
        by (auto simp: ebind_Inr_iff basic_read_codes_def d_align_eq d0_def moved_simps split: if_splits
          dest!: IH(5,6))
    next
      case 4
      then show ?thesis using r
        by (auto simp: ebind_Inr_iff basic_read_codes_def moved_simps advanced_def d0_def split: if_splits
          dest!: IH(1) read_signature_advanced)
    qed
  next
    fix t vs i e s d ws d'
    assume "decode_array (Suc n) t vs i e s d = Inr (ws, d')"
    then show "kept d d'"
      by (auto simp: ebind_Inr_iff moved_simps split: if_splits dest!: IH(1,2))
  next
    fix t vs e s d ws d'
    assume "decode_slice (Suc n) t vs e s d = Inr (ws, d')"
    then show "kept d d'"
      by (auto simp: ebind_Inr_iff moved_simps split: if_splits dest!: IH(1,3))
  next
    fix k t kvs e s voff d des d'
    assume "decode_map (Suc n) k t kvs e s voff d = Inr (des, d')"
    then show "kept d d'"
      by (auto simp: ebind_Inr_iff moved_simps d_align_eq split: if_splits option.splits dest!: IH(1,4))
  next
    fix ts vs d ws d'
    assume "decode_fields (Suc n) ts vs d = Inr (ws, d')"
    then show "moved 0 d d'"
      by (auto simp: ebind_Inr_iff moved_simps split: if_splits list.splits dest!: IH(1,5))
  next
    fix vs d ws d'
    assume "decode_ifields (Suc n) vs d = Inr (ws, d')"
    then show "moved 0 d d'"
      by (auto simp: ebind_Inr_iff moved_simps split: if_splits list.splits dest!: IH(1,6))
  qed
qed

lemma decode_value_moved: "decode_value n t v d = Inr (w, d') \<Longrightarrow> moved 1 d d'"
  by (metis decode_moves)

lemma decode_fields_moved: "decode_fields n ts vs d = Inr (ws, d') \<Longrightarrow> moved 0 d d'"
  by (metis decode_moves)

lemma decode_ifields_moved: "decode_ifields n vs d = Inr (ws, d') \<Longrightarrow> moved 0 d d'"
  by (metis decode_moves)

section \<open>Every element takes a byte\<close>

text \<open>No opening parenthesis is directly followed by a closing one.\<close>

fun no_unit :: "string \<Rightarrow> bool" where
  "no_unit (a # b # cs) = (\<not> (a = CHR ''('' \<and> b = CHR '')'') \<and> no_unit (b # cs))"
| "no_unit cs = True"

lemma no_unit_iff:
  "no_unit s \<longleftrightarrow> (\<forall>i. Suc i < length s \<longrightarrow> s ! i = CHR ''('' \<longrightarrow> s ! Suc i \<noteq> CHR '')'')"
proof (induction s rule: no_unit.induct)
  case (1 a b cs)
  then show ?case
    by (auto simp: less_Suc_eq_0_disj nth_Cons' split: if_splits)
qed auto

lemma no_unit_take_drop: "no_unit s \<Longrightarrow> no_unit (take k (drop j s))"
  by (auto simp: no_unit_iff)

lemma next_struct_member:
  assumes "next_type sig i = Inr e" and "sig ! i = CHR ''(''" and "no_unit sig"
  shows "Suc i < length sig \<and> sig ! Suc i \<noteq> CHR '')'' \<and> (\<exists>e'. next_type sig (Suc i) = Inr e')"
proof -
  have i: "i < length sig" using next_type_bounds [OF assms(1)] by simp
  then have ns: "next_struct sig (Suc i) = Inr e"
    using assms(1,2) by (simp add: next_type.simps [of sig i])
  have "next_type sig (Suc i) \<noteq> Inl x" if "\<not> (Suc i < length sig \<and> sig ! Suc i = CHR '')'')" for x
    using ns that by (auto simp: next_struct.simps [of sig "Suc i"])
  moreover have "\<not> (Suc i < length sig \<and> sig ! Suc i = CHR '')'')"
    using assms(2,3) by (auto simp: no_unit_iff)
  ultimately show ?thesis
    using next_type_bounds by (cases "next_type sig (Suc i)") auto
qed

lemma decode_strict:
  "decode_value n t v d = Inr (w, d') \<Longrightarrow> next_type (d_sig d) (d_sigoff d) = Inr e \<Longrightarrow>
   no_unit (d_sig d) \<Longrightarrow> d_off d < d_off d'"
proof (induction n arbitrary: t v d w d' e rule: less_induct)
  case (less n)
  note r0 = less.prems(1)
  then obtain m where n: "n = Suc m" by (cases n) auto
  define c where "c = d_sig d ! d_sigoff d"
  define d0 where "d0 = d\<lparr>d_sigoff := d_sigoff d + 1\<rparr>"
  have bound: "\<not> length (d_sig d) \<le> d_sigoff d" using r0 n by auto
  note r = r0 [unfolded n decode_value.simps(2) Let_def if_not_P [OF bound] c_def [symmetric] d0_def [symmetric]]
  consider "c \<in> set basic_read_codes" | "c = CHR ''a''" | "c = CHR ''(''" | "c = CHR ''v''"
    using r by (auto split: if_splits)
  then show ?case
  proof cases
    case 1
    with r show ?thesis
      by (auto simp: ebind_Inr_iff advanced_def d0_def dest!: read_basic_advanced)
  next
    case 2
    from decode_array_cases [OF r0 [unfolded n] 2 [unfolded c_def]] obtain len d1 after d2 d3 where l:
        "read_uint32 d0 = Inr (len, d1)" "d2 = d1 \<or> d2 = d_align 8 d1" "kept d2 d3" "d' = d3\<lparr>d_sigoff := after\<rparr>"
      unfolding d0_def by (metis decode_moves kept_refl)
    from read_advanced(5) [OF l(1)] l(2-4) show ?thesis
      by (auto simp: moved_simps advanced_def d_align_eq d0_def)
  next
    case 3
    let ?d = "d_align 8 d0"
    have mem: "Suc (d_sigoff d) < length (d_sig d)" "d_sig d ! Suc (d_sigoff d) \<noteq> CHR '')''"
        "\<exists>e'. next_type (d_sig d) (Suc (d_sigoff d)) = Inr e'"
      using next_struct_member [OF less.prems(2) _ less.prems(3)] 3 c_def by auto
    have d0: "d_sig ?d = d_sig d" "d_sigoff ?d = Suc (d_sigoff d)" "d_off d \<le> d_off ?d"
      by (simp_all add: d_align_eq d0_def)
    have first: "d_off ?d < d_off d1" if "decode_value k t v ?d = Inr (w, d1)" "k < n" for k t v w d1
      using less.IH [OF that(2,1)] mem(3) less.prems(3) d0 by auto
    have fields: "d_off ?d < d_off d2"
      if f: "decode_fields m ts vs ?d = Inr (ws, d2)" and close: "at_close d2" for ts vs ws d2
    proof -
      have "d2 \<noteq> ?d" using close mem(2) d0 by (auto simp: at_close_def)
      with f obtain k where "m = Suc k" by (cases m) auto
      with f \<open>d2 \<noteq> ?d\<close> n obtain t v w d1 ts' vs' ws' where
          "decode_value k t v ?d = Inr (w, d1)" "decode_fields k ts' vs' d1 = Inr (ws', d2)" "k < n"
        by (auto simp: ebind_Inr_iff split: list.splits if_splits)
      then show ?thesis using first decode_fields_moved by (fastforce simp: moved_def)
    qed
    have ifields: "d_off ?d < d_off d2" if f: "decode_ifields m [] ?d = Inr (ws, d2)" for ws d2
    proof -
      from f obtain k where "m = Suc k" by (cases m) auto
      with f n mem d0 obtain w d1 where
          "decode_value k TInterface VNil ?d = Inr (w, d1)" "decode_ifields k [w] d1 = Inr (ws, d2)" "k < n"
        by (auto simp: ebind_Inr_iff)
      then show ?thesis using first decode_ifields_moved by (fastforce simp: moved_def)
    qed
    have "d_off ?d < d_off d'"
      using r 3 by (auto simp: ebind_Inr_iff basic_read_codes_def split: if_splits dest: fields ifields)
    with d0 show ?thesis by simp
  next
    case 4
    then show ?thesis using r
      by (auto simp: ebind_Inr_iff basic_read_codes_def moved_simps advanced_def d0_def split: if_splits
        dest!: decode_value_moved read_signature_advanced)
  qed
qed

section \<open>Enough fuel\<close>

text \<open>\<open>settles m\<close>: the call did not run out.\<close>

definition settles :: "('e, 'a) outcome \<Rightarrow> bool" where
  "settles m \<longleftrightarrow> m \<noteq> Inl OutOfFuel"

named_theorems settle_intro \<open>calls that do not run out, by the shape of the code\<close>

lemma settles_ebind [settle_intro]:
  "settles m \<Longrightarrow> (\<And>x. m = Inr x \<Longrightarrow> settles (f x)) \<Longrightarrow> settles (ebind m f)"
  by (cases m) (auto simp: settles_def)

lemma settles_if [settle_intro]:
  "(b \<Longrightarrow> settles x) \<Longrightarrow> (\<not> b \<Longrightarrow> settles y) \<Longrightarrow> settles (if b then x else y)"
  by simp

lemma settles_prod [settle_intro]:
  "(\<And>a b. p = (a, b) \<Longrightarrow> settles (f a b)) \<Longrightarrow> settles (case p of (a, b) \<Rightarrow> f a b)"
  by (cases p) simp

lemma settles_list [settle_intro]:
  "settles x \<Longrightarrow> (\<And>a as. xs = a # as \<Longrightarrow> settles (f a as)) \<Longrightarrow>
   settles (case xs of [] \<Rightarrow> x | a # as \<Rightarrow> f a as)"
  by (cases xs) simp_all

lemma settles_simps [simp]:
  "settles (Inr x)" "settles (Inl (Error e))" "settles (Inl (Panic s))" "settles (read_uint32 d)"
  "settles (read_signature d)" "settles (read_basic c d)" "settles (store_basic c t nv)"
  by (simp_all add: settles_def read_no_fuel)

lemma next_no_fuel: "next_type sig i \<noteq> Inl OutOfFuel" "next_struct sig i \<noteq> Inl OutOfFuel"
proof (induction sig i and sig i rule: next_type_next_struct.induct)
  case (1 sig offset)
  then show ?case by (auto simp: next_type.simps [of sig offset] Let_def split: sum.splits)
next
  case (2 sig pos)
  then show ?case by (auto simp: next_struct.simps [of sig pos] split: sum.splits)
qed

lemma settles_next [simp]: "settles (next_type sig i)"
  by (simp add: settles_def next_no_fuel)

text \<open>
  With \<open>r\<close> bytes of data and \<open>s\<close> characters of signature left, and no signature longer than \<open>b\<close>,
  one value needs \<open>decode_fuel b r s\<close> steps at most: every member of a struct uses up signature, every
  element of an array and every variant uses up data.
\<close>

definition decode_fuel :: "nat \<Rightarrow> nat \<Rightarrow> nat \<Rightarrow> nat" where
  "decode_fuel b r s = r * (2 * b + 4) + 2 * s + 2"

definition loop_fuel :: "nat \<Rightarrow> nat \<Rightarrow> nat" where
  "loop_fuel b r = r * (2 * b + 4) + 2 * b + 3"

lemma fuel_less:
  "r < r' \<Longrightarrow> s \<le> b \<Longrightarrow> decode_fuel b r s < decode_fuel b r' s'"
  "r < r' \<Longrightarrow> loop_fuel b r < decode_fuel b r' s'"
  "r < r' \<Longrightarrow> loop_fuel b r < loop_fuel b r'"
  "r \<le> r' \<Longrightarrow> s \<le> b \<Longrightarrow> decode_fuel b r s < loop_fuel b r'"
  "r \<le> r' \<Longrightarrow> s < s' \<Longrightarrow> decode_fuel b r s + 1 < decode_fuel b r' s'"
proof -
  let ?k = "2 * b + 4"
  have step: "r * ?k + ?k \<le> r' * ?k" if "r < r'"
    using mult_le_mono1 [of "Suc r" r' ?k] that by simp
  have mono: "r * ?k \<le> r' * ?k" if "r \<le> r'" using that by (rule mult_le_mono1)
  show "r < r' \<Longrightarrow> s \<le> b \<Longrightarrow> decode_fuel b r s < decode_fuel b r' s'"
    using step unfolding decode_fuel_def by linarith
  show "r < r' \<Longrightarrow> loop_fuel b r < decode_fuel b r' s'"
    using step unfolding decode_fuel_def loop_fuel_def by linarith
  show "r < r' \<Longrightarrow> loop_fuel b r < loop_fuel b r'"
    using step unfolding loop_fuel_def by linarith
  show "r \<le> r' \<Longrightarrow> s \<le> b \<Longrightarrow> decode_fuel b r s < loop_fuel b r'"
    using mono unfolding decode_fuel_def loop_fuel_def by linarith
  show "r \<le> r' \<Longrightarrow> s < s' \<Longrightarrow> decode_fuel b r s + 1 < decode_fuel b r' s'"
    using mono unfolding decode_fuel_def by linarith
qed

text \<open>The inputs considered: bounded signature, no unit struct in it nor in the data.\<close>

definition tame :: "nat \<Rightarrow> decoder \<Rightarrow> bool" where
  "tame b d \<longleftrightarrow> length (d_sig d) \<le> b \<and> 255 \<le> b \<and> no_unit (d_sig d) \<and> no_unit (string_of (d_data d))"

definition bytes_left :: "decoder \<Rightarrow> nat" where
  "bytes_left d = length (d_data d) - d_off d"

definition codes_left :: "decoder \<Rightarrow> nat" where
  "codes_left d = length (d_sig d) - d_sigoff d"

text \<open>One element of an array: it needs less than the loop, and leaves fewer bytes.\<close>

lemma tame_upd [simp]: "tame b (d\<lparr>d_off := x\<rparr>) = tame b d" "tame b (d\<lparr>d_sigoff := y\<rparr>) = tame b d"
  by (simp_all add: tame_def)

lemma tame_same: "same_input d d' \<Longrightarrow> tame b d' = tame b d"
  by (simp add: tame_def same_input_def)

lemma left_upd [simp]:
  "bytes_left (d\<lparr>d_sigoff := y\<rparr>) = bytes_left d" "codes_left (d\<lparr>d_off := x\<rparr>) = codes_left d"
  by (simp_all add: bytes_left_def codes_left_def)

lemma codes_left_tame: "tame b d \<Longrightarrow> codes_left d \<le> b"
  by (auto simp: tame_def codes_left_def)

lemma element_fuel:
  "tame b d \<Longrightarrow> bytes_left d \<le> r \<Longrightarrow> loop_fuel b r \<le> Suc n \<Longrightarrow> decode_fuel b (bytes_left d) (codes_left d) \<le> n"
  using fuel_less(4) [of "bytes_left d" r "codes_left d" b] codes_left_tame [of b d] by linarith

lemma element_step:
  assumes "decode_value m t v d = Inr (w, d')" and "tame b d" and "\<exists>a. next_type (d_sig d) (d_sigoff d) = Inr a"
    and "d_off d0 \<le> d_off d" and "d_off d0 < e" and "e \<le> length (d_data d0)" and "same_input d0 d"
  shows "same_input d0 d'" and "tame b d'" and "bytes_left d' < bytes_left d0"
    and "loop_fuel b (bytes_left d0) \<le> Suc n \<Longrightarrow> loop_fuel b (bytes_left d') \<le> n"
proof -
  have s: "same_input d d'" using decode_value_moved [OF assms(1)] by (simp add: moved_def)
  show same: "same_input d0 d'" using assms(7) s by (rule same_input_trans)
  show "tame b d'" using assms(2) tame_same [OF s] by simp
  have "no_unit (d_sig d)" using assms(2) by (simp add: tame_def)
  then have "d_off d < d_off d'" using decode_strict [OF assms(1)] assms(3) by blast
  then show "bytes_left d' < bytes_left d0"
    using assms(4-6) same by (simp add: bytes_left_def same_input_def)
  then show "loop_fuel b (bytes_left d0) \<le> Suc n \<Longrightarrow> loop_fuel b (bytes_left d') \<le> n"
    using fuel_less(3) [of "bytes_left d'" "bytes_left d0" b] by linarith
qed

text \<open>One member of a struct: it leaves less signature, and no more data.\<close>

lemma member_step:
  assumes "decode_value m t v d = Inr (w, d')" and "tame b d" and "d_sigoff d < length (d_sig d)"
    and "decode_fuel b (bytes_left d) (codes_left d) < Suc n"
  shows "tame b d'" and "decode_fuel b (bytes_left d') (codes_left d') < n"
proof -
  have m: "moved 1 d d'" by (rule decode_value_moved [OF assms(1)])
  then show "tame b d'" using assms(2) tame_same [of d d'] by (simp add: moved_def)
  have "bytes_left d' \<le> bytes_left d" "codes_left d' < codes_left d"
    using m assms(3) by (auto simp: moved_def same_input_def bytes_left_def codes_left_def)
  then show "decode_fuel b (bytes_left d') (codes_left d') < n"
    using fuel_less(5) [of "bytes_left d'" "bytes_left d" "codes_left d'" "codes_left d" b] assms(4) by linarith
qed

text \<open>The value of a variant: its signature comes from the data, and has taken at least one byte.\<close>

lemma variant_step:
  assumes "read_signature d0 = Inr (sig, d1)" and "tame b d" and "d0 = d\<lparr>d_sigoff := d_sigoff d + 1\<rparr>"
    and "decode_fuel b (bytes_left d) (codes_left d) \<le> Suc n"
  defines "sub \<equiv> d1\<lparr>d_sig := sig, d_sigoff := 0\<rparr>"
  shows "tame b sub" and "decode_fuel b (bytes_left sub) (codes_left sub) \<le> n"
proof -
  from read_signature_advanced [OF assms(1)] have r: "advanced d0 d1" "length sig < 256"
      "sig = string_of (take (length sig) (drop (d_off d0 + 1) (d_data d0)))" by blast+
  have "no_unit (string_of (d_data d))" "255 \<le> b" using assms(2) by (simp_all add: tame_def)
  moreover have "no_unit sig"
    using no_unit_take_drop [OF calculation(1), of "length sig" "d_off d + 1"] r(3) assms(3)
    by (simp add: string_of_def take_map drop_map)
  ultimately show t: "tame b sub"
    using r(1,2) assms(3) by (simp add: tame_def sub_def advanced_def same_input_def)
  have "bytes_left sub < bytes_left d"
    using r(1) assms(3) by (auto simp: sub_def bytes_left_def advanced_def same_input_def)
  then show "decode_fuel b (bytes_left sub) (codes_left sub) \<le> n"
    using fuel_less(1) [of "bytes_left sub" "bytes_left d" "codes_left sub" b "codes_left d"]
      codes_left_tame [OF t] assms(4) by linarith
qed

lemma next_pair:
  "next_type sig i = Inr e \<Longrightarrow> sig ! i = CHR ''{'' \<Longrightarrow> \<exists>e'. next_type sig (Suc i) = Inr e'"
  by (auto simp: next_type.simps [of sig i] split: if_splits sum.splits)

lemma decode_settles:
  "(\<forall>t v d. tame b d \<longrightarrow> decode_fuel b (bytes_left d) (codes_left d) \<le> n \<longrightarrow> settles (decode_value n t v d)) \<and>
   (\<forall>t vs i e s d. tame b d \<longrightarrow> e \<le> length (d_data d) \<longrightarrow> (\<exists>a. next_type (d_sig d) s = Inr a) \<longrightarrow>
      loop_fuel b (bytes_left d) \<le> n \<longrightarrow> settles (decode_array n t vs i e s d)) \<and>
   (\<forall>t vs e s d. tame b d \<longrightarrow> e \<le> length (d_data d) \<longrightarrow> (\<exists>a. next_type (d_sig d) s = Inr a) \<longrightarrow>
      loop_fuel b (bytes_left d) \<le> n \<longrightarrow> settles (decode_slice n t vs e s d)) \<and>
   (\<forall>k t kvs e s voff d. tame b d \<longrightarrow> e \<le> length (d_data d) \<longrightarrow> (\<exists>a. next_type (d_sig d) s = Inr a) \<longrightarrow>
      loop_fuel b (bytes_left d) \<le> n \<longrightarrow> settles (decode_map n k t kvs e s voff d)) \<and>
   (\<forall>ts vs d. tame b d \<longrightarrow> decode_fuel b (bytes_left d) (codes_left d) < n \<longrightarrow> settles (decode_fields n ts vs d)) \<and>
   (\<forall>vs d. tame b d \<longrightarrow> decode_fuel b (bytes_left d) (codes_left d) < n \<longrightarrow> settles (decode_ifields n vs d))"
proof (induction n)
  case 0
  show ?case by (auto simp: decode_fuel_def loop_fuel_def)
next
  case (Suc n)
  then have IH:
    "\<And>t v d. tame b d \<Longrightarrow> decode_fuel b (bytes_left d) (codes_left d) \<le> n \<Longrightarrow> settles (decode_value n t v d)"
    "\<And>t vs i e s d. tame b d \<Longrightarrow> e \<le> length (d_data d) \<Longrightarrow> \<exists>a. next_type (d_sig d) s = Inr a \<Longrightarrow>
      loop_fuel b (bytes_left d) \<le> n \<Longrightarrow> settles (decode_array n t vs i e s d)"
    "\<And>t vs e s d. tame b d \<Longrightarrow> e \<le> length (d_data d) \<Longrightarrow> \<exists>a. next_type (d_sig d) s = Inr a \<Longrightarrow>
      loop_fuel b (bytes_left d) \<le> n \<Longrightarrow> settles (decode_slice n t vs e s d)"
    "\<And>k t kvs e s voff d. tame b d \<Longrightarrow> e \<le> length (d_data d) \<Longrightarrow> \<exists>a. next_type (d_sig d) s = Inr a \<Longrightarrow>
      loop_fuel b (bytes_left d) \<le> n \<Longrightarrow> settles (decode_map n k t kvs e s voff d)"
    "\<And>ts vs d. tame b d \<Longrightarrow> decode_fuel b (bytes_left d) (codes_left d) < n \<Longrightarrow> settles (decode_fields n ts vs d)"
    "\<And>vs d. tame b d \<Longrightarrow> decode_fuel b (bytes_left d) (codes_left d) < n \<Longrightarrow> settles (decode_ifields n vs d)"
    by metis+
  show ?case
  proof (intro conjI allI impI)
    fix t vs i e s d
    assume a: "tame b d" "e \<le> length (d_data d)" "\<exists>a. next_type (d_sig d) s = Inr a"
      "loop_fuel b (bytes_left d) \<le> Suc n"
    show "settles (decode_array (Suc n) t vs i e s d)"
      unfolding decode_array.simps(2)
    proof (intro settle_intro, goal_cases)
      case 1
      then show ?case using a element_fuel [of b "d\<lparr>d_sigoff := s\<rparr>" "bytes_left d" n] by (intro IH(1)) simp_all
    next
      case (2 x w d1)
      with a element_step [of n t _ "d\<lparr>d_sigoff := s\<rparr>" w d1 b d e] show ?case
        by (intro IH(2)) (simp_all add: same_input_def)
    qed simp_all
  next
    fix t vs e s d
    assume a: "tame b d" "e \<le> length (d_data d)" "\<exists>a. next_type (d_sig d) s = Inr a"
      "loop_fuel b (bytes_left d) \<le> Suc n"
    show "settles (decode_slice (Suc n) t vs e s d)"
      unfolding decode_slice.simps(2)
    proof (intro settle_intro, goal_cases)
      case 1
      then show ?case using a element_fuel [of b "d\<lparr>d_sigoff := s\<rparr>" "bytes_left d" n] by (intro IH(1)) simp_all
    next
      case (2 x w d1)
      with a element_step [of n t _ "d\<lparr>d_sigoff := s\<rparr>" w d1 b d e] show ?case
        by (intro IH(3)) (simp_all add: same_input_def)
    qed simp_all
  next
    fix k t kvs e s voff d
    assume a: "tame b d" "e \<le> length (d_data d)" "\<exists>a. next_type (d_sig d) s = Inr a"
      "loop_fuel b (bytes_left d) \<le> Suc n"
    let ?d = "(d_align 8 d)\<lparr>d_sigoff := s\<rparr>"
    have al: "tame b ?d" "bytes_left ?d \<le> bytes_left d" "same_input d ?d" "d_sig ?d = d_sig d"
        "d_sigoff ?d = s" "d_off d \<le> d_off ?d"
      using a(1) by (simp_all add: d_align_eq bytes_left_def)
    show "settles (decode_map (Suc n) k t kvs e s voff d)"
      unfolding decode_map.simps(2)
    proof (intro settle_intro, goal_cases)
      case 1
      then show ?case using a(4) element_fuel [OF al(1,2)] al by (intro IH(1)) simp_all
    next
      case (2 x key d1)
      note key = element_step [of n k "zero_val k" ?d key d1 b d e]
      let ?d1 = "case voff of None \<Rightarrow> d1 | Some off \<Rightarrow> d1\<lparr>d_sigoff := off\<rparr>"
      have "tame b ?d1" "bytes_left ?d1 \<le> bytes_left d"
        using key(2,3) 2 a al by (simp_all split: option.splits)
      then show ?case using a(4) element_fuel [of b ?d1 "bytes_left d" n] by (intro IH(1))
    next
      case (3 x key d1 y val d2)
      note key = element_step [of n k "zero_val k" ?d key d1 b d e]
      have d1: "tame b d1" "bytes_left d1 < bytes_left d" "same_input d d1" using key(1-3) 3 a al by simp_all
      have "moved 1 (case voff of None \<Rightarrow> d1 | Some off \<Rightarrow> d1\<lparr>d_sigoff := off\<rparr>) d2"
        using decode_value_moved 3 by blast
      then have d2: "same_input d1 d2" "d_off d1 \<le> d_off d2" by (simp_all add: moved_def split: option.splits)
      have "tame b d2" using tame_same [OF d2(1)] d1(1) by simp
      moreover have "bytes_left d2 < bytes_left d"
        using d1(2) d2 by (simp add: bytes_left_def same_input_def)
      moreover have "same_input d d2" using d1(3) d2(1) by (rule same_input_trans)
      ultimately show ?case
        using a fuel_less(3) [of "bytes_left d2" "bytes_left d" b] by (intro IH(4)) (simp_all add: same_input_def)
    qed simp_all
  next
    fix ts vs d
    assume a: "tame b d" "decode_fuel b (bytes_left d) (codes_left d) < Suc n" 
    show "settles (decode_fields (Suc n) ts vs d)"
      unfolding decode_fields.simps(2)
    proof (intro settle_intro, goal_cases)
      case (3 t ts' v vs')
      then show ?case using a by (intro IH(1)) simp_all
    next
      case (4 t ts' v vs' x w d1)
      then show ?case using a member_step [of n t v d w d1 b] by (intro IH(5)) simp_all
    qed simp_all
  next
    fix vs d
    assume a: "tame b d" "decode_fuel b (bytes_left d) (codes_left d) < Suc n" 
    show "settles (decode_ifields (Suc n) vs d)"
      unfolding decode_ifields.simps(2)
    proof (intro settle_intro, goal_cases)
      case 1
      then show ?case using a by (intro IH(1)) simp_all
    next
      case (2 x w d1)
      then show ?case using a member_step [of n TInterface VNil d w d1 b] by (intro IH(6)) simp_all
    qed simp_all
  next
    fix t v d
    assume a: "tame b d" "decode_fuel b (bytes_left d) (codes_left d) \<le> Suc n"
    let ?d = "d\<lparr>d_sigoff := d_sigoff d + 1\<rparr>"
    have arr: "tame b (if P then d_align 8 d1 else d1)"
        "loop_fuel b (bytes_left (if P then d_align 8 d1 else d1)) \<le> n"
        "d_sig (if P then d_align 8 d1 else d1) = d_sig d1"
      if "read_uint32 ?d = Inr (len, d1)" for P len d1
    proof -
      let ?d2 = "if P then d_align 8 d1 else d1"
      have ad: "advanced ?d d1" using read_advanced(5) [OF that] by simp
      then have "same_input d ?d2" by (simp add: advanced_def same_input_def d_align_eq)
      then show "tame b ?d2" using a(1) tame_same [of d ?d2 b] by blast
      have "bytes_left ?d2 < bytes_left d"
        using ad by (auto simp: advanced_def same_input_def bytes_left_def d_align_eq)
      then show "loop_fuel b (bytes_left ?d2) \<le> n"
        using fuel_less(2) [of "bytes_left ?d2" "bytes_left d" b "codes_left d"] a(2) by linarith
      show "d_sig ?d2 = d_sig d1" by (simp add: d_align_eq)
    qed
    have str: "tame b (d_align 8 ?d)" "d_sigoff d < length (d_sig d) \<Longrightarrow>
        decode_fuel b (bytes_left (d_align 8 ?d)) (codes_left (d_align 8 ?d)) < n"
    proof -
      show "tame b (d_align 8 ?d)" using a(1) by (simp add: d_align_eq)
      assume "d_sigoff d < length (d_sig d)"
      then have "bytes_left (d_align 8 ?d) \<le> bytes_left d" "codes_left (d_align 8 ?d) < codes_left d"
        by (auto simp: d_align_eq bytes_left_def codes_left_def)
      from fuel_less(5) [OF this, of b] a(2)
      show "decode_fuel b (bytes_left (d_align 8 ?d)) (codes_left (d_align 8 ?d)) < n" by linarith
    qed
    show "settles (decode_value (Suc n) t v d)"
      unfolding decode_value.simps(2) Let_def
    proof (intro settle_intro, goal_cases)
      case (8 x len d1 next')
      then show ?case using arr by (intro IH(2)) (simp_all add: not_less)
    next
      case (10 x len d1 next')
      then show ?case using arr by (intro IH(3)) (simp_all add: not_less)
    next
      case (13 x len d1 next')
      then show ?case using arr arr [where P = True, unfolded if_True] next_pair by (intro IH(4)) (simp_all add: not_less)
    next
      case (15 x len d1 next')
      then show ?case using arr arr [where P = True, unfolded if_True] next_pair by (intro IH(4)) (simp_all add: not_less)
    next
      case (17 x len d1 next')
      then show ?case using arr by (intro IH(3)) (simp_all add: not_less)
    next
      case 21
      then show ?case using str by (intro IH(5)) simp_all
    next
      case 24
      then show ?case using str by (intro IH(6)) simp_all
    next
      case (28 x sig d1)
      then show ?case using variant_step [of ?d sig d1 b d n] a by (intro IH(1)) simp_all
    qed simp_all
  qed
qed

text \<open>The bound for one call of \<open>decode_value\<close> from its own inputs.\<close>

definition enough_fuel :: "decoder \<Rightarrow> nat" where
  "enough_fuel d = decode_fuel (max 255 (length (d_sig d))) (bytes_left d) (codes_left d)"

lemma decode_value_settles:
  assumes "no_unit (d_sig d)" and "no_unit (string_of (d_data d))" and "enough_fuel d \<le> n"
  shows "decode_value n t v d \<noteq> Inl OutOfFuel"
proof -
  let ?b = "max 255 (length (d_sig d))"
  have "tame ?b d" using assms(1,2) by (simp add: tame_def)
  moreover have "decode_fuel ?b (bytes_left d) (codes_left d) \<le> n" using assms(3) by (simp add: enough_fuel_def)
  ultimately have "settles (decode_value n t v d)" by (metis decode_settles)
  then show ?thesis by (simp add: settles_def)
qed

section \<open>The loop that does not end\<close>

text \<open>
  An array of structs without members, of positive length: no element takes a byte, so the loop never
  reaches the end of the array. \<open>stuck\<close> is the state in which it stands still.
\<close>

lemma stuck_loop:
  assumes "d_sig d = ''a()''" and "8 dvd d_off d" and "d_off d < e"
  shows "decode_slice n TInterface vs e 1 d = Inl OutOfFuel"
  using assms
proof (induction n arbitrary: vs d)
  case (Suc n)
  let ?d = "d\<lparr>d_sigoff := 1\<rparr>"
  show ?case
  proof (cases n)
    case 0
    then show ?thesis using Suc.prems by simp
  next
    case (Suc m)
    have "decode_value n TInterface VNil ?d = Inl OutOfFuel \<or>
        decode_value n TInterface VNil ?d = Inr (VIface (TSlice TInterface) (VList []), ?d\<lparr>d_sigoff := 2\<rparr>)"
      using Suc.prems Suc
      by (cases m) (simp_all add: basic_read_codes_def d_align_eq padlen_dvd)
    then show ?thesis using Suc.IH [of "?d\<lparr>d_sigoff := 2\<rparr>"] Suc.prems by auto
  qed
qed simp

lemma enough_fuel_moved: "moved k d d' \<Longrightarrow> enough_fuel d' \<le> enough_fuel d"
proof -
  assume "moved k d d'"
  then have "d_sig d' = d_sig d" "bytes_left d' \<le> bytes_left d" "codes_left d' \<le> codes_left d"
    by (auto simp: moved_def same_input_def bytes_left_def codes_left_def)
  then show ?thesis by (simp add: enough_fuel_def decode_fuel_def add_mono)
qed

section \<open>Properties\<close>

text \<open>
  C11. \<open>Decode\<close> ends on every input in whose signature and data no opening parenthesis is directly
  followed by a closing one, within a number of steps computed from the lengths of both, whatever the
  targets are.
\<close>

theorem decode_terminates:
  assumes "no_unit (d_sig d)" and "no_unit (string_of (d_data d))" and "enough_fuel d \<le> n"
  shows "decode_args n args d \<noteq> Inl OutOfFuel"
  using assms
proof (induction args arbitrary: d)
  case (Cons a args)
  show ?case
  proof (cases a)
    case (PtrTo t v)
    have "decode_args n args d1 \<noteq> Inl OutOfFuel" if "decode_value n t v d = Inr (w, d1)" for w d1
    proof -
      have m: "moved 1 d d1" by (rule decode_value_moved [OF that])
      then have "d_sig d1 = d_sig d" "d_data d1 = d_data d" by (simp_all add: moved_def same_input_def)
      then show ?thesis using Cons.IH [of d1] Cons.prems enough_fuel_moved [OF m] by simp
    qed
    with decode_value_settles [OF Cons.prems] PtrTo show ?thesis
      by (auto simp: ebind_Inl_iff)
  qed simp
qed simp

theorem decode_terminates_witness:
  "decode_args 4000 [PtrTo TInterface VNil] (new_decoder ''a(sv)'' [255, 255, 0, 0] LittleEndian) \<noteq> Inl OutOfFuel"
proof -
  let ?d = "new_decoder ''a(sv)'' [255, 255, 0, 0] LittleEndian"
  have "no_unit (d_sig ?d)" "no_unit (string_of (d_data ?d))" "enough_fuel ?d \<le> 4000"
    by code_simp+
  then show ?thesis by (rule decode_terminates)
qed


end
