(* ===== verification/Messages.thy ===== *)
theory Messages
  imports Codec EncoderSafety DecoderTermination
begin

text \<open>
  Messages (message.go): the record, the constructors, and the arguments of a message; the two
  directions of the transport are in \<open>MessageIO\<close>.
\<close>

section \<open>Messages\<close>

type_synonym message_type = byte

abbreviation (input) TypeInvalid :: message_type where "TypeInvalid \<equiv> 0"
abbreviation (input) TypeMethodCall :: message_type where "TypeMethodCall \<equiv> 1"
abbreviation (input) TypeMethodReturn :: message_type where "TypeMethodReturn \<equiv> 2"
abbreviation (input) TypeError :: message_type where "TypeError \<equiv> 3"
abbreviation (input) TypeSignal :: message_type where "TypeSignal \<equiv> 4"

text \<open>\<open>MessageType.String\<close>: a type that is not in the table gives the empty string.\<close>

definition message_type_string :: "message_type \<Rightarrow> string" where
  "message_type_string t =
     (if t = TypeInvalid then ''invalid''
      else if t = TypeMethodCall then ''method_call''
      else if t = TypeMethodReturn then ''method_return''
      else if t = TypeSignal then ''signal''
      else if t = TypeError then ''error''
      else [])"

record message =
  m_order :: byte_order
  m_type :: message_type
  m_flags :: byte
  m_protocol :: byte
  m_serial :: "32 word"
  m_path :: string
  m_iface :: string
  m_member :: string
  m_error_name :: string
  m_reply_serial :: "32 word"
  m_dest :: string
  m_sender :: string
  m_sig :: string
  m_body :: "byte list"

definition new_message :: message where
  "new_message =
     \<lparr>m_order = LittleEndian, m_type = 0, m_flags = 0, m_protocol = 1, m_serial = 0, m_path = [],
      m_iface = [], m_member = [], m_error_name = [], m_reply_serial = 0, m_dest = [], m_sender = [],
      m_sig = [], m_body = []\<rparr>"

definition new_method_call_message :: "string \<Rightarrow> string \<Rightarrow> string \<Rightarrow> string \<Rightarrow> message" where
  "new_method_call_message destination path iface member =
     new_message\<lparr>m_type := TypeMethodCall, m_dest := destination, m_path := path, m_iface := iface,
       m_member := member\<rparr>"

definition new_method_return_message :: "message \<Rightarrow> message result" where
  "new_method_return_message call =
     (if m_serial call = 0 then Inl (Panic ''methodCall.serial == 0'')
      else if m_type call \<noteq> TypeMethodCall
      then Inl (Panic ''replies should be sent in response to method calls'')
      else Inr (new_message\<lparr>m_type := TypeMethodReturn, m_reply_serial := m_serial call,
        m_dest := m_sender call\<rparr>))"

definition new_signal_message :: "string \<Rightarrow> string \<Rightarrow> string \<Rightarrow> message" where
  "new_signal_message path iface member =
     new_message\<lparr>m_type := TypeSignal, m_path := path, m_iface := iface, m_member := member\<rparr>"

section \<open>Arguments\<close>

text \<open>
  \<open>AppendArgs\<close> returns whether it failed and the message it leaves behind: the encoder works on a
  copy of signature and body, which the message gets only on success.
\<close>

definition append_args :: "methods \<Rightarrow> (gotype \<times> gval) list \<Rightarrow> message \<Rightarrow> unit result \<times> message" where
  "append_args M args msg =
     (case e_append M args (new_encoder (m_sig msg) (m_body msg) (m_order msg)) of
        Inl err \<Rightarrow> (Inl err, msg)
      | Inr enc \<Rightarrow> (Inr (), msg\<lparr>m_sig := e_sig enc, m_body := e_data enc\<rparr>))"

definition new_error_message :: "methods \<Rightarrow> message \<Rightarrow> string \<Rightarrow> string \<Rightarrow> message result" where
  "new_error_message M call errorName text =
     (if m_serial call = 0 then Inl (Panic ''methodCall.serial == 0'')
      else if m_type call \<noteq> TypeMethodCall
      then Inl (Panic ''errors should be sent in response to method calls'')
      else let msg = new_message\<lparr>m_type := TypeError, m_reply_serial := m_serial call,
                 m_dest := m_sender call, m_error_name := errorName\<rparr>
        in (case append_args M [(TString, VString text)] msg of
              (Inl (Error err), msg') \<Rightarrow> Inl (PanicErr err)
            | (Inl fail, msg') \<Rightarrow> Inl fail
            | (Inr u, msg') \<Rightarrow> Inr msg'))"

definition set_serial :: "32 word \<Rightarrow> message \<Rightarrow> message result" where
  "set_serial serial msg =
     (if m_serial msg \<noteq> 0 then Inl (Panic ''Message already has a serial number'')
      else Inr (msg\<lparr>m_serial := serial\<rparr>))"

definition args_of :: "nat \<Rightarrow> arg list \<Rightarrow> message \<Rightarrow> gval list result" where
  "args_of n args msg =
     ebind (decode_args n args (new_decoder (m_sig msg) (m_body msg) (m_order msg))) (\<lambda>(ws, d). Inr ws)"

text \<open>\<open>AllArgs\<close>: the loop, with fuel for its rounds and for each call of \<open>Decode\<close>.\<close>

fun all_args_from :: "nat \<Rightarrow> nat \<Rightarrow> decoder \<Rightarrow> gval list \<Rightarrow> gval list result" where
  "all_args_from k 0 d acc = Inl OutOfFuel"
| "all_args_from k (Suc n) d acc =
     (if has_more d then
        (case decode_args k [PtrTo TInterface VNil] d of
           Inl (Error err) \<Rightarrow> Inl (PanicErr err)
         | Inl fail \<Rightarrow> Inl fail
         | Inr (ws, d') \<Rightarrow> all_args_from k n d' (acc @ ws))
      else Inr acc)"

definition all_args :: "nat \<Rightarrow> message \<Rightarrow> gval list result" where
  "all_args n msg = all_args_from n n (new_decoder (m_sig msg) (m_body msg) (m_order msg)) []"

text \<open>\<open>AsError\<close>: an error in decoding the text is ignored.\<close>

definition as_error :: "nat \<Rightarrow> message \<Rightarrow> go_error result" where
  "as_error n msg =
     (if m_type msg \<noteq> TypeError
      then Inl (Panic ''Only messages of type 'error' can be converted to an error'')
      else (case args_of n [PtrTo TString (VString [])] msg of
              Inl (Error err) \<Rightarrow> Inr (ErrDBus (m_error_name msg) [])
            | Inl fail \<Rightarrow> Inl fail
            | Inr ws \<Rightarrow> Inr (ErrDBus (m_error_name msg) (case ws of [VString s] \<Rightarrow> s | _ \<Rightarrow> []))))"

section \<open>Lemmas on arguments\<close>

text \<open>Appending nothing, or failing, leaves the message as it was; two calls do what one does.\<close>

lemma append_args_failed: "fst (append_args M args msg) = Inl err \<Longrightarrow> snd (append_args M args msg) = msg"
  by (simp add: append_args_def split: sum.splits)

lemma encoder_of_message [simp]:
  "new_encoder (e_sig e) (e_data e) (e_order e) = e"
  by (simp add: new_encoder_def)

text \<open>The loop of \<open>AllArgs\<close> over values that stand in the body one after the other.\<close>

lemma all_args_from_stored:
  assumes "\<forall>dv \<in> set dvs. wf_dval dv" and "stored_members dvs = Some ws"
    and "size_list size dvs < k" and "length (d_data d) < 2 ^ 32"
    and "drop (d_off d) (d_data d) = marshal_list (d_order d) (d_off d) dvs @ after"
    and "drop (d_sigoff d) (d_sig d) = show_tys (map dval_ty dvs) @ rest"
  shows "all_args_from k (length dvs + n) d acc =
    all_args_from k n (d\<lparr>d_off := d_off d + length (marshal_list (d_order d) (d_off d) dvs),
      d_sigoff := d_sigoff d + length (show_tys (map dval_ty dvs))\<rparr>) (acc @ ws)"
  using assms
proof (induction dvs arbitrary: d ws acc)
  case Nil
  then show ?case by simp
next
  case (Cons dv dvs)
  then obtain w ws' where w: "stored TInterface VNil dv = Some w" "stored_members dvs = Some ws'" "ws = w # ws'"
      "\<not> stops_short TInterface dv"
    by (auto simp: bind_eq_Some_conv split: if_splits)
  let ?d = "d\<lparr>d_off := d_off d + length (marshal (d_order d) (d_off d) dv),
      d_sigoff := d_sigoff d + length (show_ty (dval_ty dv))\<rparr>"
  have one: "stored_args [PtrTo TInterface VNil] (dv # dvs) = Some [w]"
    using w by simp
  have more: "has_more d"
    using Cons.prems(1,6) show_ty_not_Nil [of "dval_ty dv"] by (auto simp: has_more_def intro: ccontr)
  have "decode_args k [PtrTo TInterface VNil] d = Inr ([w], ?d)"
    using decode_args_stored [OF Cons.prems(1) one Cons.prems(3-6)] by simp
  moreover have "all_args_from k (length dvs + n) ?d (acc @ [w]) =
    all_args_from k n (?d\<lparr>d_off := d_off ?d + length (marshal_list (d_order ?d) (d_off ?d) dvs),
      d_sigoff := d_sigoff ?d + length (show_tys (map dval_ty dvs))\<rparr>) ((acc @ [w]) @ ws')"
    by (rule Cons.IH) (use Cons.prems w drop_append_addD [of "d_off d" "d_data d" "marshal (d_order d) (d_off d) dv"]
        drop_append_addD [of "d_sigoff d" "d_sig d" "show_ty (dval_ty dv)"] in \<open>auto simp: Let_def\<close>)
  ultimately show ?case using more w(3) by (simp add: Let_def add.assoc)
qed

declare all_args_from.simps [simp del]

text \<open>The rounds of the loop.\<close>

lemma all_args_round:
  "\<not> has_more d \<Longrightarrow> all_args_from k (Suc n) d acc = Inr acc"
  "has_more d \<Longrightarrow> decode_args k [PtrTo TInterface VNil] d = Inr (ws, d') \<Longrightarrow>
     all_args_from k (Suc n) d acc = all_args_from k n d' (acc @ ws)"
  "has_more d \<Longrightarrow> decode_args k [PtrTo TInterface VNil] d = Inl (Error err) \<Longrightarrow>
     all_args_from k (Suc n) d acc = Inl (PanicErr err)"
  by (simp_all add: all_args_from.simps del: decode_args.simps)

lemma decode_one:
  "decode_value k t v d = Inr (w, d') \<Longrightarrow> decode_args k [PtrTo t v] d = Inr ([w], d')"
  "decode_value k t v d = Inl err \<Longrightarrow> decode_args k [PtrTo t v] d = Inl err"
  by simp_all

lemma length_le_size_list: "length xs \<le> size_list size xs"
  by (induction xs) auto

lemma marshal_list_append:
  "marshal_list order p (xs @ ys) =
     marshal_list order p xs @ marshal_list order (p + length (marshal_list order p xs)) ys"
  by (induction xs arbitrary: p) (simp_all add: Let_def add.assoc)

section \<open>Properties\<close>

text \<open>
  \<open>AllArgs\<close> returns the arguments of the message, each as the decoder stores it into a blank
  interface, when none of them is or contains directly a structure: \<open>stored_members\<close> says which
  values can be stored so and what comes of them.
\<close>

lemma all_args_returns:
  assumes "\<forall>dv \<in> set dvs. wf_dval dv" and "stored_members dvs = Some ws"
    and "m_sig msg = show_tys (map dval_ty dvs)" and "m_body msg = marshal_list (m_order msg) 0 dvs"
    and "length (m_body msg) < 2 ^ 32" and "size_list size dvs < n"
  shows "all_args n msg = Inr ws"
proof -
  let ?d = "new_decoder (m_sig msg) (m_body msg) (m_order msg)"
  define d where "d = ?d\<lparr>d_off := length (m_body msg), d_sigoff := length (m_sig msg)\<rparr>"
  obtain m where m: "n = length dvs + Suc m"
    using assms(6) length_le_size_list [of dvs] less_imp_Suc_add by fastforce
  have "all_args n msg = all_args_from n (length dvs + Suc m) ?d []"
    unfolding all_args_def m [symmetric] ..
  also have "\<dots> = all_args_from n (Suc m) d ws"
    using all_args_from_stored [OF assms(1,2,6), of ?d "[]" "[]" "Suc m" "[]"] assms(3-5)
    by (simp add: new_decoder_def d_def)
  also have "\<dots> = Inr ws"
    by (rule all_args_round(1)) (simp add: has_more_def d_def new_decoder_def)
  finally show ?thesis .
qed

text \<open>
  C38. \<open>AllArgs\<close> panics on a message with a structure among its arguments, however well formed: decoding
  a structure into a blank interface stops before the closing parenthesis of its signature, and the
  next round of the loop finds it there.
\<close>

theorem all_args_panics_on_struct:
  assumes "\<forall>dv \<in> set dvs. wf_dval dv" and "stored_members dvs = Some ws"
    and "wf_dval (DStruct vs)" and "stored_members vs = Some us"
    and "m_sig msg = show_tys (map dval_ty (dvs @ [DStruct vs])) @ rest"
    and "m_body msg = marshal_list (m_order msg) 0 (dvs @ [DStruct vs]) @ after"
    and "length (m_body msg) < 2 ^ 32" and "size_list size (dvs @ [DStruct vs]) + 2 < n"
  shows "all_args n msg = Inl (PanicErr (ErrCannotDecode CHR '')'' TInterface))"
proof -
  let ?s = "DStruct vs" and ?d = "new_decoder (m_sig msg) (m_body msg) (m_order msg)"
  define d where "d = ?d\<lparr>d_off := length (marshal_list (m_order msg) 0 dvs),
    d_sigoff := length (show_tys (map dval_ty dvs))\<rparr>"
  define d' where "d' = d\<lparr>d_off := d_off d + length (marshal (m_order msg) (d_off d) ?s),
    d_sigoff := d_sigoff d + (length (show_ty (dval_ty ?s)) - 1)\<rparr>"
  have len: "length dvs + 2 \<le> n" "0 < n" using assms(8) length_le_size_list [of dvs] by simp_all
  then obtain m where m: "n = length dvs + Suc (Suc m)" by (metis add_2_eq_Suc' add_Suc_right le_Suc_ex add.commute)
  obtain k where k: "n = Suc k" using len(2) by (cases n) auto
  have size: "size_list size dvs < n" "size ?s < n" using assms(8) by simp_all
  have "all_args n msg = all_args_from n (length dvs + Suc (Suc m)) ?d []"
    unfolding all_args_def m [symmetric] ..
  also have "\<dots> = all_args_from n (Suc (Suc m)) d ws"
    using all_args_from_stored [OF assms(1,2) size(1), of ?d "marshal (m_order msg) (d_off d) ?s @ after"
        "show_ty (dval_ty ?s) @ rest" "Suc (Suc m)" "[]"] assms(5-7)
    by (simp add: new_decoder_def d_def marshal_list_append)
  finally have loop: "all_args n msg = all_args_from n (Suc (Suc m)) d ws" .
  have "decode_value n TInterface VNil d = Inr (VIface (TSlice TInterface) (VList us), d')"
    using decode_stored [OF assms(3), of TInterface VNil "VIface (TSlice TInterface) (VList us)" n d after rest]
      size assms(4-7)
    by (simp add: d_def d'_def new_decoder_def marshal_list_append stops_short_def)
  note struct = decode_one(1) [OF this]
  have more: "has_more d"
    using assms(5) by (simp add: has_more_def d_def new_decoder_def)
  have close: "d_sigoff d' < length (d_sig d')" "d_sig d' ! d_sigoff d' = CHR '')''"
    using assms(5) by (simp_all add: d'_def d_def new_decoder_def nth_append)
  then have "decode_value n TInterface VNil d' = Inl (Error (ErrCannotDecode CHR '')'' TInterface))"
    unfolding k decode_value.simps(2) Let_def by (simp add: basic_read_codes_def)
  note stuck = decode_one(2) [OF this]
  have "has_more d'" using close by (simp add: has_more_def)
  with more struct stuck
  have "all_args_from n (Suc (Suc m)) d ws = Inl (PanicErr (ErrCannotDecode CHR '')'' TInterface))"
    by (simp only: all_args_round)
  with loop show ?thesis by (simp only:)
qed

theorem all_args_panics_on_struct_witness:
  "all_args 20 (new_message\<lparr>m_sig := ''y(y)'', m_body := [1, 0, 0, 0, 0, 0, 0, 0, 7]\<rparr>) =
    Inl (PanicErr (ErrCannotDecode CHR '')'' TInterface))"
proof (rule all_args_panics_on_struct [of "[DByte 1]" "[VIface TUint8 (VUint8 1)]" "[DByte 7]"
      "[VIface TUint8 (VUint8 7)]" _ "[]" "[]"], goal_cases)
  case 7
  then show ?case by simp
qed code_simp+

end
