(* ===== verification/MatchRules.thy ===== *)
theory MatchRules
  imports GoStrings Messages
begin

text \<open>
  Match rules (matchrule.go): their text, which goes to the bus daemon, and the matching of messages.
\<close>

section \<open>Rules\<close>

record match_rule =
  r_type :: message_type
  r_sender :: string
  r_path :: string
  r_iface :: string
  r_member :: string
  r_arg0 :: string
  r_owner :: string

text \<open>\<open>fmt.Sprintf("key='%s'", value)\<close>; a message type is printed by its \<open>String\<close> method.\<close>

definition rule_param :: "string \<Rightarrow> string \<Rightarrow> string" where
  "rule_param key value = key @ ''='' @ [CHR 0x27] @ value @ [CHR 0x27]"

definition rule_params :: "match_rule \<Rightarrow> string list" where
  "rule_params p =
     (if r_type p \<noteq> TypeInvalid then [rule_param ''type'' (message_type_string (r_type p))] else []) @
     (if r_sender p \<noteq> [] then [rule_param ''sender'' (r_sender p)] else []) @
     (if r_path p \<noteq> [] then [rule_param ''path'' (r_path p)] else []) @
     (if r_iface p \<noteq> [] then [rule_param ''interface'' (r_iface p)] else []) @
     (if r_member p \<noteq> [] then [rule_param ''member'' (r_member p)] else []) @
     (if r_arg0 p \<noteq> [] then [rule_param ''arg0'' (r_arg0 p)] else [])"

definition rule_string :: "match_rule \<Rightarrow> string" where
  "rule_string p = join '','' (rule_params p)"

text \<open>
  \<open>Match\<close>. Decoding the first argument into a string variable takes one step whatever the message
  (\<open>string_arg\<close> below), so the fuel is 1.
\<close>

definition first_string :: "message \<Rightarrow> string option" where
  "first_string msg =
     (case args_of 1 [PtrTo TString (VString [])] msg of Inr [VString s] \<Rightarrow> Some s | _ \<Rightarrow> None)"

definition rule_match :: "match_rule \<Rightarrow> message \<Rightarrow> bool" where
  "rule_match p msg =
     (if r_type p \<noteq> TypeInvalid \<and> r_type p \<noteq> m_type msg then False
      else if r_sender p \<noteq> [] \<and> \<not> (r_sender p = m_sender msg \<or> r_owner p = m_sender msg) then False
      else if r_path p \<noteq> [] \<and> r_path p \<noteq> m_path msg then False
      else if r_iface p \<noteq> [] \<and> r_iface p \<noteq> m_iface msg then False
      else if r_member p \<noteq> [] \<and> r_member p \<noteq> m_member msg then False
      else if r_arg0 p \<noteq> [] then first_string msg = Some (r_arg0 p)
      else True)"

section \<open>The first argument as a string\<close>

lemma next_type_fails:
  "next_type sig offset = Inl f \<Longrightarrow> \<exists>e. f = Error e"
  "next_struct sig pos = Inl g \<Longrightarrow> \<exists>e. g = Error e"
proof (induction sig offset and sig pos arbitrary: f and g rule: next_type_next_struct.induct)
  case (1 sig offset)
  show ?case
    using "1.prems" unfolding next_type.simps [of sig offset] Let_def
    by (auto split: if_splits sum.splits intro: "1.IH" [OF _ refl, simplified])
next
  case (2 sig pos)
  show ?case
    using "2.prems" unfolding next_struct.simps [of sig pos]
    by (auto split: if_splits sum.splits intro: "2.IH")
qed

lemma read_string_fails:
  "read_string d = Inl f \<Longrightarrow> \<exists>e. f = Error e" "read_uint32 d = Inl f \<Longrightarrow> \<exists>e. f = Error e"
  "read_basic c d = Inl f \<Longrightarrow> \<exists>e. f = Error e"
  by (auto simp: read_defs read_basic_def ebind_Inl_iff Let_def split: if_splits)

text \<open>Decoding into a string variable never panics, and its fuel is one step.\<close>

lemma decode_string:
  "decode_value (Suc n) TString (VString s0) d = decode_value 1 TString (VString s0) d"
  "decode_value 1 TString (VString s0) d = Inl f \<Longrightarrow> \<exists>e. f = Error e"
  "decode_value 1 TString (VString s0) d = Inr (w, d') \<Longrightarrow> \<exists>s. w = VString s"
proof -
  show "decode_value (Suc n) TString (VString s0) d = decode_value 1 TString (VString s0) d"
    unfolding One_nat_def decode_value.simps(2) by (simp cong: if_cong)
  show "decode_value 1 TString (VString s0) d = Inl f \<Longrightarrow> \<exists>e. f = Error e"
    unfolding One_nat_def decode_value.simps(2)
    by (auto simp: ebind_Inl_iff Let_def store_basic_def split: if_splits dest: next_type_fails read_string_fails)
  assume "decode_value 1 TString (VString s0) d = Inr (w, d')"
  then have "has_type TString w" by (rule decode_value_type [rotated]) simp
  then show "\<exists>s. w = VString s" by (cases w) simp_all
qed

lemma string_arg:
  "args_of (Suc n) [PtrTo TString (VString s0)] msg = args_of 1 [PtrTo TString (VString s0)] msg"
  "(\<exists>e. args_of 1 [PtrTo TString (VString s0)] msg = Inl (Error e)) \<or>
     (\<exists>s. args_of 1 [PtrTo TString (VString s0)] msg = Inr [VString s])"
proof -
  let ?d = "new_decoder (m_sig msg) (m_body msg) (m_order msg)"
  show "args_of (Suc n) [PtrTo TString (VString s0)] msg = args_of 1 [PtrTo TString (VString s0)] msg"
    by (simp add: args_of_def decode_string(1) [of n] del: decode_value.simps)
  show "(\<exists>e. args_of 1 [PtrTo TString (VString s0)] msg = Inl (Error e)) \<or>
     (\<exists>s. args_of 1 [PtrTo TString (VString s0)] msg = Inr [VString s])"
  proof (cases "decode_value 1 TString (VString s0) ?d")
    case (Inl f)
    with decode_string(2) obtain e where "decode_value 1 TString (VString s0) ?d = Inl (Error e)" by blast
    from decode_one(2) [OF this] show ?thesis by (simp only: args_of_def ebind_simps) simp
  next
    case (Inr p)
    with decode_string(3) obtain s d' where "decode_value 1 TString (VString s0) ?d = Inr (VString s, d')"
      by (metis prod.collapse)
    from decode_one(1) [OF this] show ?thesis by (simp only: args_of_def ebind_simps) simp
  qed
qed

text \<open>
  So \<open>AsError\<close> of an error message always returns an error, without a text if the first argument is
  not a string.
\<close>

lemma as_error_total:
  assumes "m_type msg = TypeError" and "0 < n"
  shows "as_error n msg =
    Inr (ErrDBus (m_error_name msg) (case first_string msg of Some s \<Rightarrow> s | None \<Rightarrow> []))"
proof -
  obtain k where "n = Suc k" using assms(2) by (cases n) auto
  then have arg: "args_of n [PtrTo TString (VString [])] msg = args_of 1 [PtrTo TString (VString [])] msg"
    using string_arg(1) by blast
  from string_arg(2) [of "[]" msg] show ?thesis
    unfolding as_error_def first_string_def arg using assms(1) by (auto simp del: One_nat_def)
qed

section \<open>The text of a rule\<close>

text \<open>
  A reader of the text, as the bus daemon has one: keys up to the equals sign, values in quotes,
  separated by commas. The text has the fields of the rule that are not empty.
\<close>

abbreviation quote :: char where
  "quote \<equiv> CHR 0x27"

function parse_params :: "string \<Rightarrow> (string \<times> string) list" where
  "parse_params s =
     (case index_of CHR ''='' s of
        None \<Rightarrow> []
      | Some i \<Rightarrow>
          (case index_of quote (drop (i + 2) s) of
             None \<Rightarrow> []
           | Some j \<Rightarrow> (take i s, take j (drop (i + 2) s)) # parse_params (drop (j + 2) (drop (i + 2) s))))"
  by pat_completeness auto
termination
  by (relation "measure length") (auto dest: index_of_Some)

declare parse_params.simps [simp del]

definition rule_fields :: "match_rule \<Rightarrow> (string \<times> string) list" where
  "rule_fields p =
     (if r_type p \<noteq> TypeInvalid then [(''type'', message_type_string (r_type p))] else []) @
     (if r_sender p \<noteq> [] then [(''sender'', r_sender p)] else []) @
     (if r_path p \<noteq> [] then [(''path'', r_path p)] else []) @
     (if r_iface p \<noteq> [] then [(''interface'', r_iface p)] else []) @
     (if r_member p \<noteq> [] then [(''member'', r_member p)] else []) @
     (if r_arg0 p \<noteq> [] then [(''arg0'', r_arg0 p)] else [])"

lemma rule_params_fields: "rule_params p = map (\<lambda>(k, v). rule_param k v) (rule_fields p)"
  by (simp add: rule_params_def rule_fields_def)

lemma parse_one:
  "CHR ''='' \<notin> set k \<Longrightarrow> quote \<notin> set v \<Longrightarrow>
     parse_params (rule_param k v @ rest) = (k, v) # parse_params (drop 1 rest)"
  by (subst parse_params.simps) (simp add: rule_param_def index_of_append)

lemma parse_join:
  "\<forall>(k, v) \<in> set kvs. CHR ''='' \<notin> set k \<and> quote \<notin> set v \<Longrightarrow>
     parse_params (join '','' (map (\<lambda>(k, v). rule_param k v) kvs)) = kvs"
proof (induction kvs)
  case Nil
  show ?case by (simp add: parse_params.simps)
next
  case (Cons kv kvs)
  obtain k v where kv: "kv = (k, v)" by (cases kv)
  have nil: "parse_params [] = []" by (simp add: parse_params.simps)
  show ?case
  proof (cases kvs)
    case Nil
    then show ?thesis using Cons.prems kv parse_one [of k v "[]"] nil by simp
  next
    case (Cons kv' kvs')
    then show ?thesis using Cons.IH Cons.prems kv parse_one [of k v] by (simp add: join_Cons)
  qed
qed

definition quote_free :: "match_rule \<Rightarrow> bool" where
  "quote_free p \<longleftrightarrow>
     r_type p \<in> {TypeInvalid, TypeMethodCall, TypeMethodReturn, TypeError, TypeSignal} \<and>
     quote \<notin> set (r_sender p @ r_path p @ r_iface p @ r_member p @ r_arg0 p)"

lemma parse_rule_string:
  assumes "quote_free p"
  shows "parse_params (rule_string p) = rule_fields p"
  unfolding rule_string_def rule_params_fields
  by (rule parse_join) (use assms in \<open>auto simp: rule_fields_def quote_free_def message_type_string_def\<close>)

lemma rule_fields_lookup:
  "map_of (rule_fields p) ''type'' = (if r_type p \<noteq> TypeInvalid then Some (message_type_string (r_type p)) else None)"
  "map_of (rule_fields p) ''sender'' = (if r_sender p \<noteq> [] then Some (r_sender p) else None)"
  "map_of (rule_fields p) ''path'' = (if r_path p \<noteq> [] then Some (r_path p) else None)"
  "map_of (rule_fields p) ''interface'' = (if r_iface p \<noteq> [] then Some (r_iface p) else None)"
  "map_of (rule_fields p) ''member'' = (if r_member p \<noteq> [] then Some (r_member p) else None)"
  "map_of (rule_fields p) ''arg0'' = (if r_arg0 p \<noteq> [] then Some (r_arg0 p) else None)"
  by (simp_all add: rule_fields_def)

section \<open>Properties\<close>

text \<open>
  C29. The text of a rule determines it, so that the bus daemon, which knows rules only by their text,
  adds and removes the right one: if no field contains a quote, rules with the same text agree in all
  fields but the owner of the sender's name, which the text does not have.
\<close>

theorem rule_string_injective:
  assumes "quote_free p" and "quote_free q" and "rule_string p = rule_string q"
  shows "q\<lparr>r_owner := r_owner p\<rparr> = p"
proof -
  have eq: "rule_fields p = rule_fields q"
    using parse_rule_string [OF assms(1)] parse_rule_string [OF assms(2)] assms(3) by simp
  note look = rule_fields_lookup [of p, unfolded eq rule_fields_lookup]
  have "r_sender p = r_sender q" "r_path p = r_path q" "r_iface p = r_iface q" "r_member p = r_member q"
      "r_arg0 p = r_arg0 q"
    using look(2-6) by (auto split: if_splits)
  moreover have "r_type p = r_type q"
    using look(1) assms(1,2) by (auto simp: quote_free_def message_type_string_def split: if_splits)
  ultimately show ?thesis by (cases p; cases q) simp
qed

theorem rule_string_injective_witness:
  "(\<lparr>r_type = 4, r_sender = [], r_path = ''/a'', r_iface = [], r_member = ''M'', r_arg0 = [], r_owner = '':1''\<rparr> :: match_rule)
     \<lparr>r_owner := '':2''\<rparr> =
   \<lparr>r_type = 4, r_sender = [], r_path = ''/a'', r_iface = [], r_member = ''M'', r_arg0 = [], r_owner = '':2''\<rparr>"
proof -
  let ?p = "\<lparr>r_type = 4, r_sender = [], r_path = ''/a'', r_iface = [], r_member = ''M'', r_arg0 = [], r_owner = '':2''\<rparr>"
    and ?q = "\<lparr>r_type = 4, r_sender = [], r_path = ''/a'', r_iface = [], r_member = ''M'', r_arg0 = [], r_owner = '':1''\<rparr>"
  have "quote_free ?p" "quote_free ?q" "rule_string ?p = rule_string ?q"
    by code_simp+
  from rule_string_injective [OF this] show ?thesis by (simp only: match_rule.select_convs)
qed

text \<open>
  Quotes are not escaped, so a field with a quote can turn into several: two rules that do not match the same
  messages have the same text, and a message that one of them was set up for may never be sent.
\<close>

lemma rule_string_ambiguous:
  "\<exists>p q msg. rule_string p = rule_string q \<and> rule_match p msg \<and> \<not> rule_match q msg"
proof -
  let ?p = "\<lparr>r_type = 4, r_sender = [], r_path = ''/a'', r_iface = [],
      r_member = ''M'' @ [quote] @ '',arg0='' @ [quote] @ ''x'', r_arg0 = [], r_owner = []\<rparr>"
    and ?q = "\<lparr>r_type = 4, r_sender = [], r_path = ''/a'', r_iface = [], r_member = ''M'', r_arg0 = ''x'', r_owner = []\<rparr>"
  let ?msg = "new_signal_message ''/a'' ''i.f'' (''M'' @ [quote] @ '',arg0='' @ [quote] @ ''x'')"
  have "rule_string ?p = rule_string ?q" "rule_match ?p ?msg" "\<not> rule_match ?q ?msg"
    by code_simp+
  then show ?thesis by blast
qed

end
