(* ===== verification/WatchSet.thy ===== *)
theory WatchSet
  imports MatchRules "HOL-Library.Multiset"
begin

text \<open>
  The set of signal watches (signal.go): nested maps keyed by path, interface and member of the rule,
  with a slice of watches at each key.

  A watch is a pointer, so it is an identity here; \<open>rules\<close> says which rule it points to. The rule of
  a watch can change its \<open>senderNameOwner\<close>, never its keys.
\<close>

section \<open>The nested maps\<close>

type_synonym watch = nat
type_synonym rules = "watch \<Rightarrow> match_rule"
type_synonym by_member = "string \<rightharpoonup> watch list"
type_synonym by_interface = "string \<rightharpoonup> by_member"
type_synonym watch_set = "string \<rightharpoonup> by_interface"

definition ws_add :: "rules \<Rightarrow> watch \<Rightarrow> watch_set \<Rightarrow> watch_set" where
  "ws_add rules watch self =
     (let rule = rules watch;
          byInterface = (case self (r_path rule) of Some m \<Rightarrow> m | None \<Rightarrow> Map.empty);
          byMember = (case byInterface (r_iface rule) of Some m \<Rightarrow> m | None \<Rightarrow> Map.empty);
          watches = (case byMember (r_member rule) of Some ws \<Rightarrow> ws | None \<Rightarrow> [])
      in self(r_path rule \<mapsto> byInterface(r_iface rule \<mapsto> byMember(r_member rule \<mapsto> watches @ [watch]))))"

text \<open>
  The first occurrence is overwritten by the last element, and the slice truncated; \<open>None\<close> if there is
  none.
\<close>

definition remove_swap :: "'a \<Rightarrow> 'a list \<Rightarrow> 'a list option" where
  "remove_swap w watches =
     map_option (\<lambda>i. butlast (watches[i := last watches])) (index_of w watches)"

definition ws_remove :: "rules \<Rightarrow> watch \<Rightarrow> watch_set \<Rightarrow> bool \<times> watch_set" where
  "ws_remove rules watch self =
     (let rule = rules watch in
      case self (r_path rule) of
        None \<Rightarrow> (False, self)
      | Some byInterface \<Rightarrow>
          (case byInterface (r_iface rule) of
             None \<Rightarrow> (False, self)
           | Some byMember \<Rightarrow>
               (case byMember (r_member rule) of
                  None \<Rightarrow> (False, self)
                | Some watches \<Rightarrow>
                    (case remove_swap watch watches of
                       None \<Rightarrow> (False, self)
                     | Some watches' \<Rightarrow>
                         (True, self(r_path rule \<mapsto> byInterface(r_iface rule \<mapsto>
                            byMember(r_member rule \<mapsto> watches'))))))))"

definition match_keys :: "string \<Rightarrow> string list" where
  "match_keys key = (if key \<noteq> [] then [[], key] else [[]])"

definition ws_find :: "rules \<Rightarrow> message \<Rightarrow> watch_set \<Rightarrow> watch list" where
  "ws_find rules msg self =
     concat (map (\<lambda>path. case self path of
         None \<Rightarrow> []
       | Some byInterface \<Rightarrow>
           concat (map (\<lambda>iface. case byInterface iface of
               None \<Rightarrow> []
             | Some byMember \<Rightarrow>
                 concat (map (\<lambda>member. case byMember member of
                     None \<Rightarrow> []
                   | Some watches \<Rightarrow> filter (\<lambda>watch. rule_match (rules watch) msg) watches)
                 (match_keys (m_member msg))))
           (match_keys (m_iface msg))))
       (match_keys (m_path msg)))"

section \<open>The contract of a set of watches\<close>

text \<open>
  What the rest of the package relies on: a multiset of watches, to which \<open>add\<close> adds one, from which
  \<open>remove\<close> takes one if it is there, and of which \<open>find\<close> returns those whose rule matches, each as
  often as it is in. The keys of the rules must not change, which \<open>same_keys\<close> says.
\<close>

definition same_keys :: "rules \<Rightarrow> rules \<Rightarrow> bool" where
  "same_keys rules rules' \<longleftrightarrow>
     (\<forall>w. r_path (rules' w) = r_path (rules w) \<and> r_iface (rules' w) = r_iface (rules w) \<and>
        r_member (rules' w) = r_member (rules w))"

lemma same_keys_refl [simp]: "same_keys rules rules"
  by (simp add: same_keys_def)

locale watch_registry =
  fixes inv :: "rules \<Rightarrow> 's \<Rightarrow> bool"
    and contents :: "rules \<Rightarrow> 's \<Rightarrow> watch multiset"
    and start :: 's
    and add :: "rules \<Rightarrow> watch \<Rightarrow> 's \<Rightarrow> 's"
    and remove :: "rules \<Rightarrow> watch \<Rightarrow> 's \<Rightarrow> bool \<times> 's"
    and find :: "rules \<Rightarrow> message \<Rightarrow> 's \<Rightarrow> watch list"
  assumes inv_start: "inv rules start" and contents_start: "contents rules start = {#}"
    and inv_keys: "same_keys rules rules' \<Longrightarrow> inv rules s \<Longrightarrow> inv rules' s"
    and contents_keys: "same_keys rules rules' \<Longrightarrow> inv rules s \<Longrightarrow> contents rules' s = contents rules s"
    and inv_add: "inv rules s \<Longrightarrow> inv rules (add rules w s)"
    and contents_add: "inv rules s \<Longrightarrow> contents rules (add rules w s) = add_mset w (contents rules s)"
    and inv_remove: "inv rules s \<Longrightarrow> inv rules (snd (remove rules w s))"
    and contents_remove: "inv rules s \<Longrightarrow> contents rules (snd (remove rules w s)) = contents rules s - {#w#}"
    and found_remove: "inv rules s \<Longrightarrow> fst (remove rules w s) \<longleftrightarrow> w \<in># contents rules s"
    and find_contents: "inv rules s \<Longrightarrow>
      mset (find rules msg s) = filter_mset (\<lambda>w. rule_match (rules w) msg) (contents rules s)"

text \<open>A sequence of operations, and what is in the set after it.\<close>

datatype ws_op = Add watch | Remove watch

fun ops_contents :: "ws_op list \<Rightarrow> watch multiset \<Rightarrow> watch multiset" where
  "ops_contents [] m = m"
| "ops_contents (Add w # ops) m = ops_contents ops (add_mset w m)"
| "ops_contents (Remove w # ops) m = ops_contents ops (m - {#w#})"

fun run_ops :: "(watch \<Rightarrow> 's \<Rightarrow> 's) \<Rightarrow> (watch \<Rightarrow> 's \<Rightarrow> bool \<times> 's) \<Rightarrow> ws_op list \<Rightarrow> 's \<Rightarrow> 's" where
  "run_ops add remove [] s = s"
| "run_ops add remove (Add w # ops) s = run_ops add remove ops (add w s)"
| "run_ops add remove (Remove w # ops) s = run_ops add remove ops (snd (remove w s))"

context watch_registry begin

abbreviation run :: "rules \<Rightarrow> ws_op list \<Rightarrow> 's \<Rightarrow> 's" where
  "run rules \<equiv> run_ops (add rules) (remove rules)"

lemma run_contents:
  "inv rules s \<Longrightarrow> inv rules (run rules ops s) \<and>
     contents rules (run rules ops s) = ops_contents ops (contents rules s)"
proof (induction ops arbitrary: s)
  case (Cons op ops)
  then show ?case by (cases op) (simp_all add: inv_add inv_remove contents_add contents_remove)
qed simp

text \<open>Matching after a sequence of operations, with the owners of names as they are by then.\<close>

lemma run_find:
  assumes "same_keys rules rules'"
  shows "mset (find rules' msg (run rules ops start)) =
    filter_mset (\<lambda>w. rule_match (rules' w) msg) (ops_contents ops {#})"
proof -
  have r: "inv rules (run rules ops start)" "contents rules (run rules ops start) = ops_contents ops {#}"
    using run_contents [OF inv_start] by (simp_all add: contents_start)
  show ?thesis
    using find_contents [OF inv_keys [OF assms r(1)]] contents_keys [OF assms r(1)] r(2) by simp
qed

lemma add_remove:
  assumes "inv rules s"
  shows "fst (remove rules w (add rules w s))"
    and "contents rules (snd (remove rules w (add rules w s))) = contents rules s"
  using assms by (simp_all add: inv_add found_remove contents_add contents_remove)

lemma removed_not_found:
  assumes "inv rules s" and "count (contents rules s) w \<le> 1"
  shows "w \<notin> set (find rules msg (snd (remove rules w s)))"
proof -
  have "count (contents rules s - {#w#}) w = 0" using assms(2) by simp
  then have "w \<notin># filter_mset (\<lambda>w. rule_match (rules w) msg) (contents rules s - {#w#})"
    by (simp add: count_eq_zero_iff [symmetric])
  then show ?thesis
    using find_contents [OF inv_remove [OF assms(1)], of msg w] contents_remove [OF assms(1)]
    by (metis set_mset_mset)
qed

end

section \<open>The nested maps keep the contract\<close>

definition ws_at :: "watch_set \<Rightarrow> string \<Rightarrow> string \<Rightarrow> string \<Rightarrow> watch list" where
  "ws_at self path iface member =
     (case self path of None \<Rightarrow> [] | Some byInterface \<Rightarrow>
       (case byInterface iface of None \<Rightarrow> [] | Some byMember \<Rightarrow>
         (case byMember member of None \<Rightarrow> [] | Some watches \<Rightarrow> watches)))"

definition ws_home :: "rules \<Rightarrow> watch_set \<Rightarrow> watch \<Rightarrow> watch list" where
  "ws_home rules self w = ws_at self (r_path (rules w)) (r_iface (rules w)) (r_member (rules w))"

text \<open>Every watch stands at the keys of its rule; \<open>ws_contents\<close> collects the slices of all keys.\<close>

definition ws_keys :: "watch_set \<Rightarrow> (string \<times> string \<times> string) set" where
  "ws_keys self = {(p, i, m). ws_at self p i m \<noteq> []}"

definition ws_inv :: "rules \<Rightarrow> watch_set \<Rightarrow> bool" where
  "ws_inv rules self \<longleftrightarrow> finite (ws_keys self) \<and>
     (\<forall>p i m. \<forall>w \<in> set (ws_at self p i m). (p, i, m) = (r_path (rules w), r_iface (rules w), r_member (rules w)))"

definition ws_contents :: "rules \<Rightarrow> watch_set \<Rightarrow> watch multiset" where
  "ws_contents rules self = (\<Sum>(p, i, m) \<in> ws_keys self. mset (ws_at self p i m))"

definition ws_put :: "string \<Rightarrow> string \<Rightarrow> string \<Rightarrow> watch list \<Rightarrow> watch_set \<Rightarrow> watch_set" where
  "ws_put p i m ws self =
     (let byInterface = (case self p of Some b \<Rightarrow> b | None \<Rightarrow> Map.empty);
          byMember = (case byInterface i of Some b \<Rightarrow> b | None \<Rightarrow> Map.empty)
      in self(p \<mapsto> byInterface(i \<mapsto> byMember(m \<mapsto> ws))))"

lemma ws_at_empty [simp]: "ws_at Map.empty p i m = []"
  by (simp add: ws_at_def)

lemma ws_at_put [simp]:
  "ws_at (ws_put p i m ws self) p' i' m' = (if (p', i', m') = (p, i, m) then ws else ws_at self p' i' m')"
  by (auto simp: ws_at_def ws_put_def Let_def split: option.splits)

lemma ws_add_put:
  "ws_add rules w self =
     ws_put (r_path (rules w)) (r_iface (rules w)) (r_member (rules w)) (ws_home rules self w @ [w]) self"
  by (auto simp: ws_add_def ws_put_def ws_home_def ws_at_def Let_def split: option.splits)

lemma remove_swap_Nil [simp]: "remove_swap w [] = None"
  by (simp add: remove_swap_def)

lemma ws_remove_put:
  "ws_remove rules w self =
     (case remove_swap w (ws_home rules self w) of
        None \<Rightarrow> (False, self)
      | Some ws \<Rightarrow> (True, ws_put (r_path (rules w)) (r_iface (rules w)) (r_member (rules w)) ws self))"
  by (auto simp: ws_remove_def ws_put_def ws_home_def ws_at_def Let_def split: option.splits)

lemma concat_map_Nil [simp]: "concat (map (\<lambda>x. []) xs) = []"
  by (induction xs) simp_all

lemma ws_find_at:
  "ws_find rules msg self =
     concat (map (\<lambda>p. concat (map (\<lambda>i. concat (map (\<lambda>m.
       filter (\<lambda>w. rule_match (rules w) msg) (ws_at self p i m))
     (match_keys (m_member msg)))) (match_keys (m_iface msg)))) (match_keys (m_path msg)))"
  unfolding ws_find_def ws_at_def
  by (intro arg_cong [where f = concat] map_cong refl) (auto split: option.splits intro!: arg_cong [where f = concat] map_cong)

lemma remove_swap_None [simp]: "remove_swap w ws = None \<longleftrightarrow> w \<notin> set ws"
  by (simp add: remove_swap_def)

lemma remove_swap_mset:
  assumes "remove_swap w ws = Some ws'"
  shows "mset ws' = mset ws - {#w#}" and "w \<in> set ws"
proof -
  obtain i where i: "index_of w ws = Some i" "ws' = butlast (ws[i := last ws])"
    using assms by (auto simp: remove_swap_def)
  let ?a = "take i ws" and ?b = "drop (Suc i) ws"
  have ws: "ws = ?a @ w # ?b" and len: "length ?a = i"
    using index_of_Some [OF i(1)] by auto
  show "w \<in> set ws" by (subst ws) simp
  show "mset ws' = mset ws - {#w#}"
  proof (cases ?b rule: rev_cases)
    case Nil
    then have "ws = ?a @ [w]" using ws by simp
    then have "ws[i := last ws] = ws" using len by (metis last_snoc list_update_length)
    then show ?thesis using i(2) \<open>ws = ?a @ [w]\<close> by (metis butlast_snoc mset_append mset_single_iff add_diff_cancel_right')
  next
    case (snoc ys l)
    then have w: "ws = ?a @ w # ys @ [l]" using ws by simp
    then have "last ws = l" by (metis last_snoc append.assoc append_Cons)
    then have "ws[i := last ws] = (?a @ l # ys) @ [l]"
      using w len by (metis append.assoc append_Cons list_update_length)
    then have "ws' = ?a @ l # ys" using i(2) by (simp only: butlast_snoc)
    then have "mset ws' = mset ?a + add_mset l (mset ys)" by simp
    moreover have "mset ws = mset ?a + add_mset w (add_mset l (mset ys))" by (subst w) simp
    ultimately show ?thesis by simp
  qed
qed

text \<open>Counting: a watch is where its rule says, so its slice tells how often it is in the set.\<close>

lemma count_at:
  assumes "ws_inv rules self"
  shows "count (mset (ws_at self p i m)) w =
    (if p = r_path (rules w) then if i = r_iface (rules w) then if m = r_member (rules w)
       then count (mset (ws_home rules self w)) w else 0 else 0 else 0)"
  using assms unfolding ws_inv_def ws_home_def
  by (auto simp: count_eq_zero_iff)

lemma count_contents:
  assumes "ws_inv rules self"
  shows "count (ws_contents rules self) w = count (mset (ws_home rules self w)) w"
proof -
  let ?k = "(r_path (rules w), r_iface (rules w), r_member (rules w))" and ?c = "count (mset (ws_home rules self w)) w"
  have fin: "finite (ws_keys self)" using assms by (simp add: ws_inv_def)
  have "count (ws_contents rules self) w = (\<Sum>k \<in> ws_keys self. if ?k = k then ?c else 0)"
    unfolding ws_contents_def count_sum
    by (rule sum.cong) (auto simp: count_at [OF assms] split: if_splits)
  also have "\<dots> = ?c"
    using fin by (auto simp: ws_keys_def ws_home_def)
  finally show ?thesis .
qed

lemma match_keys_distinct: "distinct (match_keys k)"
  by (simp add: match_keys_def)

lemma count_concat: "distinct ks \<Longrightarrow> count (mset (concat (map f ks))) w = (\<Sum>k \<in> set ks. count (mset (f k)) w)"
  by (induction ks) simp_all

lemma match_in_keys:
  "rule_match r msg \<Longrightarrow> r_path r \<in> set (match_keys (m_path msg)) \<and> r_iface r \<in> set (match_keys (m_iface msg)) \<and>
     r_member r \<in> set (match_keys (m_member msg))"
  by (auto simp: rule_match_def match_keys_def split: if_splits)

lemma sum_triple:
  fixes v :: nat
  assumes "finite A" "finite B" "finite C" and "a \<in> A" "b \<in> B" "c \<in> C"
  shows "(\<Sum>x \<in> A. \<Sum>y \<in> B. \<Sum>z \<in> C. if x = a then if y = b then if z = c then v else 0 else 0 else 0) = v"
proof -
  have "(\<Sum>z \<in> C. if x = a then if y = b then if z = c then v else 0 else 0 else 0) =
      (if x = a then if y = b then v else 0 else 0)" for x y
    using assms by simp
  moreover have "(\<Sum>y \<in> B. if x = a then if y = b then v else 0 else 0) = (if x = a then v else 0)" for x
    using assms by simp
  ultimately show ?thesis using assms by simp
qed

lemma count_find:
  assumes "ws_inv rules self"
  shows "count (mset (ws_find rules msg self)) w =
    (if rule_match (rules w) msg then count (mset (ws_home rules self w)) w else 0)"
proof (cases "rule_match (rules w) msg")
  case True
  have "count (mset (filter (\<lambda>w. rule_match (rules w) msg) (ws_at self p i m))) w = count (mset (ws_at self p i m)) w" for p i m
    using True by simp
  then show ?thesis
    using True match_in_keys [OF True]
    by (simp add: ws_find_at count_concat match_keys_distinct count_at [OF assms] sum_triple)
next
  case False
  then show ?thesis by (simp add: ws_find_at count_concat match_keys_distinct)
qed

lemma ws_inv_put:
  assumes "ws_inv rules self" and "\<forall>w' \<in> set ws. (p, i, m) = (r_path (rules w'), r_iface (rules w'), r_member (rules w'))"
  shows "ws_inv rules (ws_put p i m ws self)"
proof -
  have "ws_keys (ws_put p i m ws self) \<subseteq> insert (p, i, m) (ws_keys self)"
    by (auto simp: ws_keys_def)
  then have "finite (ws_keys (ws_put p i m ws self))"
    using assms(1) finite_subset by (fastforce simp: ws_inv_def)
  then show ?thesis using assms by (auto simp: ws_inv_def)
qed

lemma home_keys:
  assumes "ws_inv rules self"
  shows "\<forall>w' \<in> set (ws_home rules self w). (r_path (rules w), r_iface (rules w), r_member (rules w)) =
    (r_path (rules w'), r_iface (rules w'), r_member (rules w'))"
  using assms unfolding ws_inv_def ws_home_def by blast

text \<open>A slice put at the keys of \<open>w\<close> that is, as a multiset, a change of the one that was there.\<close>

lemma contents_put:
  assumes "ws_inv rules self"
    and "self' = ws_put (r_path (rules w)) (r_iface (rules w)) (r_member (rules w)) ws self"
    and "ws_inv rules self'"
  shows "ws_contents rules self' + mset (ws_home rules self w) = ws_contents rules self + mset ws"
proof (rule multiset_eqI)
  fix w'
  show "count (ws_contents rules self' + mset (ws_home rules self w)) w' = count (ws_contents rules self + mset ws) w'"
  proof (cases "(r_path (rules w'), r_iface (rules w'), r_member (rules w')) =
      (r_path (rules w), r_iface (rules w), r_member (rules w))")
    case True
    then show ?thesis
      using count_contents [OF assms(1)] count_contents [OF assms(3)] by (simp add: assms(2) ws_home_def)
  next
    case False
    have "w' \<notin> set (ws_home rules self w)" using home_keys [OF assms(1)] False by fastforce
    moreover have "w' \<notin> set ws"
    proof
      assume "w' \<in> set ws"
      then have "w' \<in> set (ws_home rules self' w)" by (simp add: assms(2) ws_home_def)
      then show False using home_keys [OF assms(3)] False by fastforce
    qed
    moreover have "ws_home rules self' w' = ws_home rules self w'"
      using False by (auto simp: assms(2) ws_home_def)
    ultimately show ?thesis
      using count_contents [OF assms(1)] count_contents [OF assms(3)] by (simp add: count_eq_zero_iff [THEN iffD2])
  qed
qed

lemma ws_add_inv: "ws_inv rules self \<Longrightarrow> ws_inv rules (ws_add rules w self)"
  unfolding ws_add_put by (rule ws_inv_put) (use home_keys [of rules self w] in auto)

lemma ws_remove_inv:
  assumes "ws_inv rules self"
  shows "ws_inv rules (snd (ws_remove rules w self))"
proof (cases "remove_swap w (ws_home rules self w)")
  case (Some ws)
  have "set ws \<subseteq> set (ws_home rules self w)"
    using remove_swap_mset(1) [OF Some] by (metis in_diffD set_mset_mset subsetI)
  then show ?thesis
    using home_keys [OF assms, of w] Some by (auto simp: ws_remove_put intro!: ws_inv_put [OF assms])
qed (simp add: ws_remove_put assms del: remove_swap_None)

interpretation watches: watch_registry ws_inv ws_contents Map.empty ws_add ws_remove ws_find
proof unfold_locales
  show "ws_inv rules Map.empty" "ws_contents rules Map.empty = {#}" for rules
    by (simp_all add: ws_inv_def ws_contents_def ws_keys_def split_def)
next
  fix rules rules' :: rules and s :: watch_set
  assume "same_keys rules rules'" "ws_inv rules s"
  then show "ws_inv rules' s" by (simp add: same_keys_def ws_inv_def)
  show "ws_contents rules' s = ws_contents rules s" by (simp add: ws_contents_def)
next
  fix rules :: rules and s :: watch_set and w
  assume inv: "ws_inv rules s"
  show "ws_inv rules (ws_add rules w s)" "ws_inv rules (snd (ws_remove rules w s))"
    using inv by (rule ws_add_inv ws_remove_inv)+
  show "ws_contents rules (ws_add rules w s) = add_mset w (ws_contents rules s)"
    using contents_put [OF inv ws_add_put ws_add_inv [OF inv]] by simp
  have home: "w \<in># ws_contents rules s \<longleftrightarrow> w \<in> set (ws_home rules s w)"
    by (metis count_contents [OF inv] count_greater_zero_iff set_mset_mset)
  show "fst (ws_remove rules w s) \<longleftrightarrow> w \<in># ws_contents rules s"
    unfolding home by (auto simp: ws_remove_put split: option.splits dest: remove_swap_mset(2))
  show "ws_contents rules (snd (ws_remove rules w s)) = ws_contents rules s - {#w#}"
  proof (cases "remove_swap w (ws_home rules s w)")
    case None
    then have "w \<notin># ws_contents rules s" using home by simp
    then show ?thesis using None by (simp add: ws_remove_put diff_single_trivial del: remove_swap_None)
  next
    case (Some ws)
    let ?s = "ws_put (r_path (rules w)) (r_iface (rules w)) (r_member (rules w)) ws s"
    have r: "ws_remove rules w s = (True, ?s)" using Some by (simp add: ws_remove_put)
    then have "ws_inv rules ?s" using ws_remove_inv [OF inv, of w] by simp
    from contents_put [OF inv refl this] have "ws_contents rules ?s + mset (ws_home rules s w) = ws_contents rules s + mset ws" .
    moreover have "mset (ws_home rules s w) = add_mset w (mset ws)"
      using remove_swap_mset [OF Some] by simp
    ultimately have "add_mset w (ws_contents rules ?s) + mset ws = ws_contents rules s + mset ws" by simp
    then have "ws_contents rules s = add_mset w (ws_contents rules ?s)" by (simp only: add_right_cancel)
    then show ?thesis by (simp add: r)
  qed
next
  fix rules :: rules and msg and s :: watch_set
  assume "ws_inv rules s"
  then show "mset (ws_find rules msg s) = filter_mset (\<lambda>w. rule_match (rules w) msg) (ws_contents rules s)"
    by (intro multiset_eqI) (simp add: count_find count_contents)
qed

section \<open>Properties\<close>

text \<open>
  C7. After any sequence of additions and removals, \<open>FindMatches\<close> returns exactly the watches that are in
  the set and whose rule matches the message, although it looks only at eight of the keys; the owners
  of sender names may have changed since the watches were added.
\<close>

theorem find_matches_exact:
  assumes "same_keys rules rules'"
  shows "mset (ws_find rules' msg (run_ops (ws_add rules) (ws_remove rules) ops Map.empty)) =
    filter_mset (\<lambda>w. rule_match (rules' w) msg) (ops_contents ops {#})"
  by (rule watches.run_find [OF assms])

definition any_rule :: match_rule where
  "any_rule = \<lparr>r_type = 4, r_sender = [], r_path = [], r_iface = [], r_member = [], r_arg0 = [], r_owner = []\<rparr>"

definition two_rules :: rules where
  "two_rules w = (if w = 0 then any_rule else any_rule\<lparr>r_path := ''/a'', r_member := ''M''\<rparr>)"

theorem find_matches_exact_witness:
  "mset (ws_find two_rules (new_signal_message ''/a'' ''i.f'' ''N'')
     (run_ops (ws_add two_rules) (ws_remove two_rules) [Add 0, Add 1, Add 2, Remove 1] Map.empty)) = {#0#}"
proof -
  have "rule_match (two_rules 0) (new_signal_message ''/a'' ''i.f'' ''N'')"
      "\<not> rule_match (two_rules 2) (new_signal_message ''/a'' ''i.f'' ''N'')"
    by code_simp+
  then show ?thesis
    unfolding find_matches_exact [OF same_keys_refl] by simp
qed

text \<open>
  \<open>Remove\<close> says whether the watch was in the set, and takes out that watch once and nothing else,
  although it moves the last watch of the slice into its place.
\<close>

lemma remove_exact:
  "let s = run_ops (ws_add rules) (ws_remove rules) ops Map.empty in
    (fst (ws_remove rules w s) \<longleftrightarrow> w \<in># ops_contents ops {#}) \<and>
    mset (ws_find rules msg (snd (ws_remove rules w s))) =
      filter_mset (\<lambda>w. rule_match (rules w) msg) (ops_contents ops {#} - {#w#})"
proof -
  define s where "s = run_ops (ws_add rules) (ws_remove rules) ops Map.empty"
  have r: "ws_inv rules s" "ws_contents rules s = ops_contents ops {#}"
    using watches.run_contents [OF watches.inv_start, of rules ops] watches.contents_start [of rules]
    unfolding s_def by metis+
  then show ?thesis
    unfolding s_def [symmetric] Let_def
    by (simp add: watches.found_remove watches.find_contents watches.inv_remove watches.contents_remove)
qed

end
