(* ===== verification/MessageIO.thy ===== *)
theory MessageIO
  imports Messages
begin

text \<open>
  The two directions of the transport of messages (message.go): \<open>WriteTo\<close> and \<open>readMessage\<close>.

  The byte order of a message is one of the two of package \<open>encoding/binary\<close>, the only ones the
  package sets; \<open>WriteTo\<close>'s error for a third one is not modelled.
\<close>

section \<open>WriteTo\<close>

text \<open>\<open>headerField{code, Variant{v}}\<close>, and the list that \<open>WriteTo\<close> builds.\<close>

abbreviation header_field_type :: gotype where
  "header_field_type \<equiv> TStruct [TUint8, TVariant]"

definition header_field :: "byte \<Rightarrow> gotype \<Rightarrow> gval \<Rightarrow> gval" where
  "header_field code t v = VStruct [VUint8 code, VVariant t v]"

definition header_fields :: "message \<Rightarrow> gval list" where
  "header_fields p =
     (if m_path p \<noteq> [] then [header_field 1 TObjectPath (VString (m_path p))] else []) @
     (if m_iface p \<noteq> [] then [header_field 2 TString (VString (m_iface p))] else []) @
     (if m_member p \<noteq> [] then [header_field 3 TString (VString (m_member p))] else []) @
     (if m_error_name p \<noteq> [] then [header_field 4 TString (VString (m_error_name p))] else []) @
     (if m_reply_serial p \<noteq> 0 then [header_field 5 TUint32 (VUint32 (m_reply_serial p))] else []) @
     (if m_dest p \<noteq> [] then [header_field 6 TString (VString (m_dest p))] else []) @
     (if m_sender p \<noteq> [] then [header_field 7 TString (VString (m_sender p))] else []) @
     (if m_sig p \<noteq> [] then [header_field 8 TSignature (VString (m_sig p))] else [])"

definition order_tag :: "byte_order \<Rightarrow> byte" where
  "order_tag order = (case order of LittleEndian \<Rightarrow> 108 | BigEndian \<Rightarrow> 66)"

text \<open>The header up to the body, with the padding before the body.\<close>

definition header_args :: "message \<Rightarrow> (gotype \<times> gval) list" where
  "header_args p =
     [(TUint8, VUint8 (order_tag (m_order p))), (TUint8, VUint8 (m_type p)), (TUint8, VUint8 (m_flags p)),
      (TUint8, VUint8 (m_protocol p)), (TUint32, VUint32 (of_nat (length (m_body p)))),
      (TUint32, VUint32 (m_serial p)), (TSlice header_field_type, VList (header_fields p))]"

definition header_bytes :: "methods \<Rightarrow> message \<Rightarrow> byte list result" where
  "header_bytes M p =
     ebind (e_append M (header_args p) (new_encoder [] [] (m_order p))) (\<lambda>header.
       Inr (e_data (e_align 8 header)))"

text \<open>
  The writer is a parameter: given the bytes and its state it returns how many it wrote, the error if
  there was one, and its new state. \<open>write_to\<close> returns the count, the error and the writer's state.
\<close>

type_synonym 'w writer = "byte list \<Rightarrow> 'w \<Rightarrow> nat \<times> go_error option \<times> 'w"

definition write_to :: "methods \<Rightarrow> 'w writer \<Rightarrow> message \<Rightarrow> 'w \<Rightarrow> (nat \<times> go_error option \<times> 'w) result" where
  "write_to M write p w =
     (case header_bytes M p of
        Inl (Error err) \<Rightarrow> Inr (0, Some err, w)
      | Inl fail \<Rightarrow> Inl fail
      | Inr header \<Rightarrow>
          (case write header w of
             (m, Some err, w1) \<Rightarrow> Inr (m, Some err, w1)
           | (m, None, w1) \<Rightarrow>
               if m \<noteq> length header then Inr (m, Some (ErrNew ''Failed to write complete message header''), w1)
               else (case write (m_body p) w1 of
                       (n, Some err, w2) \<Rightarrow> Inr (m + n, Some err, w2)
                     | (n, None, w2) \<Rightarrow>
                         if n \<noteq> length (m_body p)
                         then Inr (m + n, Some (ErrNew ''Failed to write complete message body''), w2)
                         else Inr (m + n, None, w2))))"

section \<open>readMessage\<close>

text \<open>
  The connection as a reader: what successive calls of \<open>Read\<close> have to deliver, in chunks as they
  arrive, or a failure of the connection; an empty list is end of file. \<open>Read\<close> returns at most one
  chunk; \<open>io.ReadFull\<close> repeats it.
\<close>

datatype chunk = Bytes "byte list" | Fail string

type_synonym reader = "chunk list"

definition read_once :: "nat \<Rightarrow> reader \<Rightarrow> byte list \<times> go_error option \<times> reader" where
  "read_once k r =
     (if k = 0 then ([], None, r)
      else case r of
        [] \<Rightarrow> ([], Some ErrEOF, [])
      | Fail s # r' \<Rightarrow> ([], Some (ErrIO s), r')
      | Bytes bs # r' \<Rightarrow>
          if k < length bs then (take k bs, None, Bytes (drop k bs) # r') else (bs, None, r'))"

fun read_full :: "nat \<Rightarrow> reader \<Rightarrow> byte list \<times> go_error option \<times> reader" where
  "read_full k [] = (if k = 0 then ([], None, []) else ([], Some ErrEOF, []))"
| "read_full k (c # r) =
     (if k = 0 then ([], None, c # r)
      else case c of
        Fail s \<Rightarrow> ([], Some (ErrIO s), r)
      | Bytes bs \<Rightarrow>
          if k < length bs then (take k bs, None, Bytes (drop k bs) # r)
          else (let (cs, err, r') = read_full (k - length bs) r
                in (bs @ cs, if err = Some ErrEOF \<and> bs \<noteq> [] then Some ErrUnexpectedEOF else err, r')))"

definition header_padding :: "nat \<Rightarrow> nat" where
  "header_padding len =
     (let p = (- (16 + int len)) smod 8 in nat (if p < 0 then p + 8 else p))"

text \<open>The type assertions on the header fields: \<open>field.Value.Value.(string)\<close> panics on another type.\<close>

definition assert_string :: "gotype \<Rightarrow> gval \<Rightarrow> string result" where
  "assert_string t v =
     (case v of VIface u (VString s) \<Rightarrow> if u = t then Inr s else Inl (Panic ''interface conversion'')
      | _ \<Rightarrow> Inl (Panic ''interface conversion''))"

definition assert_uint32 :: "gval \<Rightarrow> 32 word result" where
  "assert_uint32 v =
     (case v of VIface u (VUint32 x) \<Rightarrow> if u = TUint32 then Inr x else Inl (Panic ''interface conversion'')
      | _ \<Rightarrow> Inl (Panic ''interface conversion''))"

definition set_field :: "byte \<Rightarrow> gval \<Rightarrow> message \<Rightarrow> message result" where
  "set_field code v msg =
     (if code = 1 then ebind (assert_string TObjectPath v) (\<lambda>s. Inr (msg\<lparr>m_path := s\<rparr>))
      else if code = 2 then ebind (assert_string TString v) (\<lambda>s. Inr (msg\<lparr>m_iface := s\<rparr>))
      else if code = 3 then ebind (assert_string TString v) (\<lambda>s. Inr (msg\<lparr>m_member := s\<rparr>))
      else if code = 4 then ebind (assert_string TString v) (\<lambda>s. Inr (msg\<lparr>m_error_name := s\<rparr>))
      else if code = 5 then ebind (assert_uint32 v) (\<lambda>x. Inr (msg\<lparr>m_reply_serial := x\<rparr>))
      else if code = 6 then ebind (assert_string TString v) (\<lambda>s. Inr (msg\<lparr>m_dest := s\<rparr>))
      else if code = 7 then ebind (assert_string TString v) (\<lambda>s. Inr (msg\<lparr>m_sender := s\<rparr>))
      else if code = 8 then ebind (assert_string TSignature v) (\<lambda>s. Inr (msg\<lparr>m_sig := s\<rparr>))
      else Inr msg)"

fun set_fields :: "gval list \<Rightarrow> message \<Rightarrow> message result" where
  "set_fields [] msg = Inr msg"
| "set_fields (f # fs) msg =
     (case f of
        VStruct [VUint8 code, VStruct [v]] \<Rightarrow> ebind (set_field code v msg) (set_fields fs)
      | _ \<Rightarrow> Inl (Panic ''not a header field''))"

definition short_read :: "string \<Rightarrow> go_error option \<Rightarrow> 'a result" where
  "short_read text err = Inl (Error (case err of None \<Rightarrow> ErrNew text | Some e \<Rightarrow> e))"

text \<open>
  The fixed part: what the first sixteen bytes say. The values of \<open>Decode\<close> have the types of the
  variables, so the last case never arises.
\<close>

record fixed_header =
  h_type :: byte
  h_flags :: byte
  h_protocol :: byte
  h_body_len :: "32 word"
  h_serial :: "32 word"
  h_fields_len :: "32 word"

definition read_fixed :: "nat \<Rightarrow> byte_order \<Rightarrow> byte list \<Rightarrow> fixed_header result" where
  "read_fixed n order header =
     ebind (decode_args n
         [PtrTo TUint8 (VUint8 0), PtrTo TUint8 (VUint8 0), PtrTo TUint8 (VUint8 0), PtrTo TUint8 (VUint8 1),
          PtrTo TUint32 (VUint32 0), PtrTo TUint32 (VUint32 0), PtrTo TUint32 (VUint32 0)]
         (new_decoder ''yyyyuuu'' header order))
       (\<lambda>(ws, d).
         case ws of
           [VUint8 tag, VUint8 ty, VUint8 flags, VUint8 protocol, VUint32 body, VUint32 serial, VUint32 len] \<Rightarrow>
             Inr \<lparr>h_type = ty, h_flags = flags, h_protocol = protocol, h_body_len = body,
                  h_serial = serial, h_fields_len = len\<rparr>
         | _ \<Rightarrow> Inl (Panic ''unreachable''))"

definition read_fields :: "nat \<Rightarrow> byte_order \<Rightarrow> byte list \<Rightarrow> message \<Rightarrow> message result" where
  "read_fields n order headerFields msg =
     ebind (decode_args n [PtrTo (TSlice header_field_type) (VList [])]
         ((new_decoder ''a(yv)'' headerFields order)\<lparr>d_off := 12\<rparr>))
       (\<lambda>(ws, d).
         case ws of [VList fs] \<Rightarrow> set_fields fs msg | _ \<Rightarrow> Inl (Panic ''unreachable''))"

definition byte_order_of :: "byte \<Rightarrow> byte_order option" where
  "byte_order_of b = (if b = 108 then Some LittleEndian else if b = 66 then Some BigEndian else None)"

definition read_message :: "nat \<Rightarrow> reader \<Rightarrow> message result \<times> reader" where
  "read_message n r0 =
     (case read_once 16 r0 of (header, err, r1) \<Rightarrow>
      if length header < 16 then (short_read ''Could not read message header'' err, r1)
      else case byte_order_of (header ! 0) of
        None \<Rightarrow> (Inl (Error (ErrUnknownEndianness (char_of_byte (header ! 0)))), r1)
      | Some order \<Rightarrow>
          (case read_fixed n order header of
             Inl fail \<Rightarrow> (Inl fail, r1)
           | Inr h \<Rightarrow>
               (let len = unat (h_fields_len h) + header_padding (unat (h_fields_len h)) in
                case read_once len r1 of (bytes, err, r2) \<Rightarrow>
                if length bytes < len then (short_read ''Could not read message header fields'' err, r2)
                else case read_fields n order (header @ bytes)
                    (new_message\<lparr>m_order := order, m_type := h_type h, m_flags := h_flags h,
                       m_protocol := h_protocol h, m_serial := h_serial h\<rparr>) of
                  Inl fail \<Rightarrow> (Inl fail, r2)
                | Inr msg \<Rightarrow>
                    (case read_full (unat (h_body_len h)) r2 of (body, err, r3) \<Rightarrow>
                     if length body < unat (h_body_len h) then (short_read ''Could not read message body'' err, r3)
                     else (Inr (msg\<lparr>m_body := body\<rparr>), r3)))))"

section \<open>Readers\<close>

lemma header_padding_eq: "header_padding len = padlen 8 (16 + len)"
proof -
  have "(- (16 + int len)) smod 8 = - int ((16 + len) mod 8)"
    by (simp add: signed_modulo_int_def zmod_int add.commute)
  moreover have "(16 + len) mod 8 < 8" by simp
  ultimately show ?thesis
    by (cases "(16 + len) mod 8 = 0") (simp_all add: header_padding_def padlen_def nat_minus_as_int)
qed

text \<open>A chunk in front of the others, if it is not empty.\<close>

definition push :: "byte list \<Rightarrow> reader \<Rightarrow> reader" where
  "push bs r = (if bs = [] then r else Bytes bs # r)"

lemma read_once_push: "read_once (length a) (push (a @ b) r) = (a, None, push b r)"
  by (auto simp: read_once_def push_def)

lemma read_full_0 [simp]: "read_full 0 r = ([], None, r)"
  by (cases r) simp_all

lemma read_full_chunks:
  "[] \<notin> set cs \<Longrightarrow> read_full (length (concat cs)) (map Bytes cs @ r) = (concat cs, None, r)"
  by (induction cs) auto

lemma read_full_push:
  assumes "[] \<notin> set cs"
  shows "read_full (length (b @ concat cs)) (push b (map Bytes cs @ r)) = (b @ concat cs, None, r)"
  using read_full_chunks [OF assms] by (simp add: push_def)

text \<open>What \<open>ReadFull\<close> returns, whatever arrives: at most what was asked, and less only with an error.\<close>

lemma read_full_spec:
  "read_full k r = (bs, err, r') \<Longrightarrow> length bs \<le> k \<and> (err = None \<longleftrightarrow> length bs = k)"
proof (induction k r arbitrary: bs err r' rule: read_full.induct)
  case (2 k c r)
  show ?case
  proof (cases "k = 0 \<or> (\<exists>s. c = Fail s)")
    case True
    with "2.prems" show ?thesis by (auto split: if_splits)
  next
    case False
    then obtain ds where c: "c = Bytes ds" by (cases c) auto
    show ?thesis
    proof (cases "k < length ds")
      case True
      with "2.prems" False c show ?thesis by auto
    next
      case long: False
      obtain cs e r2 where i: "read_full (k - length ds) r = (cs, e, r2)"
        by (cases "read_full (k - length ds) r") auto
      have "length cs \<le> k - length ds \<and> (e = None \<longleftrightarrow> length cs = k - length ds)"
        using "2.IH" [OF _ c long i] False by simp
      with "2.prems" False c long i show ?thesis by (auto split: if_splits)
    qed
  qed
qed (auto split: if_splits)

section \<open>The header and its fields\<close>

lemma set_fields_append: "set_fields (xs @ ys) m = ebind (set_fields xs m) (set_fields ys)"
proof (induction xs arbitrary: m)
  case (Cons x xs)
  then show ?case
    by (auto simp: ebind_assoc split: gval.splits list.splits intro!: ebind_cong)
qed simp

lemma set_one_field:
  "m_path m = [] \<Longrightarrow>
     set_fields (if m_path p \<noteq> [] then [header_field 1 TObjectPath (VString (m_path p))] else []) m =
       Inr (m\<lparr>m_path := m_path p\<rparr>)"
  "m_iface m = [] \<Longrightarrow>
     set_fields (if m_iface p \<noteq> [] then [header_field 2 TString (VString (m_iface p))] else []) m =
       Inr (m\<lparr>m_iface := m_iface p\<rparr>)"
  "m_member m = [] \<Longrightarrow>
     set_fields (if m_member p \<noteq> [] then [header_field 3 TString (VString (m_member p))] else []) m =
       Inr (m\<lparr>m_member := m_member p\<rparr>)"
  "m_error_name m = [] \<Longrightarrow>
     set_fields (if m_error_name p \<noteq> [] then [header_field 4 TString (VString (m_error_name p))] else []) m =
       Inr (m\<lparr>m_error_name := m_error_name p\<rparr>)"
  "m_reply_serial m = 0 \<Longrightarrow>
     set_fields (if m_reply_serial p \<noteq> 0 then [header_field 5 TUint32 (VUint32 (m_reply_serial p))] else []) m =
       Inr (m\<lparr>m_reply_serial := m_reply_serial p\<rparr>)"
  "m_dest m = [] \<Longrightarrow>
     set_fields (if m_dest p \<noteq> [] then [header_field 6 TString (VString (m_dest p))] else []) m =
       Inr (m\<lparr>m_dest := m_dest p\<rparr>)"
  "m_sender m = [] \<Longrightarrow>
     set_fields (if m_sender p \<noteq> [] then [header_field 7 TString (VString (m_sender p))] else []) m =
       Inr (m\<lparr>m_sender := m_sender p\<rparr>)"
  "m_sig m = [] \<Longrightarrow>
     set_fields (if m_sig p \<noteq> [] then [header_field 8 TSignature (VString (m_sig p))] else []) m =
       Inr (m\<lparr>m_sig := m_sig p\<rparr>)"
  by (simp_all add: header_field_def set_field_def assert_string_def assert_uint32_def)

lemma set_header_fields:
  fixes p :: message
  assumes "m = new_message\<lparr>m_order := m_order p, m_type := m_type p, m_flags := m_flags p,
    m_protocol := m_protocol p, m_serial := m_serial p\<rparr>"
  shows "set_fields (header_fields p) m = Inr (p\<lparr>m_body := []\<rparr>)"
  unfolding header_fields_def set_fields_append assms new_message_def
  by (simp add: set_one_field del: set_fields.simps if_image_distrib split del: if_split)

text \<open>The header fields are exact values, so they survive the wire; none is marshalled unsafely.\<close>

definition basic_field :: "gval \<Rightarrow> bool" where
  "basic_field f \<longleftrightarrow> (\<exists>code t v. f = header_field code t v \<and> basic_type t \<and> has_type t v \<and> exact_val t v)"

lemma basic_fieldI:
  "basic_type t \<Longrightarrow> has_type t v \<Longrightarrow> exact_val t v \<Longrightarrow> basic_field (header_field code t v)"
  unfolding basic_field_def by blast

lemma header_fields_basic:
  assumes "length (m_sig p) < 256"
  shows "\<forall>f \<in> set (header_fields p). basic_field f"
  using assms by (auto simp: header_fields_def basic_type.simps intro!: basic_fieldI)

lemma basic_field_survives:
  assumes "basic_field f"
  shows "survives M header_field_type f"
    and "to_dval M header_field_type f = Some dv \<Longrightarrow> array_safe dv"
proof -
  obtain code t v where f: "f = header_field code t v" "basic_type t" "has_type t v" "exact_val t v"
    using assms by (auto simp: basic_field_def)
  have "kind_of t \<noteq> KInterface" using basic_type_cases [OF f(2)] by blast
  then show "survives M header_field_type f"
    using f by (intro exact_survives) (simp_all add: header_field_def basic_type.simps [of TUint8])
  have struct: "to_dval M header_field_type f = kind_dval M header_field_type f"
      "to_dval M TUint8 (VUint8 code) = Some (DByte code)"
      "to_dval M TVariant (VVariant t v) = kind_dval M TVariant (VVariant t v)"
    using exact_to_dval [of header_field_type M] exact_to_dval [of TUint8 M] exact_to_dval [of TVariant M]
    by (simp_all add: basic_type.simps)
  obtain d where d: "to_dval M t v = Some d" using basic_survives [OF f(2-4), of M] by (auto simp: survives_def)
  obtain c where "dty_of t = Some (DBasic c)" using basic_type_cases [OF f(2)] by blast
  then have "dval_ty d = DBasic c" using wire_ty_dty [OF dval_ty_of(1) [OF d]] by simp
  moreover have "stored TInterface VNil d = Some (VIface t v)" using basic_survives [OF f(2-4), of M] d by blast
  ultimately have "array_safe d"
    using f(2) by (cases d) (auto simp: basic_type.simps split: if_splits)
  then show "to_dval M header_field_type f = Some dv \<Longrightarrow> array_safe dv"
    using struct d dval_ty_of(1) [OF d] by (auto simp: f(1) header_field_def)
qed

lemma list_dval_safe:
  "list_dval M t vs = Some dvs \<Longrightarrow> \<forall>v \<in> set vs. \<forall>dv. to_dval M t v = Some dv \<longrightarrow> array_safe dv \<Longrightarrow>
   \<forall>dv \<in> set dvs. array_safe dv"
  by (induction vs arbitrary: dvs) (auto simp: bind_eq_Some_conv)

abbreviation field_dty :: dty where
  "field_dty \<equiv> DStr [DBasic CHR ''y'', DBasic CHR ''v'']"

lemma fields_dvals:
  assumes "length (m_sig p) < 256"
  obtains fds where "list_dval M header_field_type (header_fields p) = Some fds"
    "\<forall>dv \<in> set fds. wf_dval dv \<and> dval_ty dv = field_dty \<and> array_safe dv"
    "stored_list header_field_type fds = Some (header_fields p)"
proof -
  note b = header_fields_basic [OF assms]
  have "wire_ty header_field_type = Some field_dty" by (simp add: wire_ty_def)
  from list_survives [OF _ this, of "header_fields p" M] obtain fds where
    "list_dval M header_field_type (header_fields p) = Some fds"
    "\<forall>dv \<in> set fds. wf_dval dv \<and> dval_ty dv = field_dty"
    "stored_list header_field_type fds = Some (header_fields p)"
    using b basic_field_survives(1) by blast
  moreover have "\<forall>dv \<in> set fds. array_safe dv"
    using list_dval_safe [OF calculation(1)] b basic_field_survives(2) by blast
  ultimately show thesis using that by blast
qed

text \<open>The D-Bus values of the whole header, and their bytes.\<close>

definition header_dvals :: "message \<Rightarrow> dval list \<Rightarrow> dval list" where
  "header_dvals p fds =
     [DByte (order_tag (m_order p)), DByte (m_type p), DByte (m_flags p), DByte (m_protocol p),
      DUint32 (of_nat (length (m_body p))), DUint32 (m_serial p), DArray field_dty fds]"

lemma header_args_dval:
  assumes "list_dval M header_field_type (header_fields p) = Some fds"
  shows "args_dval M (header_args p) = Some (header_dvals p fds)"
proof -
  have "to_dval M TUint8 (VUint8 x) = Some (DByte x)" "to_dval M TUint32 (VUint32 y) = Some (DUint32 y)" for x y
    using exact_to_dval [of TUint8 M] exact_to_dval [of TUint32 M] by (simp_all add: basic_type.simps)
  moreover have "to_dval M (TSlice header_field_type) (VList (header_fields p)) = Some (DArray field_dty fds)"
    using exact_to_dval [of "TSlice header_field_type" M] assms by (simp add: basic_type.simps wire_ty_def)
  ultimately show ?thesis by (simp add: header_args_def header_dvals_def)
qed

definition fixed_bytes :: "message \<Rightarrow> nat \<Rightarrow> byte list" where
  "fixed_bytes p len =
     [order_tag (m_order p), m_type p, m_flags p, m_protocol p] @
     put_word (m_order p) 4 (of_nat (length (m_body p)) :: 32 word) @ put_word (m_order p) 4 (m_serial p) @
     put_word (m_order p) 4 (of_nat len :: 32 word)"

lemma length_fixed_bytes [simp]: "length (fixed_bytes p len) = 16"
  by (simp add: fixed_bytes_def)

lemma fixed_bytes_hd [simp]: "(fixed_bytes p len @ xs) ! 0 = order_tag (m_order p)" "fixed_bytes p len ! 0 = order_tag (m_order p)"
  by (simp_all add: fixed_bytes_def)

lemma byte_order_of_tag [simp]: "byte_order_of (order_tag order) = Some order"
  by (cases order) (simp_all add: byte_order_of_def order_tag_def)

lemma padlen_table [simp]: "padlen 4 4 = 0" "padlen 4 8 = 0" "padlen 4 12 = 0" "padlen 8 16 = 0" "padlen 4 0 = 0"
  "padlen 4 (Suc (Suc (Suc (Suc 0)))) = 0"
  by (simp_all add: padlen_def)

lemma header_marshal:
  assumes "body = marshal_list (m_order p) 16 fds"
  shows "marshal_list (m_order p) 0 (header_dvals p fds) = fixed_bytes p (length body) @ body"
  using assms by (simp add: header_dvals_def fixed_bytes_def Let_def padding_def)

lemma header_bytes_eq:
  assumes "list_dval M header_field_type (header_fields p) = Some fds" and "\<forall>dv \<in> set fds. array_safe dv"
    and "body = marshal_list (m_order p) 16 fds"
  shows "header_bytes M p =
    Inr (fixed_bytes p (length body) @ body @ padding 8 (16 + length body))"
proof -
  have "\<forall>dv \<in> set (header_dvals p fds). array_safe dv" using assms(2) by (simp add: header_dvals_def)
  from e_append_marshal [OF header_args_dval [OF assms(1)] this, of "new_encoder [] [] (m_order p)"]
  show ?thesis
    using header_marshal [OF assms(3)]
    by (simp add: header_bytes_def new_encoder_def e_align_eq e_write_def)
qed

text \<open>Reading back the fixed part.\<close>

lemma read_fixed_bytes:
  assumes "30 \<le> n"
  shows "read_fixed n (m_order p) (fixed_bytes p len) =
    Inr \<lparr>h_type = m_type p, h_flags = m_flags p, h_protocol = m_protocol p,
         h_body_len = of_nat (length (m_body p)), h_serial = m_serial p, h_fields_len = of_nat len\<rparr>"
proof -
  let ?args = "[PtrTo TUint8 (VUint8 0), PtrTo TUint8 (VUint8 0), PtrTo TUint8 (VUint8 0), PtrTo TUint8 (VUint8 1),
      PtrTo TUint32 (VUint32 0), PtrTo TUint32 (VUint32 0), PtrTo TUint32 (VUint32 0)]"
  let ?dvs = "[DByte (order_tag (m_order p)), DByte (m_type p), DByte (m_flags p), DByte (m_protocol p),
      DUint32 (of_nat (length (m_body p))), DUint32 (m_serial p), DUint32 (of_nat len)]"
  have s: "stored_args ?args ?dvs = Some [VUint8 (order_tag (m_order p)), VUint8 (m_type p), VUint8 (m_flags p),
      VUint8 (m_protocol p), VUint32 (of_nat (length (m_body p))), VUint32 (m_serial p), VUint32 (of_nat len)]"
    by (simp add: stops_short_def store_into_def)
  have m: "marshal_list (m_order p) 0 ?dvs = fixed_bytes p len"
    by (simp add: fixed_bytes_def Let_def padding_def)
  let ?d = "new_decoder ''yyyyuuu'' (fixed_bytes p len) (m_order p)"
  have "decode_args n ?args ?d =
      Inr ([VUint8 (order_tag (m_order p)), VUint8 (m_type p), VUint8 (m_flags p),
        VUint8 (m_protocol p), VUint32 (of_nat (length (m_body p))), VUint32 (m_serial p), VUint32 (of_nat len)],
        ?d\<lparr>d_off := 16, d_sigoff := 7\<rparr>)"
    using decode_args_stored [OF _ s, of n ?d "[]" "[]"] m assms
    by (simp add: new_decoder_def del: marshal_list.simps)
  then show ?thesis by (simp add: read_fixed_def)
qed

text \<open>Reading back the fields; \<open>big_enough\<close> is the fuel that this takes.\<close>

lemma read_fields_bytes:
  assumes "list_dval M header_field_type (header_fields p) = Some fds"
    and "\<forall>dv \<in> set fds. wf_dval dv \<and> dval_ty dv = field_dty"
    and "stored_list header_field_type fds = Some (header_fields p)"
    and "body = marshal_list (m_order p) 16 fds" and "size_list size fds + 20 \<le> n"
    and "16 + length body + length pad < 2 ^ 32"
  shows "read_fields n (m_order p) (fixed_bytes p (length body) @ body @ pad) m = set_fields (header_fields p) m"
proof -
  let ?d = "(new_decoder ''a(yv)'' (fixed_bytes p (length body) @ body @ pad) (m_order p))\<lparr>d_off := 12\<rparr>"
  let ?dv = "DArray field_dty fds" and ?t = "TSlice header_field_type"
  have s: "stored_args [PtrTo ?t (VList [])] [?dv] = Some [VList (header_fields p)]"
    using assms(3) by (simp add: stops_short_def)
  have w: "wf_dval ?dv" using assms(2) by (simp add: basic_codes_def)
  have "drop 12 (fixed_bytes p (length body) @ body @ pad) = marshal_list (m_order p) 12 [?dv] @ pad"
    using assms(4) by (simp add: fixed_bytes_def Let_def padding_def drop_Cons')
  then show ?thesis
    using decode_args_stored [OF _ s, of n ?d pad "[]"] w assms(5,6)
    by (simp add: read_fields_def new_decoder_def del: marshal_list.simps)
qed

text \<open>
  The header as \<open>WriteTo\<close> makes it is read back, together with the body, if it arrives in one piece.
\<close>

lemma write_read:
  assumes "header_bytes M p = Inr hdr" and "length (m_sig p) < 256" and "length hdr < 2 ^ 32"
    and "length (m_body p) < 2 ^ 32" and "m_body p = b @ concat cs" and "[] \<notin> set cs"
  shows "\<exists>n0. \<forall>n \<ge> n0. read_message n (push (hdr @ b) (map Bytes cs @ r)) = (Inr p, r)"
proof -
  obtain fds where f: "list_dval M header_field_type (header_fields p) = Some fds"
      "\<forall>dv \<in> set fds. wf_dval dv \<and> dval_ty dv = field_dty \<and> array_safe dv"
      "stored_list header_field_type fds = Some (header_fields p)"
    using fields_dvals [OF assms(2)] by blast
  define body where "body = marshal_list (m_order p) 16 fds"
  let ?pad = "padding 8 (16 + length body)" and ?fix = "fixed_bytes p (length body)"
  have hdr: "hdr = ?fix @ body @ ?pad"
    using header_bytes_eq [OF f(1) _ body_def] f(2) assms(1) by simp
  have len: "16 + length body + length ?pad < 2 ^ 32" using assms(3) hdr by simp
  have hl: "unat (of_nat (length body) :: 32 word) = length body"
    and bl: "unat (of_nat (length (m_body p)) :: 32 word) = length (m_body p)"
    using len assms(4) by (simp_all add: unat_of_nat)
  let ?m = "new_message\<lparr>m_order := m_order p, m_type := m_type p, m_flags := m_flags p,
      m_protocol := m_protocol p, m_serial := m_serial p\<rparr>"
  let ?r = "map Bytes cs @ r"
  have "read_message n (push (hdr @ b) ?r) = (Inr p, r)" if n: "n \<ge> 30 + size_list size fds" for n
  proof -
    have r1: "read_once 16 (push (hdr @ b) ?r) = (?fix, None, push ((body @ ?pad) @ b) ?r)"
      using read_once_push [of ?fix "(body @ ?pad) @ b" ?r] by (simp add: hdr)
    have fx: "read_fixed n (m_order p) ?fix = Inr \<lparr>h_type = m_type p, h_flags = m_flags p,
        h_protocol = m_protocol p, h_body_len = of_nat (length (m_body p)), h_serial = m_serial p,
        h_fields_len = of_nat (length body)\<rparr>"
      using n by (intro read_fixed_bytes) simp
    have r2: "read_once (length body + header_padding (length body)) (push ((body @ ?pad) @ b) ?r) =
        (body @ ?pad, None, push b ?r)"
      using read_once_push [of "body @ ?pad" b ?r] by (simp add: header_padding_eq)
    have fl: "read_fields n (m_order p) (?fix @ body @ ?pad) ?m = Inr (p\<lparr>m_body := []\<rparr>)"
      using read_fields_bytes [OF f(1) _ f(3) body_def _ len, of n ?m] f(2) n set_header_fields [of ?m p]
      by simp
    have r3: "read_full (length (m_body p)) (push b ?r) = (m_body p, None, r)"
      using read_full_push [OF assms(6), of b r] assms(5) by simp
    show ?thesis
      using r2 fl header_padding_eq [of "length body"] by (simp add: read_message_def r1 fx hl bl r3 Let_def)
  qed
  then show ?thesis by blast
qed

text \<open>The connection as a buffer, which takes all it is given.\<close>

definition buffer :: "byte list writer" where
  "buffer bs w = (length bs, None, w @ bs)"

lemma write_to_buffer:
  "write_to M buffer p w = Inr (k, err, out) \<Longrightarrow>
     err = None \<and> (\<exists>hdr. header_bytes M p = Inr hdr \<and> out = w @ hdr @ m_body p \<and> k = length (hdr @ m_body p)) \<or>
     (\<exists>e. err = Some e \<and> header_bytes M p = Inl (Error e) \<and> k = 0 \<and> out = w)"
  by (auto simp: write_to_def buffer_def split: sum.splits failure.splits if_splits)

lemma header_shape:
  assumes "header_bytes M p = Inr hdr" and "length (m_sig p) < 256"
  obtains body where "hdr = fixed_bytes p (length body) @ body @ padding 8 (16 + length body)"
proof -
  obtain fds where f: "list_dval M header_field_type (header_fields p) = Some fds"
      "\<forall>dv \<in> set fds. wf_dval dv \<and> dval_ty dv = field_dty \<and> array_safe dv"
    using fields_dvals [OF assms(2)] by blast
  have "\<forall>dv \<in> set fds. array_safe dv" using f(2) by blast
  from header_bytes_eq [OF f(1) this refl] assms(1) that show ?thesis by simp
qed

section \<open>Properties\<close>

text \<open>
  C3. What \<open>WriteTo\<close> writes, \<open>readMessage\<close> reads back: all fields of the message, in either byte order,
  if the header arrives in one piece; the body may arrive in any pieces. Nothing after the message is
  consumed. The signature must be as short as its length byte can say, the message as its length
  fields.
\<close>

theorem write_read_round_trip:
  assumes "write_to M buffer p [] = Inr (k, None, out)" and "length (m_sig p) < 256" and "length out < 2 ^ 32"
    and "out = front @ concat cs" and "length out - length (m_body p) \<le> length front" and "[] \<notin> set cs"
  shows "k = length out \<and> (\<exists>n0. \<forall>n \<ge> n0. read_message n (push front (map Bytes cs @ r)) = (Inr p, r))"
proof -
  obtain hdr where h: "header_bytes M p = Inr hdr" "out = hdr @ m_body p" "k = length out"
    using write_to_buffer [OF assms(1)] by auto
  then have "length hdr \<le> length front" using assms(5) by simp
  then have "front = hdr @ drop (length hdr) front" "m_body p = drop (length hdr) front @ concat cs"
    using h(2) assms(4) by (metis append_eq_append_conv_if append_eq_conv_conj append_take_drop_id)+
  then obtain b where b: "front = hdr @ b" "m_body p = b @ concat cs" by blast
  have "length hdr < 2 ^ 32" "length (m_body p) < 2 ^ 32" using assms(3) h(2) by simp_all
  from write_read [OF h(1) assms(2) this b(2) assms(6)] show ?thesis using h(3) b(1) by simp
qed

definition ping :: message where
  "ping = (new_signal_message ''/a'' ''i.f'' ''M'')\<lparr>m_serial := 7, m_sig := ''y'', m_body := [5]\<rparr>"

theorem write_read_round_trip_witness:
  "\<exists>k out n0. write_to (\<lambda>_ _. None) buffer ping [] = Inr (k, None, out) \<and>
    (\<forall>n \<ge> n0. read_message n [Bytes out] = (Inr ping, []))"
proof -
  let ?out = "[108, 4, 0, 1, 1, 0, 0, 0, 7, 0, 0, 0, 55, 0, 0, 0, 1, 1, 111, 0, 2, 0, 0, 0, 47, 97, 0, 0, 0, 0, 0, 0,
    2, 1, 115, 0, 3, 0, 0, 0, 105, 46, 102, 0, 0, 0, 0, 0, 3, 1, 115, 0, 1, 0, 0, 0, 77, 0, 0, 0, 0, 0, 0, 0,
    8, 1, 103, 0, 1, 121, 0, 0, 5] :: byte list"
  have w: "write_to (\<lambda>_ _. None) buffer ping [] = Inr (73, None, ?out)"
    by code_simp
  have p: "length (m_sig ping) < 256" "?out = ?out @ concat []"
      "length ?out - length (m_body ping) \<le> length ?out" "[] \<notin> set ([] :: byte list list)"
    by code_simp+
  have "length ?out < 2 ^ 32" by simp
  from write_read_round_trip [OF w p(1) this p(2-4), of "[]"] w show ?thesis by (auto simp: push_def)
qed

text \<open>
  C39. A message whose first sixteen bytes arrive in two pieces is lost: \<open>readMessage\<close> calls \<open>Read\<close> once for
  them, takes a short read for a failure and leaves the connection in the middle of the header.
\<close>

theorem split_header_lost:
  assumes "write_to M buffer p [] = Inr (k, None, out)" and "0 < i" and "i < 16"
    and "length (m_sig p) < 256"
  shows "read_message n (Bytes (take i out) # Bytes (drop i out) # r) =
    (Inl (Error (ErrNew ''Could not read message header'')), Bytes (drop i out) # r)"
proof -
  obtain hdr where h: "header_bytes M p = Inr hdr" "out = hdr @ m_body p"
    using write_to_buffer [OF assms(1)] by auto
  from header_shape [OF h(1) assms(4)] have "16 \<le> length out" by (metis h(2) le_add1 length_append length_fixed_bytes trans_le_add1)
  then have "length (take i out) = i" using assms(3) by simp
  then show ?thesis
    using assms(2,3) by (simp add: read_message_def read_once_def short_read_def)
qed

theorem split_header_lost_witness:
  "\<exists>k out. write_to (\<lambda>_ _. None) buffer ping [] = Inr (k, None, out) \<and>
    read_message 20 [Bytes (take 12 out), Bytes (drop 12 out)] =
      (Inl (Error (ErrNew ''Could not read message header'')), [Bytes (drop 12 out)])"
proof -
  have "case write_to (\<lambda>_ _. None) buffer ping [] of Inr (k, None, out) \<Rightarrow> True | _ \<Rightarrow> False"
    by code_simp
  then obtain k out where w: "write_to (\<lambda>_ _. None) buffer ping [] = Inr (k, None, out)"
    by (auto split: sum.splits option.splits)
  have s: "length (m_sig ping) < 256" by code_simp
  from split_header_lost [OF w _ _ s, of 12 20 "[]"] w show ?thesis by simp
qed

text \<open>
  C31. The header that \<open>WriteTo\<close> writes ends at a multiple of 8, where the body has to begin, and its
  length is what its own length field, at offset 12, announces, rounded up.
\<close>

theorem header_length:
  assumes "header_bytes M p = Inr hdr" and "length (m_sig p) < 256" and "length hdr < 2 ^ 32"
  shows "\<exists>len d. read_uint32 ((new_decoder [] hdr (m_order p))\<lparr>d_off := 12\<rparr>) = Inr (len, d) \<and>
    length hdr = 16 + unat len + header_padding (unat len) \<and> length hdr mod 8 = 0"
proof -
  obtain body where b: "hdr = fixed_bytes p (length body) @ body @ padding 8 (16 + length body)"
    using header_shape [OF assms(1,2)] .
  let ?len = "of_nat (length body) :: 32 word"
  have len: "unat ?len = length body" using assms(3) b by (simp add: unat_of_nat)
  have "drop 12 hdr = put_word (m_order p) 4 ?len @ body @ padding 8 (16 + length body)"
    by (simp add: b fixed_bytes_def)
  moreover have "8 dvd 16 + (length body + padlen 8 (16 + length body))"
    using padlen_aligned [of 8 "16 + length body"] by (simp add: add.assoc)
  ultimately show ?thesis
    using read_word32_at(2) [of "(new_decoder [] hdr (m_order p))\<lparr>d_off := 12\<rparr>" ?len "body @ padding 8 (16 + length body)"] len
    by (simp add: b header_padding_eq new_decoder_def padding_def mod_eq_0_iff_dvd)
qed

theorem header_length_witness:
  "\<exists>hdr len d. header_bytes (\<lambda>_ _. None) ping = Inr hdr \<and>
    read_uint32 ((new_decoder [] hdr LittleEndian)\<lparr>d_off := 12\<rparr>) = Inr (len, d) \<and>
    length hdr = 16 + unat len + header_padding (unat len)"
proof -
  have "case header_bytes (\<lambda>_ _. None) ping of Inr hdr \<Rightarrow> length hdr < 100 | _ \<Rightarrow> False"
    by code_simp
  then obtain hdr where h: "header_bytes (\<lambda>_ _. None) ping = Inr hdr" "length hdr < 2 ^ 32"
    by (auto split: sum.splits)
  have s: "length (m_sig ping) < 256" "m_order ping = LittleEndian" by code_simp+
  from header_length [OF h(1) s(1) h(2)] h(1) s(2) show ?thesis by auto
qed

text \<open>
  A peer can crash the program: a header field of the wrong type, here a path sent as a string, makes
  the type assertion in \<open>readMessage\<close> panic, in the goroutine that reads messages.
\<close>

lemma wrong_field_type_panics:
  "\<exists>hdr. length hdr = 32 \<and> read_message 20 [Bytes hdr] = (Inl (Panic ''interface conversion''), [])"
proof -
  let ?hdr = "[108, 4, 0, 1, 0, 0, 0, 0, 7, 0, 0, 0, 10, 0, 0, 0, 1, 1, 115, 0, 2, 0, 0, 0, 47, 97, 0, 0, 0, 0, 0, 0] :: byte list"
  have "length ?hdr = 32" "read_message 20 [Bytes ?hdr] = (Inl (Panic ''interface conversion''), [])"
    by code_simp+
  then show ?thesis by blast
qed

end
