(* ===== verification/Connection.thy ===== *)
theory Connection
  imports WatchSet MessageIO "HOL-Library.Sublist"
begin

text \<open>
  The connection (dbus.go): serial numbers, sending, the tables of filters, handlers and pending
  replies, and the dispatch of a message that was received.

  Channels and filters are pointers in the code and identities here. What the dispatch sends to a
  channel, or hands to the callback of a watch, is a \<open>delivery\<close>; whether and when the other side
  takes it is the subject of theory \<open>Calls\<close>.
\<close>

section \<open>State\<close>

type_synonym chan = nat
type_synonym handlers = "string \<rightharpoonup> chan"
type_synonym message_filter = "nat \<times> (message \<Rightarrow> message option)"

record 'w connection =
  c_serial :: "32 word"
  c_open :: bool
  c_filters :: "message_filter list"
  c_replies :: "32 word \<rightharpoonup> chan"
  c_handlers :: handlers
  c_watches :: watch_set
  c_out :: 'w

definition new_connection :: "'w \<Rightarrow> 'w connection" where
  "new_connection out =
     \<lparr>c_serial = 0, c_open = True, c_filters = [], c_replies = Map.empty, c_handlers = Map.empty,
      c_watches = Map.empty, c_out = out\<rparr>"

section \<open>Sending\<close>

definition next_serial :: "'w connection \<Rightarrow> 32 word \<times> 'w connection" where
  "next_serial c = (c_serial c + 1, c\<lparr>c_serial := c_serial c + 1\<rparr>)"

definition atomic_write_message :: "methods \<Rightarrow> 'w writer \<Rightarrow> message \<Rightarrow> 'w connection \<Rightarrow> unit result \<times> 'w connection" where
  "atomic_write_message M write msg c =
     (case write_to M write msg (c_out c) of
        Inl fail \<Rightarrow> (Inl fail, c)
      | Inr (n, err, out) \<Rightarrow>
          (case err of None \<Rightarrow> Inr () | Some e \<Rightarrow> Inl (Error e), c\<lparr>c_out := out\<rparr>))"

text \<open>\<open>Send\<close> numbers the message, whose new state is the second component, and writes it.\<close>

definition send :: "methods \<Rightarrow> 'w writer \<Rightarrow> message \<Rightarrow> 'w connection \<Rightarrow> unit result \<times> message \<times> 'w connection" where
  "send M write msg c =
     (let (serial, c1) = next_serial c in
      case set_serial serial msg of
        Inl fail \<Rightarrow> (Inl fail, msg, c1)
      | Inr msg1 \<Rightarrow> (let (res, c2) = atomic_write_message M write msg1 c1 in (res, msg1, c2)))"

section \<open>Filters and handlers\<close>

definition register_filter :: "nat \<Rightarrow> (message \<Rightarrow> message option) \<Rightarrow> 'w connection \<Rightarrow> 'w connection" where
  "register_filter fid f c = c\<lparr>c_filters := c_filters c @ [(fid, f)]\<rparr>"

definition unregister_filter :: "nat \<Rightarrow> 'w connection \<Rightarrow> 'w connection result" where
  "unregister_filter fid c =
     (case index_of fid (map fst (c_filters c)) of
        None \<Rightarrow> Inl (Panic ''Message filter not registered to this bus'')
      | Some i \<Rightarrow> Inr (c\<lparr>c_filters := take i (c_filters c) @ drop (i + 1) (c_filters c)\<rparr>))"

definition register_object_path :: "string \<Rightarrow> chan \<Rightarrow> 'w connection \<Rightarrow> 'w connection result" where
  "register_object_path path handler c =
     (if c_handlers c path \<noteq> None
      then Inl (Panic (''A handler has already been registered for '' @ path))
      else Inr (c\<lparr>c_handlers := (c_handlers c)(path \<mapsto> handler)\<rparr>))"

definition unregister_object_path :: "string \<Rightarrow> 'w connection \<Rightarrow> 'w connection result" where
  "unregister_object_path path c =
     (if c_handlers c path = None then Inl (Panic (''No handler registered for '' @ path))
      else Inr (c\<lparr>c_handlers := (c_handlers c)(path := None)\<rparr>))"

text \<open>\<open>strings.LastIndex(s, "/")\<close> as the code has it, an \<open>int\<close> that may be -1.\<close>

definition last_slash :: "string \<Rightarrow> int" where
  "last_slash s = (case last_index CHR ''/'' s of None \<Rightarrow> -1 | Some i \<Rightarrow> int i)"

lemma last_slash_less: "last_slash (take n s) < int n" if "0 < n"
proof (cases "last_index CHR ''/'' (take n s)")
  case (Some i)
  from last_index_Some [OF this] show ?thesis using Some by (simp add: last_slash_def)
qed (use that in \<open>simp add: last_slash_def del: last_index_None\<close>)

function handler_loop :: "handlers \<Rightarrow> string \<Rightarrow> int \<Rightarrow> chan option" where
  "handler_loop hs path idx =
     (case hs path of
        Some h \<Rightarrow> Some h
      | None \<Rightarrow>
          if idx < 1 then None
          else let idx' = last_slash (take (nat idx) path)
               in handler_loop hs (take (nat (idx' + 1)) path @ ''*'') idx')"
  by pat_completeness auto
termination
proof (relation "measure (\<lambda>(hs, path, idx). nat (idx + 1))", goal_cases)
  case (2 hs path idx idx')
  then show ?case using last_slash_less [of "nat idx" path] by simp
qed simp

declare handler_loop.simps [simp del]

definition handler_for_path :: "handlers \<Rightarrow> string \<Rightarrow> chan option" where
  "handler_for_path hs objpath = handler_loop hs objpath (last_slash objpath + 1)"

section \<open>Dispatch\<close>

datatype delivery = ToHandler chan | ToReply chan | ToWatch watch

text \<open>
  The loop over the filters declares a new variable \<open>msg\<close> in its body, so the message a filter
  returns is looked at only for being nil.
\<close>

fun run_filters :: "message_filter list \<Rightarrow> message \<Rightarrow> bool" where
  "run_filters [] msg = True"
| "run_filters ((fid, f) # fs) msg = (case f msg of None \<Rightarrow> False | Some msg' \<Rightarrow> run_filters fs msg)"

definition send_reply :: "methods \<Rightarrow> 'w writer \<Rightarrow> message result \<Rightarrow> 'w connection \<Rightarrow> unit result \<times> 'w connection" where
  "send_reply M write reply c =
     (case reply of
        Inl fail \<Rightarrow> (Inl fail, c)
      | Inr msg \<Rightarrow> (case send M write msg c of (res, _, c') \<Rightarrow> (res, c')))"

definition append_to :: "methods \<Rightarrow> (gotype \<times> gval) list \<Rightarrow> message result \<Rightarrow> message result" where
  "append_to M args reply =
     ebind reply (\<lambda>msg. case append_args M args msg of (Inl fail, _) \<Rightarrow> Inl fail | (Inr _, msg') \<Rightarrow> Inr msg')"

definition peer_iface :: string where
  "peer_iface = ''org.freedesktop.DBus.Peer''"

definition dispatch_call ::
  "methods \<Rightarrow> 'w writer \<Rightarrow> message \<Rightarrow> 'w connection \<Rightarrow> unit result \<times> delivery list \<times> 'w connection" where
  "dispatch_call M write msg c =
     (if m_iface msg = peer_iface \<and> m_member msg = ''Ping'' then
        (case send_reply M write (new_method_return_message msg) c of (res, c') \<Rightarrow> (res, [], c'))
      else if m_iface msg = peer_iface \<and> m_member msg = ''GetMachineId'' then
        (case send_reply M write
            (append_to M [(TString, VString ''machine-id'')] (new_method_return_message msg)) c of
           (res, c') \<Rightarrow> (res, [], c'))
      else (case handler_for_path (c_handlers c) (m_path msg) of
              Some h \<Rightarrow> (Inr (), [ToHandler h], c)
            | None \<Rightarrow>
                (case send_reply M write
                    (new_error_message M msg ''org.freedesktop.DBus.Error.UnknownObject''
                       (''Unknown object path '' @ m_path msg)) c of
                   (res, c') \<Rightarrow> (res, [], c'))))"

definition dispatch_reply :: "message \<Rightarrow> 'w connection \<Rightarrow> delivery list \<times> 'w connection" where
  "dispatch_reply msg c =
     (case c_replies c (m_reply_serial msg) of
        None \<Rightarrow> ([], c)
      | Some ch \<Rightarrow> ([ToReply ch], c\<lparr>c_replies := (c_replies c)(m_reply_serial msg := None)\<rparr>))"

definition dispatch_message ::
  "methods \<Rightarrow> 'w writer \<Rightarrow> rules \<Rightarrow> message \<Rightarrow> 'w connection \<Rightarrow> unit result \<times> delivery list \<times> 'w connection" where
  "dispatch_message M write rules msg c =
     (if \<not> run_filters (c_filters c) msg then (Inr (), [], c)
      else if m_type msg = TypeMethodCall then dispatch_call M write msg c
      else if m_type msg = TypeMethodReturn \<or> m_type msg = TypeError then
        (Inr (), dispatch_reply msg c)
      else if m_type msg = TypeSignal then
        (Inr (), map ToWatch (ws_find rules msg (c_watches c)), c)
      else (Inr (), [], c))"

text \<open>
  The goroutine that receives: it reads and dispatches until one of the two fails. The fuel counts
  messages; the deliveries are paired with the message delivered.
\<close>

fun receive_loop ::
  "nat \<Rightarrow> nat \<Rightarrow> methods \<Rightarrow> 'w writer \<Rightarrow> rules \<Rightarrow> reader \<Rightarrow> 'w connection \<Rightarrow>
     unit result \<times> (message \<times> delivery list) list \<times> 'w connection" where
  "receive_loop n 0 M write rules r c = (Inl OutOfFuel, [], c)"
| "receive_loop n (Suc k) M write rules r c =
     (case read_message n r of
        (Inl fail, r') \<Rightarrow> (Inl fail, [], c)
      | (Inr msg, r') \<Rightarrow>
          (case dispatch_message M write rules msg c of
             (Inl fail, ds, c') \<Rightarrow> (Inl fail, [(msg, ds)], c')
           | (Inr u, ds, c') \<Rightarrow>
               (case receive_loop n k M write rules r' c' of
                  (res, log, c'') \<Rightarrow> (res, (msg, ds) # log, c''))))"

definition close_connection :: "unit result \<Rightarrow> 'w connection \<Rightarrow> unit result \<times> 'w connection" where
  "close_connection closed c = (closed, c\<lparr>c_open := False\<rparr>)"

section \<open>The handler of a path\<close>

text \<open>
  The keys at which a handler of \<open>path\<close> may be registered, the most specific first: the path, then
  for each prefix that ends in a slash, from the longest, the prefix with an asterisk; a path that
  does not begin with a slash has the lone asterisk too.
\<close>

definition slash_prefixes :: "string \<Rightarrow> string list" where
  "slash_prefixes s = filter (\<lambda>p. suffix ''/'' p) (prefixes s)"

definition path_keys :: "string \<Rightarrow> string list" where
  "path_keys path =
     path # map (\<lambda>p. p @ ''*'') (rev (slash_prefixes path)) @
     (if CHR ''/'' \<in> set path \<and> path ! 0 \<noteq> CHR ''/'' then [''*''] else [])"

fun first_handler :: "handlers \<Rightarrow> string list \<Rightarrow> chan option" where
  "first_handler hs [] = None"
| "first_handler hs (k # ks) = (case hs k of Some h \<Rightarrow> Some h | None \<Rightarrow> first_handler hs ks)"

lemma slash_prefixes_None: "CHR ''/'' \<notin> set s \<Longrightarrow> slash_prefixes s = []"
  by (auto simp: slash_prefixes_def filter_empty_conv suffix_def prefix_def)

lemma slash_prefixes_step:
  assumes "last_index CHR ''/'' s = Some i"
  shows "slash_prefixes s = slash_prefixes (take i s) @ [take (Suc i) s]"
proof -
  define rest where "rest = drop (Suc i) s"
  have s: "s = take i s @ CHR ''/'' # rest" and no: "CHR ''/'' \<notin> set rest"
    using last_index_Some [OF assms] by (auto simp: rest_def id_take_nth_drop [symmetric] dest: id_take_nth_drop)
  have "prefixes rest = [] # tl (prefixes rest)" by (cases rest) simp_all
  moreover have "filter (\<lambda>r. suffix ''/'' (take i s @ CHR ''/'' # r)) (tl (prefixes rest)) = []"
  proof -
    have "\<not> suffix ''/'' (take i s @ CHR ''/'' # r)" if tl: "r \<in> set (tl (prefixes rest))" for r
    proof -
      obtain a as where "rest = a # as" using tl by (cases rest) auto
      with tl obtain r' where r: "r = a # r'" "prefix r rest" by auto
      then have "last r \<in> set rest" by (metis last_in_set list.distinct(1) set_mono_prefix subsetD)
      moreover have "last (take i s @ CHR ''/'' # r) = last r" using r(1) by simp
      ultimately show ?thesis using no by (metis last_snoc suffix_def)
    qed
    then show ?thesis by (simp add: filter_empty_conv)
  qed
  ultimately have "filter (\<lambda>r. suffix ''/'' (take i s @ CHR ''/'' # r)) (prefixes rest) = [[]]"
    by (metis filter.simps suffix_def)
  moreover have "prefixes s = prefixes (take i s) @ map (\<lambda>r. take i s @ CHR ''/'' # r) (prefixes rest)"
    by (subst s) (simp add: prefixes_append comp_def)
  moreover have "take (Suc i) s = take i s @ ''/''"
    using s last_index_Some [OF assms] by (simp add: take_Suc_conv_app_nth)
  ultimately show ?thesis
    by (simp add: slash_prefixes_def filter_map comp_def)
qed

lemma last_slash_simps:
  "last_index CHR ''/'' s = Some i \<Longrightarrow> last_slash s = int i"
  "CHR ''/'' \<notin> set s \<Longrightarrow> last_slash s = -1"
  by (simp_all add: last_slash_def del: last_index_None add: last_index_None [THEN iffD2])

lemma nat_int_add1: "nat (int i + 1) = Suc i"
  by simp

lemma first_handler_append:
  "first_handler hs (ks @ ks') = (case first_handler hs ks of Some h \<Rightarrow> Some h | None \<Rightarrow> first_handler hs ks')"
  by (induction ks) (auto split: option.splits)

lemma handler_loop_keys:
  assumes "i < length path" and "path ! i = CHR ''/''"
  shows "handler_loop hs (take (Suc i) path @ ''*'') (int i) =
    first_handler hs (map (\<lambda>p. p @ ''*'') (rev (slash_prefixes (take (Suc i) path))) @
      (if path ! 0 \<noteq> CHR ''/'' then [''*''] else []))"
  using assms
proof (induction i rule: less_induct)
  case (less i)
  let ?head = "take (Suc i) path @ ''*''" and ?rest = "if path ! 0 \<noteq> CHR ''/'' then [''*''] else []"
  have "last_index CHR ''/'' (take (Suc i) path) = Some i"
    using less.prems last_index_append [of "CHR ''/''" "[]" "take i path"] by (simp add: take_Suc_conv_app_nth)
  from slash_prefixes_step [OF this]
  have keys: "map (\<lambda>p. p @ ''*'') (rev (slash_prefixes (take (Suc i) path))) =
      ?head # map (\<lambda>p. p @ ''*'') (rev (slash_prefixes (take i path)))"
    using less.prems by (simp add: min_def)
  have tk: "take i ?head = take i path" using less.prems by simp
  have step: "handler_loop hs ?head (int i) = (case hs ?head of Some h \<Rightarrow> Some h | None \<Rightarrow>
      if i = 0 then None
      else handler_loop hs (take (nat (last_slash (take i path) + 1)) path @ ''*'') (last_slash (take i path)))"
    if "0 < i \<longrightarrow> last_slash (take i path) < int i"
    using that less.prems
    by (subst handler_loop.simps) (auto simp: Let_def tk min_def take_all_iff split: option.split)
  have lt: "0 < i \<longrightarrow> last_slash (take i path) < int i" using last_slash_less by blast
  show ?case
  proof (cases "i = 0")
    case True
    then show ?thesis using step [OF lt] keys less.prems by (simp add: slash_prefixes_def suffix_def split: option.split)
  next
    case pos: False
    show ?thesis
    proof (cases "last_index CHR ''/'' (take i path)")
      case None
      then have no: "CHR ''/'' \<notin> set (take i path)" by simp
      have "path ! 0 \<in> set (take i path)" using pos less.prems by (cases path; cases i) auto
      then have "path ! 0 \<noteq> CHR ''/''" using no by auto
      then show ?thesis
        using step [OF lt] keys pos no
        by (simp add: slash_prefixes_None last_slash_simps handler_loop.simps [of hs "''*''"] split: option.split)
    next
      case (Some j)
      from last_index_Some [OF Some] have j: "j < i" "j < length path" "path ! j = CHR ''/''"
        using less.prems by auto
      have "slash_prefixes (take i path) = slash_prefixes (take (Suc j) path)"
        using slash_prefixes_step [OF Some] slash_prefixes_step [of "take (Suc j) path" j] j
          last_index_append [of "CHR ''/''" "[]" "take j path"]
        by (simp add: take_Suc_conv_app_nth min_def)
      then show ?thesis
        using step [OF lt] keys pos less.IH [OF j] last_slash_simps(1) [OF Some]
        by (simp add: nat_add_distrib split: option.split)
    qed
  qed
qed

section \<open>Serial numbers and the receiving goroutine\<close>

text \<open>The numbers that successive calls of \<open>nextSerial\<close> give out.\<close>

fun serials :: "nat \<Rightarrow> 'w connection \<Rightarrow> 32 word list" where
  "serials 0 c = []"
| "serials (Suc n) c = (let (s, c') = next_serial c in s # serials n c')"

lemma serials_nth: "i < n \<Longrightarrow> serials n c ! i = c_serial c + of_nat (Suc i)"
  by (induction n arbitrary: i c) (auto simp: next_serial_def nth_Cons' split: nat.split)

lemma length_serials [simp]: "length (serials n c) = n"
  by (induction n arbitrary: c) (auto simp: next_serial_def)

lemma word_of_nat_inj: "i < 2 ^ 32 \<Longrightarrow> j < 2 ^ 32 \<Longrightarrow> (of_nat i :: 32 word) = of_nat j \<longleftrightarrow> i = j"
  by (auto simp: word_unat_eq_iff unat_of_nat)

text \<open>What the receiving goroutine is to do with a sequence of messages.\<close>

fun dispatch_all ::
  "methods \<Rightarrow> 'w writer \<Rightarrow> rules \<Rightarrow> message list \<Rightarrow> 'w connection \<Rightarrow>
     unit result \<times> (message \<times> delivery list) list \<times> 'w connection" where
  "dispatch_all M write rules [] c = (Inl (Error ErrEOF), [], c)"
| "dispatch_all M write rules (msg # msgs) c =
     (case dispatch_message M write rules msg c of
        (Inl fail, ds, c') \<Rightarrow> (Inl fail, [(msg, ds)], c')
      | (Inr u, ds, c') \<Rightarrow>
          (case dispatch_all M write rules msgs c' of (res, log, c'') \<Rightarrow> (res, (msg, ds) # log, c'')))"

definition on_wire :: "methods \<Rightarrow> message \<Rightarrow> byte list \<Rightarrow> bool" where
  "on_wire M p bs \<longleftrightarrow>
     write_to M buffer p [] = Inr (length bs, None, bs) \<and> length (m_sig p) < 256 \<and> length bs < 2 ^ 32"

lemma on_wire_read:
  assumes "on_wire M p bs"
  shows "\<exists>n0. \<forall>n \<ge> n0. read_message n (Bytes bs # r) = (Inr p, r)"
proof -
  obtain hdr where h: "header_bytes M p = Inr hdr" "bs = hdr @ m_body p"
    using write_to_buffer [of M p "[]"] assms by (auto simp: on_wire_def)
  have "length hdr < 2 ^ 32" "length (m_body p) < 2 ^ 32" "length (m_sig p) < 256"
    using assms h(2) by (simp_all add: on_wire_def)
  note read = write_read [OF h(1) this(3,1,2), of "m_body p" "[]" r]
  obtain body where "hdr = fixed_bytes p (length body) @ body @ padding 8 (16 + length body)"
    by (rule header_shape [OF h(1) \<open>length (m_sig p) < 256\<close>])
  then have "0 < length hdr" by simp
  then have "bs \<noteq> []" using h(2) by auto
  then have "push (hdr @ m_body p) (map Bytes [] @ r) = Bytes bs # r" by (simp add: push_def h(2))
  with read show ?thesis by simp
qed

lemma read_message_end: "read_message n [] = (Inl (Error ErrEOF), [])"
  by (simp add: read_message_def read_once_def short_read_def)

text \<open>Sending and dispatching do not look at the filters, and leave them.\<close>

lemma send_filters:
  "send M write msg (c\<lparr>c_filters := fs\<rparr>) = (case send M write msg c of (r, m, c') \<Rightarrow> (r, m, c'\<lparr>c_filters := fs\<rparr>))"
  by (simp add: send_def next_serial_def atomic_write_message_def split: sum.split prod.split)

lemma send_reply_filters:
  "send_reply M write reply (c\<lparr>c_filters := fs\<rparr>) = (case send_reply M write reply c of (r, c') \<Rightarrow> (r, c'\<lparr>c_filters := fs\<rparr>))"
  by (simp add: send_reply_def send_filters split: sum.split prod.split)

lemma dispatch_call_filters:
  "dispatch_call M write msg (c\<lparr>c_filters := fs\<rparr>) =
     (case dispatch_call M write msg c of (r, ds, c') \<Rightarrow> (r, ds, c'\<lparr>c_filters := fs\<rparr>))"
  by (simp add: dispatch_call_def send_reply_filters split: prod.split option.split)

lemma dispatch_reply_filters:
  "dispatch_reply msg (c\<lparr>c_filters := fs\<rparr>) = (case dispatch_reply msg c of (ds, c') \<Rightarrow> (ds, c'\<lparr>c_filters := fs\<rparr>))"
  by (simp add: dispatch_reply_def split: option.split)

section \<open>Properties\<close>

text \<open>
  C24. A method call goes to the most specific handler that is registered: the one for its path, or else
  the one for the longest prefix of the path, cut at a slash, with an asterisk after it.
\<close>

theorem handler_for_path_most_specific: "handler_for_path hs path = first_handler hs (path_keys path)"
proof (cases "last_index CHR ''/'' path")
  case None
  then have no: "CHR ''/'' \<notin> set path" by simp
  then show ?thesis
    by (simp add: handler_for_path_def path_keys_def slash_prefixes_None last_slash_simps
        handler_loop.simps [of hs path] split: option.split)
next
  case (Some i)
  from last_index_Some [OF Some] have i: "i < length path" "path ! i = CHR ''/''" by auto
  have "last_index CHR ''/'' (take (Suc i) path) = Some i"
    using i last_index_append [of "CHR ''/''" "[]" "take i path"] by (simp add: take_Suc_conv_app_nth)
  from slash_prefixes_step [OF this] slash_prefixes_step [OF Some]
  have keys: "slash_prefixes path = slash_prefixes (take (Suc i) path)" using i by (simp add: min_def)
  have "handler_for_path hs path = (case hs path of Some h \<Rightarrow> Some h | None \<Rightarrow>
      handler_loop hs (take (Suc i) path @ ''*'') (int i))"
    using last_slash_simps(1) [OF Some] last_slash_simps(1) [OF \<open>last_index _ (take (Suc i) path) = Some i\<close>]
    by (cases "hs path") (simp_all add: handler_for_path_def handler_loop.simps [of hs path] Let_def nat_int_add1)
  moreover have "CHR ''/'' \<in> set path" using i by (metis nth_mem)
  ultimately show ?thesis
    using handler_loop_keys [OF i] keys by (simp add: path_keys_def split: option.split)
qed



text \<open>
  A reply goes to the call that has its serial number, and to no other; the call is then forgotten, so
  that a second reply with the same serial goes nowhere.
\<close>

lemma reply_delivered_once:
  assumes "c_replies c (m_reply_serial msg) = Some ch" and "m_type msg \<in> {TypeMethodReturn, TypeError}"
    and "run_filters (c_filters c) msg"
    and "m_reply_serial msg' = m_reply_serial msg" and "m_type msg' \<in> {TypeMethodReturn, TypeError}"
  shows "\<exists>c'. dispatch_message M write rules msg c = (Inr (), [ToReply ch], c') \<and>
    dispatch_message M write rules msg' c' = (Inr (), [], c') \<and>
    (\<forall>s. s \<noteq> m_reply_serial msg \<longrightarrow> c_replies c' s = c_replies c s)"
  using assms by (auto simp: dispatch_message_def dispatch_reply_def)

text \<open>
  The loop over the filters shadows its variable, so a filter that returns another message changes
  nothing: only whether it returns one counts.
\<close>

lemma filter_result_ignored:
  "dispatch_message M write rules msg
     (c\<lparr>c_filters := map (\<lambda>(fid, f). (fid, map_option (\<lambda>_. other) \<circ> f)) fs\<rparr>) =
   (case dispatch_message M write rules msg (c\<lparr>c_filters := fs\<rparr>) of
      (res, ds, c') \<Rightarrow> (res, ds, c'\<lparr>c_filters := map (\<lambda>(fid, f). (fid, map_option (\<lambda>_. other) \<circ> f)) fs\<rparr>))"
proof -
  have "run_filters (map (\<lambda>(fid, f). (fid, map_option (\<lambda>_. other) \<circ> f)) fs) msg = run_filters fs msg"
    by (induction fs msg rule: run_filters.induct) (auto split: option.split)
  then show ?thesis
    using dispatch_call_filters [of M "write" msg _ c] dispatch_reply_filters [of msg _ c]
    by (simp add: dispatch_message_def split: prod.split)
qed

text \<open>
  A method call with serial number 0, which no peer should send but any can, panics the receiving
  goroutine unless a handler takes it: the automatic answer cannot be made.
\<close>

lemma zero_serial_call_panics:
  assumes "m_type msg = TypeMethodCall" and "m_serial msg = 0" and "run_filters (c_filters c) msg"
    and "handler_for_path (c_handlers c) (m_path msg) = None"
  shows "dispatch_message M write rules msg c = (Inl (Panic ''methodCall.serial == 0''), [], c)"
  using assms
  by (simp add: dispatch_message_def dispatch_call_def send_reply_def append_to_def
      new_method_return_message_def new_error_message_def)

text \<open>
  C28. Serial numbers: fewer than $2^{32}$ messages of a connection get different serial numbers, and
  none gets 0, which the protocol forbids; the $2^{32}$-th gets 0.
\<close>

theorem serials_distinct:
  assumes "c_serial c = 0" and "n < 2 ^ 32"
  shows "distinct (serials n c) \<and> 0 \<notin> set (serials n c) \<and> serials (2 ^ 32) c ! (2 ^ 32 - 1) = 0"
proof (intro conjI)
  have nth: "i < m \<Longrightarrow> serials m c ! i = of_nat (Suc i)" for i m
    using serials_nth [of i m c] assms(1) by simp
  show "distinct (serials n c)"
    using nth word_of_nat_inj assms(2) by (simp add: distinct_conv_nth del: of_nat_Suc)
  have "serials n c ! i \<noteq> 0" if "i < n" for i
    using nth [OF that] word_of_nat_inj [of "Suc i" 0] that assms(2) by (simp del: of_nat_Suc)
  then show "0 \<notin> set (serials n c)" by (metis in_set_conv_nth length_serials)
  have "Suc (2 ^ 32 - 1) = (2 ^ 32 :: nat)" by simp
  then have "serials (2 ^ 32) c ! (2 ^ 32 - 1) = of_nat (2 ^ 32)"
    using nth [of "2 ^ 32 - 1" "2 ^ 32"] by (simp only: diff_less zero_less_one zero_less_numeral zero_less_power)
  then show "serials (2 ^ 32) c ! (2 ^ 32 - 1) = 0" by simp
qed

theorem serials_distinct_witness:
  "distinct (serials 3 (new_connection ())) \<and> serials 3 (new_connection ()) = [1, 2, 3]"
proof -
  have "c_serial (new_connection ()) = 0" "(3 :: nat) < 2 ^ 32" by (simp_all add: new_connection_def)
  moreover have "serials 3 (new_connection ()) = [1, 2, 3]" by code_simp
  ultimately show ?thesis using serials_distinct by blast
qed

text \<open>
  A signal goes to the callbacks of exactly the watches that are registered and match it, to each as
  often as it was added and not removed.
\<close>

lemma signal_to_matching_watches:
  assumes "m_type msg = TypeSignal" and "run_filters (c_filters c) msg"
    and "c_watches c = run_ops (ws_add rules) (ws_remove rules) ops Map.empty"
  shows "\<exists>ds. dispatch_message M write rules msg c = (Inr (), ds, c) \<and>
    mset ds = image_mset ToWatch (filter_mset (\<lambda>w. rule_match (rules w) msg) (ops_contents ops {#}))"
  using assms watches.run_find [OF same_keys_refl, of rules msg ops] by (simp add: dispatch_message_def)

end
