(* ===== verification/Calls.thy ===== *)
theory Calls
  imports Connection
begin

text \<open>
  Calls in progress (\<open>SendWithReply\<close>, the reply and signal branches of \<open>dispatchMessage\<close>, and the
  end of \<open>receiveLoop\<close> in dbus.go): the goroutines that call and the one that receives, as a step
  relation. A step is what happens between two points at which another goroutine can intervene: a
  critical section of \<open>handlerMutex\<close>, an atomic operation, a write, or an operation on a channel.
\<close>

section \<open>State\<close>

text \<open>
  Where a caller stands in \<open>SendWithReply\<close>. Calls are counted; call \<open>k\<close> has the serial number
  \<open>of_nat k\<close>, the counter of the connection being the count modulo $2^{32}$, and its own channel,
  which has room for one message: \<open>k_chan c k\<close>.
\<close>

type_synonym caller = nat
type_synonym call = nat

abbreviation serial :: "call \<Rightarrow> 32 word" where
  "serial k \<equiv> of_nat k"

datatype call_state =
    Idle
  | Numbered call
  | Registered call
  | Waiting call
  | Unsent call
  | Replied call message
  | Failed call

datatype loop_state = Reading | Replying call message | Signalling "watch list" message | Stopped

record calls =
  k_count :: nat
  k_replies :: "32 word \<rightharpoonup> call"
  k_caller :: "caller \<Rightarrow> call_state"
  k_chan :: "call \<Rightarrow> message option"
  k_loop :: loop_state

definition start_calls :: calls where
  "start_calls = \<lparr>k_count = 0, k_replies = Map.empty, k_caller = (\<lambda>_. Idle), k_chan = (\<lambda>_. None), k_loop = Reading\<rparr>"

fun idle :: "call_state \<Rightarrow> bool" where
  "idle Idle = True"
| "idle (Replied k m) = True"
| "idle (Failed k) = True"
| "idle st = False"

definition is_reply :: "message \<Rightarrow> bool" where
  "is_reply m \<longleftrightarrow> m_type m = TypeMethodReturn \<or> m_type m = TypeError"

section \<open>Steps\<close>

text \<open>
  \<open>matching m\<close> are the watches that a signal matches, and \<open>reader w\<close> is the goroutine that receives
  from the channel of watch \<open>w\<close>, which it can only do while it makes no call; the callback of a
  watch is an unbuffered send to that channel. \<open>number_other\<close> is the numbering of a message that
  \<open>Send\<close> sends.
\<close>

inductive call_step :: "(message \<Rightarrow> watch list) \<Rightarrow> (watch \<Rightarrow> caller) \<Rightarrow> calls \<Rightarrow> calls \<Rightarrow> bool"
  for matching :: "message \<Rightarrow> watch list" and reader :: "watch \<Rightarrow> caller"
where
  number: "idle (k_caller c i) \<Longrightarrow>
    call_step matching reader c
      (c\<lparr>k_count := k_count c + 1, k_caller := (k_caller c)(i := Numbered (k_count c + 1))\<rparr>)"
| number_other: "call_step matching reader c (c\<lparr>k_count := k_count c + 1\<rparr>)"
| register: "k_caller c i = Numbered k \<Longrightarrow>
    call_step matching reader c
      (c\<lparr>k_replies := (k_replies c)(serial k \<mapsto> k), k_caller := (k_caller c)(i := Registered k)\<rparr>)"
| write_ok: "k_caller c i = Registered k \<Longrightarrow>
    call_step matching reader c (c\<lparr>k_caller := (k_caller c)(i := Waiting k)\<rparr>)"
| write_failed: "k_caller c i = Registered k \<Longrightarrow>
    call_step matching reader c (c\<lparr>k_caller := (k_caller c)(i := Unsent k)\<rparr>)"
| unregister: "k_caller c i = Unsent k \<Longrightarrow>
    call_step matching reader c
      (c\<lparr>k_replies := (k_replies c)(serial k := None), k_caller := (k_caller c)(i := Failed k)\<rparr>)"
| take_reply: "k_caller c i = Waiting k \<Longrightarrow> k_chan c k = Some m \<Longrightarrow>
    call_step matching reader c
      (c\<lparr>k_caller := (k_caller c)(i := Replied k m), k_chan := (k_chan c)(k := None)\<rparr>)"
| reply: "k_loop c = Reading \<Longrightarrow> is_reply m \<Longrightarrow> k_replies c (m_reply_serial m) = Some k \<Longrightarrow>
    call_step matching reader c
      (c\<lparr>k_replies := (k_replies c)(m_reply_serial m := None), k_loop := Replying k m\<rparr>)"
| put_reply: "k_loop c = Replying k m \<Longrightarrow> k_chan c k = None \<Longrightarrow>
    call_step matching reader c (c\<lparr>k_chan := (k_chan c)(k := Some m), k_loop := Reading\<rparr>)"
| signal: "k_loop c = Reading \<Longrightarrow> m_type m = TypeSignal \<Longrightarrow>
    call_step matching reader c (c\<lparr>k_loop := Signalling (matching m) m\<rparr>)"
| put_signal: "k_loop c = Signalling (w # ws) m \<Longrightarrow> idle (k_caller c (reader w)) \<Longrightarrow>
    call_step matching reader c (c\<lparr>k_loop := Signalling ws m\<rparr>)"
| signalled: "k_loop c = Signalling [] m \<Longrightarrow> call_step matching reader c (c\<lparr>k_loop := Reading\<rparr>)"
| other_message: "k_loop c = Reading \<Longrightarrow> call_step matching reader c c"
| stop: "k_loop c = Reading \<Longrightarrow> call_step matching reader c (c\<lparr>k_loop := Stopped\<rparr>)"

inductive reachable :: "(message \<Rightarrow> watch list) \<Rightarrow> (watch \<Rightarrow> caller) \<Rightarrow> calls \<Rightarrow> bool"
  for matching :: "message \<Rightarrow> watch list" and reader :: "watch \<Rightarrow> caller"
where
  start: "reachable matching reader start_calls"
| step: "reachable matching reader c \<Longrightarrow> call_step matching reader c c' \<Longrightarrow> reachable matching reader c'"

section \<open>The invariant\<close>

fun call_of :: "call_state \<Rightarrow> call option" where
  "call_of Idle = None"
| "call_of (Numbered k) = Some k"
| "call_of (Registered k) = Some k"
| "call_of (Waiting k) = Some k"
| "call_of (Unsent k) = Some k"
| "call_of (Replied k m) = Some k"
| "call_of (Failed k) = Some k"

fun in_table :: "call_state \<Rightarrow> bool" where
  "in_table (Registered k) = True"
| "in_table (Waiting k) = True"
| "in_table (Unsent k) = True"
| "in_table st = False"

definition answers :: "message \<Rightarrow> call \<Rightarrow> bool" where
  "answers m k \<longleftrightarrow> is_reply m \<and> m_reply_serial m = serial k"

text \<open>Where the reply of call \<open>k\<close> is, once the loop has found it.\<close>

definition on_the_way :: "calls \<Rightarrow> call \<Rightarrow> message \<Rightarrow> bool" where
  "on_the_way c k m \<longleftrightarrow> k_loop c = Replying k m \<or> k_chan c k = Some m"

text \<open>
  Calls have different numbers, up to the count; the table has only calls that are under way; the
  reply of a call is in one place at most, answers the call, and is not lost while the caller waits.
\<close>

definition calls_inv :: "calls \<Rightarrow> bool" where
  "calls_inv c \<longleftrightarrow>
     (\<forall>i k. call_of (k_caller c i) = Some k \<longrightarrow> 0 < k \<and> k \<le> k_count c) \<and>
     (\<forall>i j k. call_of (k_caller c i) = Some k \<longrightarrow> call_of (k_caller c j) = Some k \<longrightarrow> i = j) \<and>
     (\<forall>s k. k_replies c s = Some k \<longrightarrow> s = serial k \<and>
        (\<exists>i. call_of (k_caller c i) = Some k \<and> in_table (k_caller c i)) \<and> (\<forall>m. \<not> on_the_way c k m)) \<and>
     (\<forall>k m. on_the_way c k m \<longrightarrow> answers m k \<and> 0 < k \<and> k \<le> k_count c \<and> (\<forall>i. k_caller c i \<noteq> Numbered k)) \<and>
     (\<forall>k m. k_loop c = Replying k m \<longrightarrow> k_chan c k = None) \<and>
     (\<forall>i k m. k_caller c i = Replied k m \<longrightarrow> answers m k) \<and>
     (\<forall>i k. k_caller c i = Waiting k \<or> k_caller c i = Registered k \<longrightarrow>
        k_replies c (serial k) = Some k \<or> (\<exists>m. on_the_way c k m))"

lemma serial_inj: "k < 2 ^ 32 \<Longrightarrow> k' < 2 ^ 32 \<Longrightarrow> serial k = serial k' \<longleftrightarrow> k = k'"
  by (rule word_of_nat_inj)

lemma start_inv: "calls_inv start_calls"
  by (simp add: calls_inv_def start_calls_def on_the_way_def)

lemma call_step_count: "call_step matching reader c c' \<Longrightarrow> k_count c \<le> k_count c'"
  by (induction rule: call_step.induct) simp_all

lemma inv_calls:
  assumes "calls_inv c"
  shows "\<And>i k. call_of (k_caller c i) = Some k \<Longrightarrow> 0 < k \<and> k \<le> k_count c"
    and "\<And>i j k. call_of (k_caller c i) = Some k \<Longrightarrow> call_of (k_caller c j) = Some k \<Longrightarrow> i = j"
    and "\<And>s k. k_replies c s = Some k \<Longrightarrow> s = serial k"
    and "\<And>s k. k_replies c s = Some k \<Longrightarrow> \<exists>i. call_of (k_caller c i) = Some k \<and> in_table (k_caller c i)"
    and "\<And>s k m. k_replies c s = Some k \<Longrightarrow> \<not> on_the_way c k m"
    and "\<And>k m. on_the_way c k m \<Longrightarrow> answers m k \<and> 0 < k \<and> k \<le> k_count c"
    and "\<And>i k m. on_the_way c k m \<Longrightarrow> k_caller c i \<noteq> Numbered k"
    and "\<And>k m. k_loop c = Replying k m \<Longrightarrow> k_chan c k = None"
    and "\<And>i k m. k_caller c i = Replied k m \<Longrightarrow> answers m k"
    and "\<And>i k. k_caller c i = Waiting k \<or> k_caller c i = Registered k \<Longrightarrow>
        k_replies c (serial k) = Some k \<or> (\<exists>m. on_the_way c k m)"
  using assms unfolding calls_inv_def by blast+

lemma calls_invI:
  assumes "\<And>i k. call_of (k_caller c i) = Some k \<Longrightarrow> 0 < k \<and> k \<le> k_count c"
    and "\<And>i j k. call_of (k_caller c i) = Some k \<Longrightarrow> call_of (k_caller c j) = Some k \<Longrightarrow> i = j"
    and "\<And>s k. k_replies c s = Some k \<Longrightarrow> s = serial k"
    and "\<And>s k. k_replies c s = Some k \<Longrightarrow> \<exists>i. call_of (k_caller c i) = Some k \<and> in_table (k_caller c i)"
    and "\<And>s k m. k_replies c s = Some k \<Longrightarrow> \<not> on_the_way c k m"
    and "\<And>k m. on_the_way c k m \<Longrightarrow> answers m k \<and> 0 < k \<and> k \<le> k_count c"
    and "\<And>i k m. on_the_way c k m \<Longrightarrow> k_caller c i \<noteq> Numbered k"
    and "\<And>k m. k_loop c = Replying k m \<Longrightarrow> k_chan c k = None"
    and "\<And>i k m. k_caller c i = Replied k m \<Longrightarrow> answers m k"
    and "\<And>i k. k_caller c i = Waiting k \<or> k_caller c i = Registered k \<Longrightarrow>
        k_replies c (serial k) = Some k \<or> (\<exists>m. on_the_way c k m)"
  shows "calls_inv c"
  using assms unfolding calls_inv_def by blast

lemma in_table_not_idle: "in_table st \<Longrightarrow> \<not> idle st"
  by (cases st) simp_all

lemma other_caller:
  assumes "calls_inv c" and "call_of (k_caller c i) = Some k" and "call_of (k_caller c j) = Some k'" and "j \<noteq> i"
  shows "k' \<noteq> k" and "k_count c < 2 ^ 32 \<Longrightarrow> serial k' \<noteq> serial k"
proof -
  note I = inv_calls [OF assms(1)]
  show "k' \<noteq> k" using I(2) [of j k i] assms by auto
  then show "k_count c < 2 ^ 32 \<Longrightarrow> serial k' \<noteq> serial k"
    using I(1) [OF assms(2)] I(1) [OF assms(3)] serial_inj [of k' k] by simp
qed

text \<open>A caller's entry in the table stays when another caller, or an idle one, moves.\<close>

lemma table_other:
  assumes "calls_inv c" and "k_replies c s = Some k'" and "call_of (k_caller c i) \<noteq> Some k' \<or> \<not> in_table (k_caller c i)"
  shows "\<exists>j. j \<noteq> i \<and> call_of (k_caller c j) = Some k' \<and> in_table (k_caller c j)"
proof -
  obtain j where j: "call_of (k_caller c j) = Some k'" "in_table (k_caller c j)"
    using inv_calls(4) [OF assms(1,2)] by blast
  then have "j \<noteq> i" using assms(3) by auto
  with j show ?thesis by blast
qed

lemma inv_number:
  assumes "calls_inv c" and "idle (k_caller c i)"
  shows "calls_inv (c\<lparr>k_count := k_count c + 1, k_caller := (k_caller c)(i := Numbered (k_count c + 1))\<rparr>)"
proof (rule calls_invI, goal_cases)
  note P = assms inv_calls [OF assms(1)]
  case (4 s k)
  then obtain j where "j \<noteq> i" "call_of (k_caller c j) = Some k" "in_table (k_caller c j)"
    using table_other [OF assms(1), of s k i] in_table_not_idle assms(2) by auto
  then show ?case by (intro exI [of _ j]) simp
next
  note P = assms inv_calls [OF assms(1)]
  case 1
  with P show ?case by (clarsimp simp: on_the_way_def split: if_splits; fastforce)
next
  note P = assms inv_calls [OF assms(1)]
  case 2
  with P show ?case by (clarsimp simp: on_the_way_def split: if_splits; fastforce)
next
  note P = assms inv_calls [OF assms(1)]
  case 6
  with P show ?case by (clarsimp simp: on_the_way_def split: if_splits; fastforce)
next
  note P = assms inv_calls [OF assms(1)]
  case 7
  with P show ?case by (clarsimp simp: on_the_way_def split: if_splits; fastforce)
next
  note P = assms inv_calls [OF assms(1)]
  case 8
  with P show ?case by (clarsimp simp: on_the_way_def split: if_splits; fastforce)
qed (use assms inv_calls [OF assms(1)] in \<open>auto simp: on_the_way_def answers_def split: if_splits\<close>)

lemma inv_register:
  assumes "calls_inv c" and "k_count c < 2 ^ 32" and "k_caller c i = Numbered k"
  shows "calls_inv (c\<lparr>k_replies := (k_replies c)(serial k \<mapsto> k), k_caller := (k_caller c)(i := Registered k)\<rparr>)"
proof (rule calls_invI, goal_cases)
  note I = inv_calls [OF assms(1)]
  case (4 s k')
  show ?case
  proof (cases "s = serial k")
    case False
    with 4 obtain j where "j \<noteq> i" "call_of (k_caller c j) = Some k'" "in_table (k_caller c j)"
      using table_other [OF assms(1), of s k' i] assms(3) by auto
    then show ?thesis by (intro exI [of _ j]) simp
  qed (use 4 in \<open>auto intro: exI [of _ i]\<close>)
next
  note I = inv_calls [OF assms(1)]
  case (10 j k')
  show ?case
  proof (cases "j = i")
    case False
    with 10 have j: "k_caller c j = Waiting k' \<or> k_caller c j = Registered k'" by simp
    then have "serial k' \<noteq> serial k"
      using other_caller(2) [OF assms(1), of i k j k'] assms(2,3) False by auto
    then show ?thesis using I(10) [OF j] by (simp add: on_the_way_def)
  qed (use 10 in simp)
next
  note P = assms inv_calls [OF assms(1)]
  case 5
  with P show ?case by (clarsimp simp: on_the_way_def split: if_splits; fastforce)
next
  note P = assms inv_calls [OF assms(1)]
  case 8
  with P show ?case by (clarsimp simp: on_the_way_def split: if_splits; fastforce)
qed (use assms inv_calls [OF assms(1)] inv_calls(1,2) [OF assms(1), of i k] inv_calls(2) [OF assms(1), of _ k i] in \<open>auto simp: on_the_way_def answers_def split: if_splits\<close>)

text \<open>A caller that moves on with its call, in the table all the time.\<close>

lemma inv_move:
  assumes "calls_inv c" and "call_of (k_caller c i) = Some k" and "in_table (k_caller c i)"
    and "call_of st = Some k" and "in_table st" and "st = Waiting k \<or> st = Registered k \<longrightarrow>
      k_caller c i = Waiting k \<or> k_caller c i = Registered k"
  shows "calls_inv (c\<lparr>k_caller := (k_caller c)(i := st)\<rparr>)"
proof (rule calls_invI, goal_cases)
  case (4 s k')
  then obtain j where "call_of (k_caller c j) = Some k'" "in_table (k_caller c j)"
    using inv_calls(4) [OF assms(1)] by auto
  then show ?case using assms(2,4,5) by (intro exI [of _ j]) auto
next
  case (7 j k' m)
  then show ?case using inv_calls(7) [OF assms(1)] assms(5) by (auto simp: on_the_way_def)
next
  case (8 k m)
  then show ?case using inv_calls(8) [OF assms(1)] by simp
next
  case (9 j k' m)
  then show ?case using inv_calls(9) [OF assms(1)] assms(5) by (auto split: if_splits)
next
  case (10 j k')
  then show ?case
    using inv_calls(10) [OF assms(1), of i k] inv_calls(10) [OF assms(1), of j k'] assms(4,6)
    by (cases "j = i") (auto simp: on_the_way_def)
qed (use assms inv_calls(1,2,3,5,6) [OF assms(1)] in \<open>auto simp: on_the_way_def answers_def split: if_splits\<close>)

lemma inv_unregister:
  assumes "calls_inv c" and "k_count c < 2 ^ 32" and "k_caller c i = Unsent k"
  shows "calls_inv (c\<lparr>k_replies := (k_replies c)(serial k := None), k_caller := (k_caller c)(i := Failed k)\<rparr>)"
proof (rule calls_invI, goal_cases)
  note I = inv_calls [OF assms(1)]
  case (4 s k')
  then have "k' \<noteq> k" using I(3) [of s k'] by (auto split: if_splits)
  with 4 obtain j where "j \<noteq> i" "call_of (k_caller c j) = Some k'" "in_table (k_caller c j)"
    using table_other [OF assms(1), of s k' i] assms(3) by (auto split: if_splits)
  then show ?case by (intro exI [of _ j]) simp
next
  case (8 k m)
  then show ?case using inv_calls(8) [OF assms(1)] by simp
next
  case (10 j k')
  then have j: "j \<noteq> i" "k_caller c j = Waiting k' \<or> k_caller c j = Registered k'" by (auto split: if_splits)
  then have "serial k' \<noteq> serial k"
    using other_caller(2) [OF assms(1), of i k j k'] assms(2,3) by auto
  then show ?case using inv_calls(10) [OF assms(1) j(2)] by (simp add: on_the_way_def)
qed (use assms inv_calls [OF assms(1)] inv_calls(1,2) [OF assms(1), of i k] inv_calls(2) [OF assms(1), of _ k i] in \<open>auto simp: on_the_way_def answers_def split: if_splits\<close>)

lemma inv_take:
  assumes "calls_inv c" and "k_caller c i = Waiting k" and "k_chan c k = Some m"
  shows "calls_inv (c\<lparr>k_caller := (k_caller c)(i := Replied k m), k_chan := (k_chan c)(k := None)\<rparr>)"
proof (rule calls_invI, goal_cases)
  note I = inv_calls [OF assms(1)]
  have way: "on_the_way c k m" using assms(3) by (simp add: on_the_way_def)
  case (4 s k')
  then have "k' \<noteq> k" using I(5) [of s k' m] way by auto
  with 4 obtain j where "j \<noteq> i" "call_of (k_caller c j) = Some k'" "in_table (k_caller c j)"
    using table_other [OF assms(1), of s k' i] assms(2) by auto
  then show ?case by (intro exI [of _ j]) simp
next
  note P = assms inv_calls [OF assms(1)]
  case 6
  with P show ?case by (clarsimp simp: on_the_way_def split: if_splits; fastforce)
next
  note P = assms inv_calls [OF assms(1)]
  case 7
  with P show ?case by (clarsimp simp: on_the_way_def split: if_splits; fastforce)
next
  case (8 k m)
  then show ?case using inv_calls(8) [OF assms(1)] by simp
next
  case (9 j k' m')
  have "answers m k" using inv_calls(6) [OF assms(1), of k m] assms(3) by (simp add: on_the_way_def)
  then show ?case using 9 inv_calls(9) [OF assms(1)] by (auto split: if_splits)
next
  case (10 j k')
  then have j: "j \<noteq> i" "k_caller c j = Waiting k' \<or> k_caller c j = Registered k'" by (auto split: if_splits)
  then have "k' \<noteq> k"
    using other_caller(1) [OF assms(1), of i k j k'] assms(2) by auto
  then show ?case using inv_calls(10) [OF assms(1) j(2)] by (simp add: on_the_way_def)
qed (use assms inv_calls [OF assms(1)] inv_calls(1,2) [OF assms(1), of i k] inv_calls(2) [OF assms(1), of _ k i] in \<open>auto simp: on_the_way_def answers_def split: if_splits\<close>)

lemma inv_reply:
  assumes "calls_inv c" and "k_loop c = Reading" and "is_reply m" and "k_replies c (m_reply_serial m) = Some k"
  shows "calls_inv (c\<lparr>k_replies := (k_replies c)(m_reply_serial m := None), k_loop := Replying k m\<rparr>)"
proof (rule calls_invI, goal_cases)
  note I = inv_calls [OF assms(1)]
  have serial: "m_reply_serial m = serial k" using I(3) [OF assms(4)] .
  obtain i where i: "call_of (k_caller c i) = Some k" "in_table (k_caller c i)" using I(4) [OF assms(4)] by blast
  have way: "on_the_way (c\<lparr>k_replies := (k_replies c)(m_reply_serial m := None), k_loop := Replying k m\<rparr>) k' m' \<longleftrightarrow>
      (k' = k \<and> m' = m) \<or> on_the_way c k' m'" for k' m'
    using assms(2) by (auto simp: on_the_way_def)
  {
    case (4 s k')
    then show ?case using I(4) [of s k'] by (simp split: if_splits)
  next
    case (5 s k' m')
    then have "k_replies c s = Some k'" "s \<noteq> m_reply_serial m" by (auto split: if_splits)
    then show ?case using I(3) [of s k'] I(5) [of s k' m'] serial way by auto
  next
    case (6 k' m')
    then show ?case
      using I(1) [OF i(1)] I(6) [of k' m'] assms(3) serial way by (auto simp: answers_def)
  next
    case (7 j k' m')
    then show ?case
      using I(2) [OF i(1), of j] I(7) [of k' m' j] i(2) way by auto
  next
    case (8 k' m')
    then have "k' = k" by simp
    then show ?case using I(5) [OF assms(4)] by (cases "k_chan c k") (auto simp: on_the_way_def)
  next
    case (9 j k' m')
    then show ?case using I(9) by simp
  next
    case (10 j k')
    then have "k_replies c (serial k') = Some k' \<or> (\<exists>m'. on_the_way c k' m')" using I(10) by simp
    then show ?case using assms(4) serial way by (cases "k' = k") (auto split: if_splits)
  next
    case (1 j k')
    then show ?case using I(1) by simp
  next
    case (2 j j' k')
    then show ?case using I(2) by simp
  next
    case (3 s k')
    then show ?case using I(3) by (simp split: if_splits)
  }
qed

lemma inv_put:
  assumes "calls_inv c" and "k_loop c = Replying k m" and "k_chan c k = None"
  shows "calls_inv (c\<lparr>k_chan := (k_chan c)(k := Some m), k_loop := Reading\<rparr>)"
proof -
  have "on_the_way (c\<lparr>k_chan := (k_chan c)(k := Some m), k_loop := Reading\<rparr>) = on_the_way c"
    using assms(2,3) by (intro ext) (auto simp: on_the_way_def)
  then show ?thesis using assms(1) unfolding calls_inv_def by simp
qed

text \<open>A loop that does not deliver a reply, before and after.\<close>

lemma inv_loop:
  assumes "calls_inv c" and "\<forall>k m. k_loop c \<noteq> Replying k m" and "\<forall>k m. l \<noteq> Replying k m"
  shows "calls_inv (c\<lparr>k_loop := l\<rparr>)"
proof -
  have "on_the_way (c\<lparr>k_loop := l\<rparr>) = on_the_way c"
    using assms(2,3) by (intro ext) (auto simp: on_the_way_def)
  then show ?thesis using assms unfolding calls_inv_def by simp
qed

lemma inv_count: "calls_inv c \<Longrightarrow> calls_inv (c\<lparr>k_count := k_count c + 1\<rparr>)"
  unfolding calls_inv_def on_the_way_def by (simp add: le_SucI)

lemma step_inv:
  assumes "call_step matching reader c c'" and "calls_inv c" and "k_count c' < 2 ^ 32"
  shows "calls_inv c'"
  using assms
proof (induction rule: call_step.induct)
  case (write_ok c i k)
  then show ?case by (intro inv_move [where k = k]) simp_all
next
  case (write_failed c i k)
  then show ?case by (intro inv_move [where k = k]) simp_all
next
  case (number c i)
  then show ?case by (intro inv_number)
next
  case (number_other c)
  then show ?case by (intro inv_count)
qed (simp_all add: inv_register inv_unregister inv_take inv_reply inv_put inv_loop)

lemma reachable_inv: "reachable matching reader c \<Longrightarrow> k_count c < 2 ^ 32 \<Longrightarrow> calls_inv c"
proof (induction rule: reachable.induct)
  case start
  show ?case by (rule start_inv)
next
  case (step c c')
  then show ?case using call_step_count [OF step.hyps(2)] step_inv [OF step.hyps(2)] by simp
qed

section \<open>What comes after\<close>

inductive call_steps :: "(message \<Rightarrow> watch list) \<Rightarrow> (watch \<Rightarrow> caller) \<Rightarrow> calls \<Rightarrow> calls \<Rightarrow> bool"
  for matching :: "message \<Rightarrow> watch list" and reader :: "watch \<Rightarrow> caller"
where
  none: "call_steps matching reader c c"
| more: "call_steps matching reader c c' \<Longrightarrow> call_step matching reader c' c'' \<Longrightarrow> call_steps matching reader c c''"

text \<open>
  A caller waits for good if nothing can fill its channel: the loop has stopped, or it is itself
  waiting for that caller, to take a signal.
\<close>

definition loop_stuck :: "(watch \<Rightarrow> caller) \<Rightarrow> calls \<Rightarrow> caller \<Rightarrow> bool" where
  "loop_stuck reader c i \<longleftrightarrow>
     k_loop c = Stopped \<or> (\<exists>w ws m. k_loop c = Signalling (w # ws) m \<and> reader w = i)"

definition waits_for_good :: "(watch \<Rightarrow> caller) \<Rightarrow> calls \<Rightarrow> caller \<Rightarrow> call \<Rightarrow> bool" where
  "waits_for_good reader c i k \<longleftrightarrow>
     k_caller c i = Waiting k \<and> k_chan c k = None \<and> loop_stuck reader c i"

lemma waits_step:
  assumes "call_step matching reader c c'" and "waits_for_good reader c i k"
  shows "waits_for_good reader c' i k"
  using assms by (induction rule: call_step.induct) (auto simp: waits_for_good_def loop_stuck_def)

lemma waits_steps:
  "call_steps matching reader c c' \<Longrightarrow> waits_for_good reader c i k \<Longrightarrow> waits_for_good reader c' i k"
  by (induction rule: call_steps.induct) (auto intro: waits_step)

section \<open>One call\<close>

text \<open>Caller 0 makes the first call and waits; its reply.\<close>

definition one_call :: "call_state \<Rightarrow> (32 word \<rightharpoonup> call) \<Rightarrow> loop_state \<Rightarrow> calls" where
  "one_call st table loop =
     start_calls\<lparr>k_count := 1, k_replies := table, k_caller := (\<lambda>_. Idle)(0 := st), k_loop := loop\<rparr>"

definition first_reply :: message where
  "first_reply = new_message\<lparr>m_type := TypeMethodReturn, m_reply_serial := 1\<rparr>"

lemma first_reply_simps [simp]: "is_reply first_reply" "m_reply_serial first_reply = 1"
  by (simp_all add: first_reply_def is_reply_def)

lemma one_call_waits: "reachable matching reader (one_call (Waiting 1) [1 \<mapsto> 1] Reading)"
proof -
  have "call_step matching reader start_calls (one_call (Numbered 1) Map.empty Reading)"
    using call_step.number [of start_calls 0 matching reader] by (simp add: one_call_def start_calls_def)
  note a = reachable.step [OF reachable.start this]
  have "call_step matching reader (one_call (Numbered 1) Map.empty Reading) (one_call (Registered 1) [1 \<mapsto> 1] Reading)"
    using call_step.register [of "one_call (Numbered 1) Map.empty Reading" 0 1 matching reader]
    by (simp add: one_call_def start_calls_def)
  note b = reachable.step [OF a this]
  have "call_step matching reader (one_call (Registered 1) [1 \<mapsto> 1] Reading) (one_call (Waiting 1) [1 \<mapsto> 1] Reading)"
    using call_step.write_ok [of "one_call (Registered 1) [1 \<mapsto> 1] Reading" 0 1 matching reader]
    by (simp add: one_call_def start_calls_def)
  then show ?thesis by (rule reachable.step [OF b])
qed

lemma one_call_replying: "reachable matching reader (one_call (Waiting 1) Map.empty (Replying 1 first_reply))"
proof -
  have "call_step matching reader (one_call (Waiting 1) [1 \<mapsto> 1] Reading) (one_call (Waiting 1) Map.empty (Replying 1 first_reply))"
    using call_step.reply [of "one_call (Waiting 1) [1 \<mapsto> 1] Reading" first_reply 1 matching reader]
    by (simp add: one_call_def start_calls_def)
  then show ?thesis by (rule reachable.step [OF one_call_waits])
qed

section \<open>Properties\<close>

text \<open>
  C6. However the calls of a connection and its receiving goroutine interleave, and whatever the peer
  sends: a call that returns a message returns a reply, with the serial number of that call; as long
  as the serial numbers have not wrapped around.
\<close>

theorem call_gets_its_reply:
  assumes "reachable matching reader c" and "k_count c < 2 ^ 32" and "k_caller c i = Replied k m"
  shows "m_reply_serial m = serial k \<and> (m_type m = TypeMethodReturn \<or> m_type m = TypeError)"
  using inv_calls(9) [OF reachable_inv [OF assms(1,2)] assms(3)] by (simp add: answers_def is_reply_def)

theorem call_gets_its_reply_witness:
  "\<exists>c m. reachable (\<lambda>_. []) (\<lambda>_. 0) c \<and> k_caller c 0 = Replied 1 m \<and> m_reply_serial m = 1"
proof -
  let ?c = "one_call (Waiting 1) Map.empty (Replying 1 first_reply)"
  let ?c1 = "?c\<lparr>k_chan := (k_chan ?c)(1 := Some first_reply), k_loop := Reading\<rparr>"
  let ?c2 = "?c1\<lparr>k_caller := (k_caller ?c1)(0 := Replied 1 first_reply), k_chan := (k_chan ?c1)(1 := None)\<rparr>"
  have "call_step (\<lambda>_. []) (\<lambda>_. 0) ?c ?c1" by (rule put_reply) (simp_all add: one_call_def start_calls_def)
  note r = reachable.step [OF one_call_replying this]
  have "call_step (\<lambda>_. []) (\<lambda>_. 0) ?c1 ?c2" by (rule take_reply) (simp_all add: one_call_def start_calls_def)
  note r = reachable.step [OF r this]
  have k: "k_count ?c2 < 2 ^ 32" "k_caller ?c2 0 = Replied 1 first_reply" by (simp_all add: one_call_def)
  from call_gets_its_reply [OF r k] r k(2) show ?thesis by (intro exI conjI) auto
qed

text \<open>
  C10. The receiving goroutine never waits to deliver a reply, although it sends it to a channel: the
  channel of a call has room for it, since a call is answered once. So a caller that is slow to take
  its reply does not keep the connection from going on.
\<close>

theorem reply_never_blocks:
  assumes "reachable matching reader c" and "k_count c < 2 ^ 32" and "k_loop c = Replying k m"
  shows "call_step matching reader c (c\<lparr>k_chan := (k_chan c)(k := Some m), k_loop := Reading\<rparr>)"
  using assms inv_calls(8) [OF reachable_inv [OF assms(1,2)]] by (intro put_reply)

theorem reply_never_blocks_witness:
  "\<exists>c c'. k_loop c = Replying 1 first_reply \<and> call_step (\<lambda>_. []) (\<lambda>_. 0) c c' \<and> k_loop c' = Reading"
proof -
  let ?c = "one_call (Waiting 1) Map.empty (Replying 1 first_reply)"
  have k: "k_count ?c < 2 ^ 32" "k_loop ?c = Replying 1 first_reply" by (simp_all add: one_call_def)
  from reply_never_blocks [OF one_call_replying [of "\<lambda>_. []" "\<lambda>_. 0"] k] k(2) show ?thesis by fastforce
qed

text \<open>
  C18. A call whose reply arrives returns: a caller that waits while the goroutine reads gets the message
  with its serial number, in three steps that nothing can prevent.
\<close>

theorem reply_arrives:
  assumes "reachable matching reader c" and "k_count c < 2 ^ 32" and "k_caller c i = Waiting k"
    and "k_loop c = Reading" and "k_chan c k = None" and "is_reply m" and "m_reply_serial m = serial k"
  shows "\<exists>c1 c2 c3. call_step matching reader c c1 \<and> call_step matching reader c1 c2 \<and>
    call_step matching reader c2 c3 \<and> k_caller c3 i = Replied k m \<and> k_loop c3 = Reading"
proof -
  have "k_replies c (serial k) = Some k"
    using inv_calls(10) [OF reachable_inv [OF assms(1,2)], of i k] assms(3-5) by (auto simp: on_the_way_def)
  then have t: "k_replies c (m_reply_serial m) = Some k" using assms(7) by simp
  let ?c1 = "c\<lparr>k_replies := (k_replies c)(m_reply_serial m := None), k_loop := Replying k m\<rparr>"
  let ?c2 = "?c1\<lparr>k_chan := (k_chan ?c1)(k := Some m), k_loop := Reading\<rparr>"
  let ?c3 = "?c2\<lparr>k_caller := (k_caller ?c2)(i := Replied k m), k_chan := (k_chan ?c2)(k := None)\<rparr>"
  have "call_step matching reader c ?c1" by (rule reply [OF assms(4,6) t])
  moreover have "call_step matching reader ?c1 ?c2" by (rule put_reply) (simp_all add: assms(5))
  moreover have "call_step matching reader ?c2 ?c3" by (rule take_reply) (simp_all add: assms(3))
  ultimately show ?thesis by (intro exI [of _ ?c1] exI [of _ ?c2] exI [of _ ?c3]) simp
qed

theorem reply_arrives_witness:
  "\<exists>c c1 c2 c3. reachable (\<lambda>_. []) (\<lambda>_. 0) c \<and> k_caller c 0 = Waiting 1 \<and> call_step (\<lambda>_. []) (\<lambda>_. 0) c c1 \<and>
    call_step (\<lambda>_. []) (\<lambda>_. 0) c1 c2 \<and> call_step (\<lambda>_. []) (\<lambda>_. 0) c2 c3 \<and> k_caller c3 0 = Replied 1 first_reply"
proof -
  let ?c = "one_call (Waiting 1) [1 \<mapsto> 1] Reading"
  have k: "k_count ?c < 2 ^ 32" "k_caller ?c 0 = Waiting 1" "k_loop ?c = Reading" "k_chan ?c 1 = None"
      "m_reply_serial first_reply = serial 1"
    by (simp_all add: one_call_def start_calls_def)
  from reply_arrives [OF one_call_waits [of "\<lambda>_. []" "\<lambda>_. 0"] k(1-4) first_reply_simps(1) k(5)]
    one_call_waits [of "\<lambda>_. []" "\<lambda>_. 0"] k(2)
  show ?thesis by blast
qed

text \<open>
  C32. A call that waits never returns once the receiving goroutine has stopped, as it does when the
  connection is closed or lost: nobody closes its channel. Nor does it return if the goroutine is
  sending a signal to a channel that only the caller reads; so cancelling a watch, which is a call to
  the bus, can block for good both the program and the connection.
\<close>

theorem call_never_returns:
  assumes "k_caller c i = Waiting k" and "k_chan c k = None"
    and "k_loop c = Stopped \<or> (\<exists>w ws m. k_loop c = Signalling (w # ws) m \<and> reader w = i)"
    and "call_steps matching reader c c'"
  shows "k_caller c' i = Waiting k"
  using waits_steps [OF assms(4), of i k] assms(1-3) by (simp add: waits_for_good_def loop_stuck_def)

theorem call_never_returns_witness:
  "\<exists>c c'. reachable (\<lambda>_. []) (\<lambda>_. 0) c \<and> k_loop c = Stopped \<and>
    call_steps (\<lambda>_. []) (\<lambda>_. 0) c c' \<and> k_count c' = 2 \<and> k_caller c' 0 = Waiting 1"
proof -
  let ?c = "(one_call (Waiting 1) [1 \<mapsto> 1] Reading)\<lparr>k_loop := Stopped\<rparr>"
  let ?c' = "?c\<lparr>k_count := k_count ?c + 1\<rparr>"
  have "call_step (\<lambda>_. []) (\<lambda>_. 0) (one_call (Waiting 1) [1 \<mapsto> 1] Reading) ?c"
    by (rule stop) (simp add: one_call_def)
  note r = reachable.step [OF one_call_waits this]
  have steps: "call_steps (\<lambda>_. []) (\<lambda>_. 0) ?c ?c'" by (rule more [OF none number_other])
  have k: "k_caller ?c 0 = Waiting 1" "k_chan ?c 1 = None"
      "k_loop ?c = Stopped \<or> (\<exists>w ws m. k_loop ?c = Signalling (w # ws) m \<and> (\<lambda>_. 0) w = (0 :: nat))"
    by (simp_all add: one_call_def start_calls_def)
  have "k_caller ?c' 0 = Waiting 1" by (rule call_never_returns [OF k steps])
  moreover have "k_loop ?c = Stopped" "k_count ?c' = 2" by (simp_all add: one_call_def)
  ultimately show ?thesis using r steps by blast
qed

end
