(* ===== verification/Watches.thy ===== *)
theory Watches
  imports WatchSet
begin

text \<open>
  Signal watches and the tracking of name owners (the second part of signal.go, and the first of
  names.go).

  An operation is a function on the state of the client, run by one goroutine. \<open>s_locks\<close> are the
  mutexes that this goroutine holds: Go's mutexes are not reentrant, so a second \<open>Lock\<close> of one of
  them blocks forever. Other goroutines are taken to release the locks they hold; the one way in
  which they matter here, a change of owner that arrives while \<open>GetNameOwner\<close> is under way, is in
  the model. The calls to the bus daemon are parameters. Pointers are identities.
\<close>

section \<open>State\<close>

datatype lock = HandlerMutex | NameInfoMutex | InfoLock nat | CancelLock watch | WatchLock nat | NameCancelLock nat

text \<open>The callbacks: of a name watch and of a signal watch.\<close>

datatype name_callback = FollowOwner nat nat | SendOwner nat

datatype signal_callback = SendSignal nat | OwnerChanged nat

record signal_watch =
  w_rule :: nat
  w_cb :: signal_callback
  w_cancelled :: bool

record name_info =
  ni_name :: string
  ni_signal :: "watch option"
  ni_owner :: string
  ni_watches :: "nat list"

record name_watch =
  nw_info :: nat
  nw_cb :: name_callback

text \<open>The exported types \<open>SignalWatch\<close> and \<open>NameWatch\<close>; a closed channel, and the buffer of one.\<close>

record public_watch =
  p_internal :: "watch option"
  p_name :: "nat option"
  p_closed :: bool

record public_name_watch =
  n_watch :: "nat option"
  n_buffer :: "string list"
  n_closed :: bool
  n_cancelled :: bool

record client =
  s_fresh :: nat
  s_rule :: "nat \<Rightarrow> match_rule"
  s_set :: watch_set
  s_watch :: "watch \<Rightarrow> signal_watch"
  s_names :: "string \<rightharpoonup> nat"
  s_info :: "nat \<Rightarrow> name_info"
  s_name_watch :: "nat \<Rightarrow> name_watch"
  s_public :: "nat \<Rightarrow> public_watch"
  s_public_name :: "nat \<Rightarrow> public_name_watch"
  s_locks :: "lock set"

definition rules_of :: "client \<Rightarrow> rules" where
  "rules_of s = (\<lambda>w. s_rule s (w_rule (s_watch s w)))"

text \<open>
  The daemon: the outcomes of the calls by their argument, and the owners that arrive in signals
  while \<open>GetNameOwner\<close> is under way.
\<close>

record daemon =
  b_add_match :: "string \<Rightarrow> unit result"
  b_remove_match :: "string \<Rightarrow> unit result"
  b_get_name_owner :: "string \<Rightarrow> string result"
  b_request_name :: "string \<Rightarrow> 32 word \<Rightarrow> 32 word result"
  b_release_name :: "string \<Rightarrow> 32 word result"
  b_meanwhile :: "string \<Rightarrow> string list"

section \<open>Sequencing\<close>

text \<open>A call with a state: what it returns, or how it ends otherwise, and the new state.\<close>

type_synonym ('a, 's) stateful = "'s \<Rightarrow> 'a result \<times> 's"
type_synonym 'a go = "('a, client) stateful"

definition gret :: "'a \<Rightarrow> ('a, 's) stateful" where
  "gret x s = (Inr x, s)"

definition gfail :: "go_error failure \<Rightarrow> ('a, 's) stateful" where
  "gfail f s = (Inl f, s)"

definition gbind :: "('a, 's) stateful \<Rightarrow> ('a \<Rightarrow> ('b, 's) stateful) \<Rightarrow> ('b, 's) stateful" where
  "gbind m f s = (case m s of (Inl e, s') \<Rightarrow> (Inl e, s') | (Inr x, s') \<Rightarrow> f x s')"

definition gseq :: "(unit, 's) stateful \<Rightarrow> ('b, 's) stateful \<Rightarrow> ('b, 's) stateful" where
  "gseq m k = gbind m (\<lambda>_. k)"

definition gget :: "('s \<Rightarrow> 'a) \<Rightarrow> ('a, 's) stateful" where
  "gget f s = (Inr (f s), s)"

definition gmodify :: "('s \<Rightarrow> 's) \<Rightarrow> (unit, 's) stateful" where
  "gmodify f s = (Inr (), f s)"

text \<open>A returned error as a value, \<open>err\<close>; panics and blocking calls are none.\<close>

definition gtry :: "('a, 's) stateful \<Rightarrow> (go_error + 'a, 's) stateful" where
  "gtry m s =
     (case m s of
        (Inr x, s') \<Rightarrow> (Inr (Inr x), s')
      | (Inl (Error e), s') \<Rightarrow> (Inr (Inl e), s')
      | (Inl f, s') \<Rightarrow> (Inl f, s'))"

text \<open>\<open>Lock\<close> and the deferred \<open>Unlock\<close> around a body.\<close>

definition locked :: "lock \<Rightarrow> 'a go \<Rightarrow> 'a go" where
  "locked l m s =
     (if l \<in> s_locks s then (Inl (Blocked ''sync.Mutex.Lock''), s)
      else case m (s\<lparr>s_locks := insert l (s_locks s)\<rparr>) of
        (Inl (Blocked b), s') \<Rightarrow> (Inl (Blocked b), s')
      | (r, s') \<Rightarrow> (r, s'\<lparr>s_locks := s_locks s' - {l}\<rparr>))"

named_theorems go_defs

declare gret_def [go_defs] gfail_def [go_defs] gbind_def [go_defs] gseq_def [go_defs] gget_def [go_defs]
  gmodify_def [go_defs] gtry_def [go_defs]

text \<open>A new object: the identity it gets.\<close>

definition fresh :: "nat go" where
  "fresh s = (Inr (s_fresh s), s\<lparr>s_fresh := s_fresh s + 1\<rparr>)"

section \<open>Internal watches\<close>

definition bus_name :: string where "bus_name = ''org.freedesktop.DBus''"
definition bus_path :: string where "bus_path = ''/org/freedesktop/DBus''"
definition bus_iface :: string where "bus_iface = ''org.freedesktop.DBus''"

text \<open>The owner of a name that is not known yet, \<open>"\x00"\<close>.\<close>

definition no_owner_yet :: string where
  "no_owner_yet = [CHR 0x00]"

definition set_add :: "watch \<Rightarrow> unit go" where
  "set_add w = locked HandlerMutex (gmodify (\<lambda>s. s\<lparr>s_set := ws_add (rules_of s) w (s_set s)\<rparr>))"

definition set_remove :: "watch \<Rightarrow> bool go" where
  "set_remove w = locked HandlerMutex (\<lambda>s.
     (case ws_remove (rules_of s) w (s_set s) of (found, set') \<Rightarrow> (Inr found, s\<lparr>s_set := set'\<rparr>)))"

definition watch_signal :: "daemon \<Rightarrow> nat \<Rightarrow> signal_callback \<Rightarrow> watch go" where
  "watch_signal B rule cb =
     gbind (gget (\<lambda>s. s_rule s rule)) (\<lambda>r.
     if r_type r \<noteq> TypeSignal then gfail (Error (ErrNew ''Match rule is not for signals''))
     else
       gbind fresh (\<lambda>w.
       gseq (gmodify (\<lambda>s. s\<lparr>s_watch := (s_watch s)(w := \<lparr>w_rule = rule, w_cb = cb, w_cancelled = False\<rparr>)\<rparr>)) (
       gseq (set_add w) (
       case b_add_match B (rule_string r) of
         Inl fail \<Rightarrow> gbind (set_remove w) (\<lambda>_. gfail fail)
       | Inr u \<Rightarrow> gret w))))"

definition cancel_watch :: "daemon \<Rightarrow> watch \<Rightarrow> unit go" where
  "cancel_watch B w =
     locked (CancelLock w) (
       gbind (gget (\<lambda>s. w_cancelled (s_watch s w))) (\<lambda>cancelled.
       if cancelled then gret ()
       else
         gbind (set_remove w) (\<lambda>found.
         gbind (gget (\<lambda>s. rules_of s w)) (\<lambda>r.
         case (if found then b_remove_match B (rule_string r) else Inr ()) of
           Inl fail \<Rightarrow> gfail fail
         | Inr u \<Rightarrow> gmodify (\<lambda>s. s\<lparr>s_watch := (s_watch s)(w := (s_watch s w)\<lparr>w_cancelled := True\<rparr>)\<rparr>)))))"

section \<open>Cancelling\<close>

text \<open>\<open>removeNameWatch\<close>, from the inside out: when the last watch of a name goes, the name goes too.\<close>

definition forget_name :: "daemon \<Rightarrow> name_info \<Rightarrow> unit go" where
  "forget_name B info =
     gseq (gmodify (\<lambda>s. s\<lparr>s_names := (s_names s)(ni_name info := None)\<rparr>)) (
     case ni_signal info of
       None \<Rightarrow> gfail (Panic ''nil pointer dereference'')
     | Some w \<Rightarrow> cancel_watch B w)"

definition drop_name_watch :: "daemon \<Rightarrow> nat \<Rightarrow> nat \<Rightarrow> unit go" where
  "drop_name_watch B nw i =
     gbind (gget (\<lambda>s. s_info s i)) (\<lambda>info.
     case remove_swap nw (ni_watches info) of
       None \<Rightarrow> gfail (Error (ErrNew ''NameOwnerWatch already cancelled''))
     | Some ws \<Rightarrow>
         gseq (gmodify (\<lambda>s. s\<lparr>s_info := (s_info s)(i := info\<lparr>ni_watches := ws\<rparr>)\<rparr>)) (
         if ws \<noteq> [] then gret () else forget_name B info))"

definition remove_name_watch :: "daemon \<Rightarrow> nat \<Rightarrow> unit go" where
  "remove_name_watch B nw =
     gbind (gget (\<lambda>s. nw_info (s_name_watch s nw))) (\<lambda>i.
     locked NameInfoMutex (locked (InfoLock i) (drop_name_watch B nw i)))"

definition cancel_public :: "daemon \<Rightarrow> nat \<Rightarrow> unit go" where
  "cancel_public B p =
     locked (WatchLock p) (
       gbind (gget (\<lambda>s. s_public s p)) (\<lambda>pw.
       case p_internal pw of
         None \<Rightarrow> gret ()
       | Some w \<Rightarrow>
           gseq (case p_name pw of None \<Rightarrow> gret () | Some nw \<Rightarrow> remove_name_watch B nw) (
           gseq (cancel_watch B w) (
           gmodify (\<lambda>s. s\<lparr>s_public := (s_public s)(p := pw\<lparr>p_internal := None, p_closed := True\<rparr>)\<rparr>)))))"

section \<open>Owners of names\<close>

text \<open>The two callbacks; the error of \<open>Cancel\<close> is dropped. The channel of a \<open>NameWatch\<close> has room for one.\<close>

definition owner_callback :: "daemon \<Rightarrow> name_callback \<Rightarrow> string \<Rightarrow> unit go" where
  "owner_callback B cb newOwner =
     (case cb of
        FollowOwner p rule \<Rightarrow>
          gbind (gget (\<lambda>s. s_rule s rule)) (\<lambda>r.
          case r_sender r of
            [] \<Rightarrow> gfail (Panic ''index out of range'')
          | c # cs \<Rightarrow>
              if c = CHR '':'' then
                (if newOwner = [] then gbind (gtry (cancel_public B p)) (\<lambda>_. gret ()) else gret ())
              else gmodify (\<lambda>s. s\<lparr>s_rule := (s_rule s)(rule := (s_rule s rule)\<lparr>r_owner := newOwner\<rparr>)\<rparr>))
      | SendOwner n \<Rightarrow>
          gbind (gget (\<lambda>s. s_public_name s n)) (\<lambda>pn.
          if n_closed pn then gfail (Panic ''send on closed channel'')
          else if n_buffer pn \<noteq> [] then gfail (Blocked ''send on NameWatch.C'')
          else gmodify (\<lambda>s. s\<lparr>s_public_name := (s_public_name s)(n := pn\<lparr>n_buffer := [newOwner]\<rparr>)\<rparr>)))"

fun owner_callbacks :: "daemon \<Rightarrow> nat \<Rightarrow> nat list \<Rightarrow> unit go" where
  "owner_callbacks B i [] = gret ()"
| "owner_callbacks B i (nw # nws) =
     gbind (gget (\<lambda>s. (nw_cb (s_name_watch s nw), ni_owner (s_info s i)))) (\<lambda>(cb, owner).
     gseq (owner_callback B cb owner) (owner_callbacks B i nws))"

definition set_owner :: "daemon \<Rightarrow> nat \<Rightarrow> string \<Rightarrow> unit go" where
  "set_owner B i newOwner =
     gseq (gmodify (\<lambda>s. s\<lparr>s_info := (s_info s)(i := (s_info s i)\<lparr>ni_owner := newOwner\<rparr>)\<rparr>)) (
     gbind (gget (\<lambda>s. ni_watches (s_info s i))) (owner_callbacks B i))"

definition handle_owner_change :: "daemon \<Rightarrow> nat \<Rightarrow> string \<Rightarrow> bool \<Rightarrow> unit go" where
  "handle_owner_change B i newOwner lockAcquired =
     (if lockAcquired then set_owner B i newOwner else locked (InfoLock i) (set_owner B i newOwner))"

text \<open>The callback of the watch for \<open>NameOwnerChanged\<close>.\<close>

definition name_owner_changed :: "daemon \<Rightarrow> nat \<Rightarrow> message \<Rightarrow> unit go" where
  "name_owner_changed B i msg =
     (case args_of 1 [PtrTo TString (VString []), PtrTo TString (VString []), PtrTo TString (VString [])] msg of
        Inr [VString busName, VString oldOwner, VString newOwner] \<Rightarrow> handle_owner_change B i newOwner False
      | _ \<Rightarrow> gret ())"

fun arrivals :: "daemon \<Rightarrow> nat \<Rightarrow> string list \<Rightarrow> unit go" where
  "arrivals B i [] = gret ()"
| "arrivals B i (owner # owners) = gseq (handle_owner_change B i owner False) (arrivals B i owners)"

definition check_current_owner :: "daemon \<Rightarrow> nat \<Rightarrow> unit go" where
  "check_current_owner B i =
     gbind (gget (\<lambda>s. ni_name (s_info s i))) (\<lambda>name.
     gseq (arrivals B i (b_meanwhile B name)) (
     let currentOwner = (case b_get_name_owner B name of Inr owner \<Rightarrow> owner | Inl err \<Rightarrow> []) in
     locked (InfoLock i) (
       gbind (gget (\<lambda>s. ni_owner (s_info s i))) (\<lambda>known.
       if known = no_owner_yet then handle_owner_change B i currentOwner True else gret ()))))"

definition owner_rule :: "string \<Rightarrow> match_rule" where
  "owner_rule busName =
     \<lparr>r_type = TypeSignal, r_sender = bus_name, r_path = bus_path, r_iface = bus_iface,
      r_member = ''NameOwnerChanged'', r_arg0 = busName, r_owner = []\<rparr>"

definition new_name_info :: "daemon \<Rightarrow> string \<Rightarrow> nat go" where
  "new_name_info B busName =
     gbind fresh (\<lambda>i.
     gbind fresh (\<lambda>rule.
     gseq (gmodify (\<lambda>s. s\<lparr>
         s_info := (s_info s)(i := \<lparr>ni_name = busName, ni_signal = None, ni_owner = no_owner_yet, ni_watches = []\<rparr>),
         s_rule := (s_rule s)(rule := owner_rule busName)\<rparr>)) (
     gbind (watch_signal B rule (OwnerChanged i)) (\<lambda>w.
     gseq (gmodify (\<lambda>s. s\<lparr>s_info := (s_info s)(i := (s_info s i)\<lparr>ni_signal := Some w\<rparr>)\<rparr>)) (
     gseq (check_current_owner B i) (
     gret i))))))"

text \<open>
  \<open>ensureNameWatch\<close>: the information on the name, which is made when there is none, gets a watch, and
  the watch is told the owner if it is known.
\<close>

definition name_info_of :: "daemon \<Rightarrow> string \<Rightarrow> nat go" where
  "name_info_of B busName =
     gbind (gget (\<lambda>s. s_names s busName)) (\<lambda>known.
     case known of
       Some i \<Rightarrow> gret i
     | None \<Rightarrow>
         gbind (new_name_info B busName) (\<lambda>i.
         gseq (gmodify (\<lambda>s. s\<lparr>s_names := (s_names s)(busName \<mapsto> i)\<rparr>)) (gret i)))"

definition add_name_watch :: "daemon \<Rightarrow> nat \<Rightarrow> name_callback \<Rightarrow> nat go" where
  "add_name_watch B i cb =
     gbind fresh (\<lambda>nw.
     gseq (gmodify (\<lambda>s. s\<lparr>
         s_name_watch := (s_name_watch s)(nw := \<lparr>nw_info = i, nw_cb = cb\<rparr>),
         s_info := (s_info s)(i := (s_info s i)\<lparr>ni_watches := ni_watches (s_info s i) @ [nw]\<rparr>)\<rparr>)) (
     gbind (gget (\<lambda>s. ni_owner (s_info s i))) (\<lambda>owner.
     gseq (if owner \<noteq> no_owner_yet then owner_callback B cb owner else gret ()) (
     gret nw))))"

definition ensure_name_watch :: "daemon \<Rightarrow> string \<Rightarrow> name_callback \<Rightarrow> nat go" where
  "ensure_name_watch B busName cb =
     locked NameInfoMutex (
       gbind (name_info_of B busName) (\<lambda>i.
       locked (InfoLock i) (add_name_watch B i cb)))"

section \<open>Exported watches\<close>

definition watch_public :: "daemon \<Rightarrow> nat \<Rightarrow> nat go" where
  "watch_public B rule =
     gbind (gget (\<lambda>s. s_rule s rule)) (\<lambda>r.
     if r_type r \<noteq> TypeSignal then gfail (Error (ErrNew ''Match rule is not for signals''))
     else
       gbind fresh (\<lambda>p.
       gseq (gmodify (\<lambda>s. s\<lparr>s_public := (s_public s)(p := \<lparr>p_internal = None, p_name = None, p_closed = False\<rparr>)\<rparr>)) (
       locked (WatchLock p) (
         gseq
           (if r_sender r \<noteq> [] \<and> r_sender r \<noteq> bus_name then
              gbind (ensure_name_watch B (r_sender r) (FollowOwner p rule)) (\<lambda>nw.
              gmodify (\<lambda>s. s\<lparr>s_public := (s_public s)(p := (s_public s p)\<lparr>p_name := Some nw\<rparr>)\<rparr>))
            else gret ()) (
         gbind (gtry (watch_signal B rule (SendSignal p))) (\<lambda>internal.
         case internal of
           Inl err \<Rightarrow>
             gbind (gget (\<lambda>s. p_name (s_public s p))) (\<lambda>nw.
             gseq (case nw of None \<Rightarrow> gret () | Some nw \<Rightarrow> gbind (gtry (remove_name_watch B nw)) (\<lambda>_. gret ())) (
             gfail (Error err)))
         | Inr w \<Rightarrow>
             gseq (gmodify (\<lambda>s. s\<lparr>s_public := (s_public s)(p := (s_public s p)\<lparr>p_internal := Some w\<rparr>)\<rparr>)) (
             gret p)))))))"

text \<open>\<open>ObjectProxy.WatchSignal\<close> (dbus.go) makes the rule.\<close>

definition proxy_rule :: "string \<Rightarrow> string \<Rightarrow> string \<Rightarrow> string \<Rightarrow> match_rule" where
  "proxy_rule destination path iface member =
     \<lparr>r_type = TypeSignal, r_sender = destination, r_path = path, r_iface = iface, r_member = member,
      r_arg0 = [], r_owner = []\<rparr>"

definition proxy_watch_signal :: "daemon \<Rightarrow> string \<Rightarrow> string \<Rightarrow> string \<Rightarrow> string \<Rightarrow> nat go" where
  "proxy_watch_signal B destination path iface member =
     gbind fresh (\<lambda>rule.
     gseq (gmodify (\<lambda>s. s\<lparr>s_rule := (s_rule s)(rule :=
         proxy_rule destination path iface member)\<rparr>)) (
     watch_public B rule))"

text \<open>\<open>WatchName\<close> returns the watch even when it returns an error, without a name watch in it then.\<close>

definition watch_name :: "daemon \<Rightarrow> string \<Rightarrow> (nat \<times> go_error option) go" where
  "watch_name B busName =
     gbind fresh (\<lambda>n.
     gseq (gmodify (\<lambda>s. s\<lparr>s_public_name := (s_public_name s)(n :=
         \<lparr>n_watch = None, n_buffer = [], n_closed = False, n_cancelled = False\<rparr>)\<rparr>)) (
     gbind (gtry (ensure_name_watch B busName (SendOwner n))) (\<lambda>res.
     case res of
       Inl err \<Rightarrow> gret (n, Some err)
     | Inr nw \<Rightarrow>
         gseq (gmodify (\<lambda>s. s\<lparr>s_public_name := (s_public_name s)(n := (s_public_name s n)\<lparr>n_watch := Some nw\<rparr>)\<rparr>)) (
         gret (n, None)))))"

definition cancel_name :: "daemon \<Rightarrow> nat \<Rightarrow> unit go" where
  "cancel_name B n =
     locked (NameCancelLock n) (
       gbind (gget (\<lambda>s. s_public_name s n)) (\<lambda>pn.
       if n_cancelled pn then gret ()
       else case n_watch pn of
         None \<Rightarrow> gfail (Panic ''nil pointer dereference'')
       | Some nw \<Rightarrow>
           gseq (remove_name_watch B nw) (
           gmodify (\<lambda>s. s\<lparr>s_public_name := (s_public_name s)(n :=
             (s_public_name s n)\<lparr>n_closed := True, n_cancelled := True\<rparr>)\<rparr>))))"

end
