(* ===== verification/WatchSteps.thy ===== *)
theory WatchSteps
  imports Watches
begin

text \<open>
  The steps of the signal watches and of the owners of names, as functions on the state of the client:
  what each operation leaves when the bus daemon accepts its calls, field by field, and the set of watches
  as a multiset. The conditions on the locks say that the goroutine does not hold them yet.
\<close>

section \<open>Changes of owner\<close>

definition callback_ready :: "client \<Rightarrow> string \<Rightarrow> name_callback \<Rightarrow> bool" where
  "callback_ready s newOwner cb =
     (case cb of
        FollowOwner p rule \<Rightarrow> r_sender (s_rule s rule) \<noteq> [] \<and> (hd (r_sender (s_rule s rule)) = CHR '':'' \<longrightarrow> newOwner \<noteq> [])
      | SendOwner n \<Rightarrow> \<not> n_closed (s_public_name s n) \<and> n_buffer (s_public_name s n) = [])"

definition called_back :: "string \<Rightarrow> name_callback \<Rightarrow> client \<Rightarrow> client" where
  "called_back newOwner cb s =
     (case cb of
        FollowOwner p rule \<Rightarrow>
          if hd (r_sender (s_rule s rule)) = CHR '':'' then s
          else s\<lparr>s_rule := (s_rule s)(rule := (s_rule s rule)\<lparr>r_owner := newOwner\<rparr>)\<rparr>
      | SendOwner n \<Rightarrow> s\<lparr>s_public_name := (s_public_name s)(n := (s_public_name s n)\<lparr>n_buffer := [newOwner]\<rparr>)\<rparr>)"

lemma called_back_simps [simp]:
  "s_info (called_back newOwner cb s) = s_info s" "s_name_watch (called_back newOwner cb s) = s_name_watch s"
  "s_set (called_back newOwner cb s) = s_set s" "s_watch (called_back newOwner cb s) = s_watch s"
  "s_names (called_back newOwner cb s) = s_names s" "s_locks (called_back newOwner cb s) = s_locks s"
  "r_sender (s_rule (called_back newOwner cb s) rule) = r_sender (s_rule s rule)"
  by (auto simp: called_back_def split: name_callback.split)

lemma owner_callback_ready:
  "callback_ready s newOwner cb \<Longrightarrow> owner_callback B cb newOwner s = (Inr (), called_back newOwner cb s)"
  by (auto simp: callback_ready_def owner_callback_def called_back_def go_defs neq_Nil_conv split: name_callback.splits)

lemma called_back_ready:
  "callback_ready s newOwner cb' \<Longrightarrow> cb \<noteq> cb' \<Longrightarrow> callback_ready (called_back newOwner cb s) newOwner cb'"
  by (auto simp: callback_ready_def called_back_def split: name_callback.splits)

lemma owner_callbacks_ready:
  assumes "distinct (map (\<lambda>nw. nw_cb (s_name_watch s nw)) nws)"
    and "\<forall>nw \<in> set nws. callback_ready s (ni_owner (s_info s i)) (nw_cb (s_name_watch s nw))"
  shows "owner_callbacks B i nws s =
    (Inr (), fold (\<lambda>nw. called_back (ni_owner (s_info s i)) (nw_cb (s_name_watch s nw))) nws s)"
  using assms
proof (induction nws arbitrary: s)
  case (Cons nw nws)
  let ?o = "ni_owner (s_info s i)" and ?s = "called_back (ni_owner (s_info s i)) (nw_cb (s_name_watch s nw)) s"
  have "callback_ready ?s ?o (nw_cb (s_name_watch s nw'))" if "nw' \<in> set nws" for nw'
    using Cons.prems that by (intro called_back_ready) force+
  then have "owner_callbacks B i nws ?s = (Inr (), fold (\<lambda>nw. called_back ?o (nw_cb (s_name_watch s nw))) nws ?s)"
    using Cons.IH [of ?s] Cons.prems(1) by simp
  then show ?case
    using Cons.prems(2) by (simp add: go_defs owner_callback_ready)
qed (simp add: go_defs)

lemma called_back_stores:
  "s_rule (called_back newOwner cb s) rule =
     (if (\<exists>p. cb = FollowOwner p rule) \<and> hd (r_sender (s_rule s rule)) \<noteq> CHR '':''
      then (s_rule s rule)\<lparr>r_owner := newOwner\<rparr> else s_rule s rule)"
  "s_public_name (called_back newOwner cb s) n =
     (if cb = SendOwner n then (s_public_name s n)\<lparr>n_buffer := [newOwner]\<rparr> else s_public_name s n)"
  by (auto simp: called_back_def split: name_callback.split)

lemma fold_called_back [simp]:
  fixes cb :: "nat \<Rightarrow> name_callback"
  shows "s_info (fold (\<lambda>nw. called_back newOwner (cb nw)) nws s) = s_info s"
    "s_name_watch (fold (\<lambda>nw. called_back newOwner (cb nw)) nws s) = s_name_watch s"
    "s_set (fold (\<lambda>nw. called_back newOwner (cb nw)) nws s) = s_set s"
    "s_watch (fold (\<lambda>nw. called_back newOwner (cb nw)) nws s) = s_watch s"
    "s_locks (fold (\<lambda>nw. called_back newOwner (cb nw)) nws s) = s_locks s"
  by (induction nws arbitrary: s) simp_all

lemma fold_called_back_rule:
  "s_rule (fold (\<lambda>nw. called_back newOwner (cb nw)) nws s) rule =
     (if (\<exists>p nw. nw \<in> set nws \<and> cb nw = FollowOwner p rule) \<and> hd (r_sender (s_rule s rule)) \<noteq> CHR '':''
      then (s_rule s rule)\<lparr>r_owner := newOwner\<rparr> else s_rule s rule)"
proof (induction nws arbitrary: s)
  case (Cons nw nws)
  show ?case by (auto simp: Cons.IH called_back_stores)
qed simp

lemma fold_called_back_name:
  "s_public_name (fold (\<lambda>nw. called_back newOwner (cb nw)) nws s) n =
     (if \<exists>nw \<in> set nws. cb nw = SendOwner n
      then (s_public_name s n)\<lparr>n_buffer := [newOwner]\<rparr> else s_public_name s n)"
proof (induction nws arbitrary: s)
  case (Cons nw nws)
  show ?case by (auto simp: Cons.IH called_back_stores)
qed simp

section \<open>States after the steps of a watch\<close>

lemma locked_held [simp]: "l \<in> s_locks s \<Longrightarrow> locked l m s = (Inl (Blocked ''sync.Mutex.Lock''), s)"
  by (simp add: locked_def)

lemma locked_Inr: "l \<notin> s_locks s \<Longrightarrow> m (s\<lparr>s_locks := insert l (s_locks s)\<rparr>) = (Inr x, s') \<Longrightarrow>
    locked l m s = (Inr x, s'\<lparr>s_locks := s_locks s' - {l}\<rparr>)"
  by (simp add: locked_def)

lemma locked_Blocked: "l \<notin> s_locks s \<Longrightarrow> m (s\<lparr>s_locks := insert l (s_locks s)\<rparr>) = (Inl (Blocked b), s') \<Longrightarrow>
    locked l m s = (Inl (Blocked b), s')"
  by (simp add: locked_def)

lemma rules_of_update [simp]:
  "rules_of (s\<lparr>s_fresh := a\<rparr>) = rules_of s" "rules_of (s\<lparr>s_set := b\<rparr>) = rules_of s"
  "rules_of (s\<lparr>s_names := c\<rparr>) = rules_of s" "rules_of (s\<lparr>s_info := d\<rparr>) = rules_of s"
  "rules_of (s\<lparr>s_name_watch := f\<rparr>) = rules_of s" "rules_of (s\<lparr>s_public := g\<rparr>) = rules_of s"
  "rules_of (s\<lparr>s_public_name := h\<rparr>) = rules_of s" "rules_of (s\<lparr>s_locks := l\<rparr>) = rules_of s"
  by (simp_all add: rules_of_def)

definition signal_watched :: "nat \<Rightarrow> signal_callback \<Rightarrow> client \<Rightarrow> client" where
  "signal_watched rule cb s =
     (let w = s_fresh s; s1 = s\<lparr>s_fresh := w + 1,
         s_watch := (s_watch s)(w := \<lparr>w_rule = rule, w_cb = cb, w_cancelled = False\<rparr>)\<rparr>
      in s1\<lparr>s_set := ws_add (rules_of s1) w (s_set s)\<rparr>)"

lemma signal_watched_simps [simp]:
  "s_fresh (signal_watched rule cb s) = s_fresh s + 1" "s_rule (signal_watched rule cb s) = s_rule s"
  "s_watch (signal_watched rule cb s) = (s_watch s)(s_fresh s := \<lparr>w_rule = rule, w_cb = cb, w_cancelled = False\<rparr>)"
  "s_set (signal_watched rule cb s) = ws_add (rules_of (signal_watched rule cb s)) (s_fresh s) (s_set s)"
  "s_names (signal_watched rule cb s) = s_names s" "s_info (signal_watched rule cb s) = s_info s"
  "s_name_watch (signal_watched rule cb s) = s_name_watch s" "s_public (signal_watched rule cb s) = s_public s"
  "s_public_name (signal_watched rule cb s) = s_public_name s" "s_locks (signal_watched rule cb s) = s_locks s"
  by (simp_all add: signal_watched_def Let_def)

lemma watch_signal_ok:
  assumes "r_type (s_rule s rule) = TypeSignal" and "HandlerMutex \<notin> s_locks s"
    and "b_add_match B (rule_string (s_rule s rule)) = Inr ()"
  shows "watch_signal B rule cb s = (Inr (s_fresh s), signal_watched rule cb s)"
  using assms by (simp add: watch_signal_def set_add_def locked_def fresh_def go_defs Let_def signal_watched_def)

text \<open>A name that was not known: what \<open>newNameInfo\<close> leaves, when no owner arrives meanwhile.\<close>

definition current_owner :: "daemon \<Rightarrow> string \<Rightarrow> string" where
  "current_owner B name = (case b_get_name_owner B name of Inr owner \<Rightarrow> owner | Inl err \<Rightarrow> [])"

definition name_known :: "daemon \<Rightarrow> string \<Rightarrow> client \<Rightarrow> client" where
  "name_known B name s =
     (let i = s_fresh s;
        s1 = signal_watched (i + 1) (OwnerChanged i) (s\<lparr>s_fresh := i + 2, s_rule := (s_rule s)(i + 1 := owner_rule name)\<rparr>)
      in s1\<lparr>s_info := (s_info s)(i := \<lparr>ni_name = name, ni_signal = Some (i + 2), ni_owner = current_owner B name,
           ni_watches = []\<rparr>), s_names := (s_names s)(name \<mapsto> i)\<rparr>)"

lemma name_known_simps [simp]:
  "s_fresh (name_known B name s) = s_fresh s + 3"
  "s_rule (name_known B name s) = (s_rule s)(s_fresh s + 1 := owner_rule name)"
  "s_watch (name_known B name s) = (s_watch s)(s_fresh s + 2 :=
     \<lparr>w_rule = s_fresh s + 1, w_cb = OwnerChanged (s_fresh s), w_cancelled = False\<rparr>)"
  "s_set (name_known B name s) = ws_add (rules_of (name_known B name s)) (s_fresh s + 2) (s_set s)"
  "s_names (name_known B name s) = (s_names s)(name \<mapsto> s_fresh s)"
  "s_info (name_known B name s) = (s_info s)(s_fresh s := \<lparr>ni_name = name, ni_signal = Some (s_fresh s + 2),
     ni_owner = current_owner B name, ni_watches = []\<rparr>)"
  "s_name_watch (name_known B name s) = s_name_watch s" "s_public (name_known B name s) = s_public s"
  "s_public_name (name_known B name s) = s_public_name s" "s_locks (name_known B name s) = s_locks s"
  by (simp_all add: name_known_def Let_def)

lemma name_info_of_known: "s_names s name = Some i \<Longrightarrow> name_info_of B name s = (Inr i, s)"
  by (simp add: name_info_of_def go_defs)

lemma name_info_of_unknown:
  assumes "HandlerMutex \<notin> s_locks s" and "InfoLock (s_fresh s) \<notin> s_locks s" and "s_names s name = None"
    and "b_add_match B (rule_string (owner_rule name)) = Inr ()" and "b_meanwhile B name = []"
  shows "name_info_of B name s = (Inr (s_fresh s), name_known B name s)"
proof -
  let ?s = "s\<lparr>s_fresh := s_fresh s + 2, s_info := (s_info s)(s_fresh s := \<lparr>ni_name = name, ni_signal = None,
      ni_owner = no_owner_yet, ni_watches = []\<rparr>), s_rule := (s_rule s)(s_fresh s + 1 := owner_rule name)\<rparr>"
  have "watch_signal B (s_fresh s + 1) (OwnerChanged (s_fresh s)) ?s =
      (Inr (s_fresh s + 2), signal_watched (s_fresh s + 1) (OwnerChanged (s_fresh s)) ?s)"
    by (subst watch_signal_ok) (use assms in \<open>simp_all add: owner_rule_def\<close>)
  then show ?thesis
    using assms
    by (simp add: name_info_of_def new_name_info_def fresh_def go_defs check_current_owner_def
        handle_owner_change_def set_owner_def locked_def insert_Diff_if current_owner_def [symmetric])
      (simp add: name_known_def signal_watched_def Let_def rules_of_def)
qed

section \<open>The set of watches of a client\<close>

abbreviation contents :: "client \<Rightarrow> watch multiset" where
  "contents s \<equiv> ws_contents (rules_of s) (s_set s)"

definition set_ok :: "client \<Rightarrow> bool" where
  "set_ok s \<longleftrightarrow> ws_inv (rules_of s) (s_set s) \<and>
     (\<forall>w \<in># contents s. w < s_fresh s \<and> w_rule (s_watch s w) < s_fresh s)"

lemma ws_at_contents:
  assumes "finite (ws_keys self)" and "w \<in> set (ws_at self p i m)"
  shows "w \<in># ws_contents rules self"
proof -
  have "(p, i, m) \<in> ws_keys self" using assms(2) by (auto simp: ws_keys_def)
  then show ?thesis
    using assms by (force simp: ws_contents_def set_mset_sum)
qed

lemma ws_inv_cong:
  assumes "ws_inv rules self"
    and "\<And>w. w \<in># ws_contents rules self \<Longrightarrow> r_path (rules' w) = r_path (rules w) \<and>
      r_iface (rules' w) = r_iface (rules w) \<and> r_member (rules' w) = r_member (rules w)"
  shows "ws_inv rules' self"
  using assms ws_at_contents [of self _ _ _ _ rules] unfolding ws_inv_def by metis

lemma set_ok_same:
  assumes "set_ok s" and "s_set s' = s_set s" and "s_fresh s \<le> s_fresh s'"
    and "\<And>w. w < s_fresh s \<Longrightarrow> w_rule (s_watch s' w) = w_rule (s_watch s w)"
    and "\<And>r. r < s_fresh s \<Longrightarrow> r_path (s_rule s' r) = r_path (s_rule s r) \<and>
      r_iface (s_rule s' r) = r_iface (s_rule s r) \<and> r_member (s_rule s' r) = r_member (s_rule s r)"
  shows "set_ok s'" and "contents s' = contents s"
proof -
  show c: "contents s' = contents s" by (simp add: ws_contents_def assms(2))
  have "ws_inv (rules_of s') (s_set s)"
  proof (rule ws_inv_cong)
    show "ws_inv (rules_of s) (s_set s)" using assms(1) by (simp add: set_ok_def)
    fix w assume "w \<in># contents s"
    then have "w < s_fresh s" "w_rule (s_watch s w) < s_fresh s" using assms(1) by (auto simp: set_ok_def)
    with assms(4) [of w] assms(5) [of "w_rule (s_watch s w)"]
    show "r_path (rules_of s' w) = r_path (rules_of s w) \<and> r_iface (rules_of s' w) = r_iface (rules_of s w) \<and>
        r_member (rules_of s' w) = r_member (rules_of s w)"
      by (simp add: rules_of_def)
  qed
  moreover have "w < s_fresh s' \<and> w_rule (s_watch s' w) < s_fresh s'" if "w \<in># contents s'" for w
    using that assms(1,3) assms(4) [of w] unfolding c set_ok_def by fastforce
  ultimately show "set_ok s'" unfolding set_ok_def assms(2) by blast
qed

lemma set_ok_signal_watched:
  assumes "set_ok s" and "rule < s_fresh s"
  shows "set_ok (signal_watched rule cb s)"
    and "contents (signal_watched rule cb s) = add_mset (s_fresh s) (contents s)"
proof -
  let ?s = "(signal_watched rule cb s)\<lparr>s_set := s_set s\<rparr>"
  have ok: "set_ok ?s" "contents ?s = contents s"
    by (rule set_ok_same [OF assms(1)]; simp)+
  then have inv: "ws_inv (rules_of (signal_watched rule cb s)) (s_set s)"
    by (simp add: set_ok_def)
  show c: "contents (signal_watched rule cb s) = add_mset (s_fresh s) (contents s)"
    using watches.contents_add [OF inv] ok(2) by simp
  show "set_ok (signal_watched rule cb s)"
    using watches.inv_add [OF inv] assms c by (auto simp: set_ok_def)
qed

definition signal_cancelled :: "watch \<Rightarrow> client \<Rightarrow> client" where
  "signal_cancelled w s = s\<lparr>s_set := snd (ws_remove (rules_of s) w (s_set s)),
     s_watch := (s_watch s)(w := (s_watch s w)\<lparr>w_cancelled := True\<rparr>)\<rparr>"

lemma signal_cancelled_simps [simp]:
  "s_fresh (signal_cancelled w s) = s_fresh s" "s_rule (signal_cancelled w s) = s_rule s"
  "s_names (signal_cancelled w s) = s_names s" "s_info (signal_cancelled w s) = s_info s"
  "s_name_watch (signal_cancelled w s) = s_name_watch s" "s_public (signal_cancelled w s) = s_public s"
  "s_public_name (signal_cancelled w s) = s_public_name s" "s_locks (signal_cancelled w s) = s_locks s"
  "s_watch (signal_cancelled w s) = (s_watch s)(w := (s_watch s w)\<lparr>w_cancelled := True\<rparr>)"
  by (simp_all add: signal_cancelled_def)

lemma cancel_watch_ok:
  assumes "CancelLock w \<notin> s_locks s" and "HandlerMutex \<notin> s_locks s" and "\<not> w_cancelled (s_watch s w)"
    and "b_remove_match B (rule_string (s_rule s (w_rule (s_watch s w)))) = Inr ()"
  shows "cancel_watch B w s = (Inr (), signal_cancelled w s)"
  using assms
  by (simp add: cancel_watch_def set_remove_def locked_def go_defs signal_cancelled_def rules_of_def insert_Diff_if
      split: prod.split)

lemma set_ok_signal_cancelled:
  assumes "set_ok s"
  shows "set_ok (signal_cancelled w s)" and "contents (signal_cancelled w s) = contents s - {#w#}"
proof -
  have inv: "ws_inv (rules_of s) (s_set s)" using assms by (simp add: set_ok_def)
  have same: "rules_of (signal_cancelled w s) = rules_of s" by (auto simp: rules_of_def)
  show c: "contents (signal_cancelled w s) = contents s - {#w#}"
    unfolding same using watches.contents_remove [OF inv] by (simp add: signal_cancelled_def)
  show "set_ok (signal_cancelled w s)"
    using assms c watches.inv_remove [OF inv] same
    by (auto simp: set_ok_def signal_cancelled_def dest: in_diffD)
qed

lemma remove_swap_last: "x \<notin> set ws \<Longrightarrow> remove_swap x (ws @ [x]) = Some ws"
  by (simp add: remove_swap_def index_of_append)

lemma cancel_public_ok:
  assumes "s_locks s = {}" and "p_internal (s_public s p) = Some w"
    and "s1 = s\<lparr>s_locks := {WatchLock p}\<rparr>"
    and "case p_name (s_public s p) of None \<Rightarrow> s2 = s1 | Some nw \<Rightarrow> remove_name_watch B nw s1 = (Inr (), s2)"
    and "s_locks s2 = s_locks s1" and "\<not> w_cancelled (s_watch s2 w)"
    and "\<And>x. b_remove_match B x = Inr ()"
  shows "cancel_public B p s = (Inr (), signal_cancelled w s2\<lparr>s_locks := {},
     s_public := (s_public s2)(p := (s_public s p)\<lparr>p_internal := None, p_closed := True\<rparr>)\<rparr>)"
proof -
  have "cancel_watch B w s2 = (Inr (), signal_cancelled w s2)"
    using assms(3,5-7) by (intro cancel_watch_ok) auto
  then show ?thesis
    using assms(1-5) by (auto simp: cancel_public_def locked_def go_defs split: option.splits)
qed

text \<open>A watch of a name that is not its last one, and one that is.\<close>

lemma remove_name_watch_other:
  assumes "s_locks s \<inter> {NameInfoMutex, InfoLock i} = {}" and "nw_info (s_name_watch s nw) = i"
    and "ni_watches (s_info s i) = ws @ [nw]" and "nw \<notin> set ws" and "ws \<noteq> []"
  shows "remove_name_watch B nw s = (Inr (), s\<lparr>s_info := (s_info s)(i := (s_info s i)\<lparr>ni_watches := ws\<rparr>)\<rparr>)"
  using assms by (simp add: remove_name_watch_def drop_name_watch_def forget_name_def locked_def go_defs remove_swap_last insert_Diff_if)

lemma remove_name_watch_last:
  assumes "s_locks s \<inter> {NameInfoMutex, InfoLock i, HandlerMutex, CancelLock w} = {}" and "nw_info (s_name_watch s nw) = i"
    and "ni_watches (s_info s i) = [nw]"
    and "ni_signal (s_info s i) = Some w" and "\<not> w_cancelled (s_watch s w)" and "\<And>x. b_remove_match B x = Inr ()"
  shows "remove_name_watch B nw s = (Inr (),
    signal_cancelled w (s\<lparr>s_info := (s_info s)(i := (s_info s i)\<lparr>ni_watches := []\<rparr>),
      s_names := (s_names s)(ni_name (s_info s i) := None)\<rparr>))"
proof -
  let ?s = "s\<lparr>s_locks := insert (InfoLock i) (insert NameInfoMutex (s_locks s)),
      s_info := (s_info s)(i := (s_info s i)\<lparr>ni_watches := []\<rparr>), s_names := (s_names s)(ni_name (s_info s i) := None)\<rparr>"
  have "cancel_watch B w ?s = (Inr (), signal_cancelled w ?s)"
    using assms by (intro cancel_watch_ok) auto
  then show ?thesis
    using assms remove_swap_last [of nw "[]"]
    by (simp add: remove_name_watch_def drop_name_watch_def forget_name_def locked_def go_defs insert_Diff_if) (simp add: signal_cancelled_def rules_of_def)
qed

section \<open>Watching and cancelling\<close>

definition name_watched :: "nat \<Rightarrow> name_callback \<Rightarrow> client \<Rightarrow> client" where
  "name_watched i cb s =
     (let nw = s_fresh s; owner = ni_owner (s_info s i);
        s1 = s\<lparr>s_fresh := nw + 1, s_name_watch := (s_name_watch s)(nw := \<lparr>nw_info = i, nw_cb = cb\<rparr>),
          s_info := (s_info s)(i := (s_info s i)\<lparr>ni_watches := ni_watches (s_info s i) @ [nw]\<rparr>)\<rparr>
      in if owner \<noteq> no_owner_yet then called_back owner cb s1 else s1)"

lemma called_back_more [simp]:
  "s_fresh (called_back newOwner cb s) = s_fresh s" "s_public (called_back newOwner cb s) = s_public s"
  "r_path (s_rule (called_back newOwner cb s) rule) = r_path (s_rule s rule)"
  "r_iface (s_rule (called_back newOwner cb s) rule) = r_iface (s_rule s rule)"
  "r_member (s_rule (called_back newOwner cb s) rule) = r_member (s_rule s rule)"
  "r_type (s_rule (called_back newOwner cb s) rule) = r_type (s_rule s rule)"
  "r_arg0 (s_rule (called_back newOwner cb s) rule) = r_arg0 (s_rule s rule)"
  by (auto simp: called_back_def split: name_callback.split)

lemma name_watched_simps [simp]:
  "s_fresh (name_watched i cb s) = s_fresh s + 1" "s_watch (name_watched i cb s) = s_watch s"
  "s_set (name_watched i cb s) = s_set s" "s_names (name_watched i cb s) = s_names s"
  "s_info (name_watched i cb s) =
     (s_info s)(i := (s_info s i)\<lparr>ni_watches := ni_watches (s_info s i) @ [s_fresh s]\<rparr>)"
  "s_name_watch (name_watched i cb s) = (s_name_watch s)(s_fresh s := \<lparr>nw_info = i, nw_cb = cb\<rparr>)"
  "s_public (name_watched i cb s) = s_public s" "s_locks (name_watched i cb s) = s_locks s"
  "r_path (s_rule (name_watched i cb s) rule) = r_path (s_rule s rule)"
  "r_iface (s_rule (name_watched i cb s) rule) = r_iface (s_rule s rule)"
  "r_member (s_rule (name_watched i cb s) rule) = r_member (s_rule s rule)"
  "r_type (s_rule (name_watched i cb s) rule) = r_type (s_rule s rule)"
  "r_sender (s_rule (name_watched i cb s) rule) = r_sender (s_rule s rule)"
  "r_arg0 (s_rule (name_watched i cb s) rule) = r_arg0 (s_rule s rule)"
  by (simp_all add: name_watched_def Let_def)

lemma with_locks [simp]:
  "called_back newOwner cb (s\<lparr>s_locks := L\<rparr>) = (called_back newOwner cb s)\<lparr>s_locks := L\<rparr>"
  "name_watched i cb (s\<lparr>s_locks := L\<rparr>) = (name_watched i cb s)\<lparr>s_locks := L\<rparr>"
  "signal_watched rule scb (s\<lparr>s_locks := L\<rparr>) = (signal_watched rule scb s)\<lparr>s_locks := L\<rparr>"
  "name_known B name (s\<lparr>s_locks := L\<rparr>) = (name_known B name s)\<lparr>s_locks := L\<rparr>"
  by (simp_all add: called_back_def name_watched_def signal_watched_def name_known_def Let_def rules_of_def
      split: name_callback.split)

lemma callback_ready_same:
  assumes "\<And>r. r_sender (s_rule s' r) = r_sender (s_rule s r)" and "s_public_name s' = s_public_name s"
  shows "callback_ready s' newOwner cb = callback_ready s newOwner cb"
  using assms by (simp add: callback_ready_def split: name_callback.split)

lemma add_name_watch_ok:
  assumes "callback_ready s (ni_owner (s_info s i)) cb"
  shows "add_name_watch B i cb s = (Inr (s_fresh s), name_watched i cb s)"
proof -
  let ?s = "s\<lparr>s_fresh := s_fresh s + 1, s_name_watch := (s_name_watch s)(s_fresh s := \<lparr>nw_info = i, nw_cb = cb\<rparr>),
          s_info := (s_info s)(i := (s_info s i)\<lparr>ni_watches := ni_watches (s_info s i) @ [s_fresh s]\<rparr>)\<rparr>"
  have "owner_callback B cb (ni_owner (s_info s i)) ?s = (Inr (), called_back (ni_owner (s_info s i)) cb ?s)"
    using assms callback_ready_same [of ?s s] by (intro owner_callback_ready) simp
  then show ?thesis
    by (simp add: add_name_watch_def fresh_def go_defs name_watched_def Let_def)
qed

text \<open>The information on a name that a watch of it gets, and the state with it.\<close>

definition info_at :: "daemon \<Rightarrow> string \<Rightarrow> client \<Rightarrow> nat \<Rightarrow> client \<Rightarrow> bool" where
  "info_at B name s i s1 \<longleftrightarrow>
     (s_names s name = Some i \<and> s1 = s) \<or>
     (s_names s name = None \<and> i = s_fresh s \<and> s1 = name_known B name s)"

lemma ensure_name_watch_ok:
  assumes "s_locks s \<inter> {NameInfoMutex, HandlerMutex, InfoLock i} = {}" and "info_at B name s i s1"
    and "callback_ready s1 (ni_owner (s_info s1 i)) cb"
    and "\<And>x. b_add_match B x = Inr ()" and "b_meanwhile B name = []"
  shows "ensure_name_watch B name cb s = (Inr (s_fresh s1), name_watched i cb s1)"
proof -
  let ?L = "insert NameInfoMutex (s_locks s)"
  have L: "s_locks s1 = s_locks s" using assms(2) by (auto simp: info_at_def)
  have "name_info_of B name (s\<lparr>s_locks := ?L\<rparr>) = (Inr i, s1\<lparr>s_locks := ?L\<rparr>)"
    using assms(1,2,4,5) unfolding info_at_def
    by (auto simp: name_info_of_known name_info_of_unknown)
  moreover have "add_name_watch B i cb (s1\<lparr>s_locks := insert (InfoLock i) ?L\<rparr>) =
      (Inr (s_fresh s1), (name_watched i cb s1)\<lparr>s_locks := insert (InfoLock i) ?L\<rparr>)"
    using add_name_watch_ok [of "s1\<lparr>s_locks := insert (InfoLock i) ?L\<rparr>" i cb B] assms(3)
      callback_ready_same [of "s1\<lparr>s_locks := insert (InfoLock i) ?L\<rparr>" s1] by simp
  ultimately show ?thesis
    using assms(1) by (simp add: ensure_name_watch_def locked_def go_defs insert_Diff_if L)
qed


definition watch_made :: "nat \<Rightarrow> nat \<Rightarrow> client \<Rightarrow> client" where
  "watch_made p rule s =
     (signal_watched rule (SendSignal p) s)\<lparr>
       s_public := (s_public s)(p := (s_public s p)\<lparr>p_internal := Some (s_fresh s)\<rparr>), s_locks := {}\<rparr>"

lemma watch_public_ok:
  assumes "s_locks s = {}" and "r_type (s_rule s rule) = TypeSignal" and "\<And>x. b_add_match B x = Inr ()"
    and "p = s_fresh s"
    and "s1 = s\<lparr>s_fresh := p + 1, s_public := (s_public s)(p := \<lparr>p_internal = None, p_name = None, p_closed = False\<rparr>),
      s_locks := {WatchLock p}\<rparr>"
    and "if r_sender (s_rule s rule) = [] \<or> r_sender (s_rule s rule) = bus_name then s3 = s1
      else ensure_name_watch B (r_sender (s_rule s rule)) (FollowOwner p rule) s1 = (Inr nw, s2) \<and>
        s3 = s2\<lparr>s_public := (s_public s2)(p := (s_public s2 p)\<lparr>p_name := Some nw\<rparr>)\<rparr>"
    and "s_locks s3 = {WatchLock p}" and "r_type (s_rule s3 rule) = TypeSignal"
  shows "watch_public B rule s = (Inr p, watch_made p rule s3)"
proof -
  have "watch_signal B rule (SendSignal p) s3 = (Inr (s_fresh s3), signal_watched rule (SendSignal p) s3)"
    using assms(3,7,8) by (intro watch_signal_ok) auto
  then show ?thesis
    using assms(1,2,4-7)
    by (auto simp: watch_public_def fresh_def locked_def go_defs watch_made_def split: if_splits)
qed

end
