(* ===== verification/Owners.thy ===== *)
theory Owners
  imports WatchSteps
begin

text \<open>
  What the watches of names do for the watches of signals: a change of owner reaches every watch; a
  cancelled watch leaves nothing behind; and the lock that is taken twice when a unique name is lost.
\<close>

section \<open>Changes of owner\<close>



text \<open>A client without watches.\<close>

definition no_client :: client where
  "no_client = \<lparr>s_fresh = 0, s_rule = (\<lambda>_. owner_rule []), s_set = Map.empty,
     s_watch = (\<lambda>_. \<lparr>w_rule = 0, w_cb = SendSignal 0, w_cancelled = False\<rparr>), s_names = Map.empty,
     s_info = (\<lambda>_. \<lparr>ni_name = [], ni_signal = None, ni_owner = [], ni_watches = []\<rparr>),
     s_name_watch = (\<lambda>_. \<lparr>nw_info = 0, nw_cb = SendOwner 0\<rparr>),
     s_public = (\<lambda>_. \<lparr>p_internal = None, p_name = None, p_closed = False\<rparr>),
     s_public_name = (\<lambda>_. \<lparr>n_watch = None, n_buffer = [], n_closed = False, n_cancelled = False\<rparr>), s_locks = {}\<rparr>"

text \<open>A daemon that accepts all rules and knows one owner of every name.\<close>

definition friendly :: "string \<Rightarrow> daemon" where
  "friendly owner = \<lparr>b_add_match = (\<lambda>_. Inr ()), b_remove_match = (\<lambda>_. Inr ()), b_get_name_owner = (\<lambda>_. Inr owner),
     b_request_name = (\<lambda>_ _. Inr 1), b_release_name = (\<lambda>_. Inr 1), b_meanwhile = (\<lambda>_. [])\<rparr>"


section \<open>Watching and cancelling\<close>

definition client_ok :: "client \<Rightarrow> bool" where
  "client_ok s \<longleftrightarrow> set_ok s \<and> s_locks s = {} \<and>
     (\<forall>name i. s_names s name = Some i \<longrightarrow> i < s_fresh s \<and> ni_name (s_info s i) = name \<and>
        ni_watches (s_info s i) \<noteq> [] \<and> (\<forall>nw \<in> set (ni_watches (s_info s i)). nw < s_fresh s))"

definition owner_of :: "daemon \<Rightarrow> client \<Rightarrow> string \<Rightarrow> string" where
  "owner_of B s name = (case s_names s name of Some i \<Rightarrow> ni_owner (s_info s i) | None \<Rightarrow> current_owner B name)"

lemma set_ok_made:
  assumes "set_ok s" and "rule < s_fresh s" and "s' = watch_made p rule s \<or> s' = (watch_made p rule s)\<lparr>s_locks := L\<rparr>"
  shows "set_ok s'" and "contents s' = add_mset (s_fresh s) (contents s)"
proof -
  note w = set_ok_signal_watched [OF assms(1,2), of "SendSignal p"]
  show "set_ok s'"
    by (rule set_ok_same [OF w(1)]; use assms(3) in \<open>auto simp: watch_made_def\<close>)
  have "contents s' = contents (signal_watched rule (SendSignal p) s)"
    by (rule set_ok_same [OF w(1)]; use assms(3) in \<open>auto simp: watch_made_def\<close>)
  then show "contents s' = add_mset (s_fresh s) (contents s)" using w(2) by simp
qed

lemma set_ok_cancelled:
  assumes "set_ok s" and "s' = (signal_cancelled w s)\<lparr>s_locks := L, s_public := P\<rparr>"
  shows "set_ok s'" and "contents s' = contents s - {#w#}"
proof -
  note w = set_ok_signal_cancelled [OF assms(1), of w]
  show "set_ok s'" by (rule set_ok_same [OF w(1)]; use assms(2) in simp)
  have "contents s' = contents (signal_cancelled w s)" by (rule set_ok_same [OF w(1)]; use assms(2) in simp)
  then show "contents s' = contents s - {#w#}" using w(2) by simp
qed

lemma set_ok_name_known:
  assumes "set_ok s"
  shows "set_ok (name_known B name s)" and "contents (name_known B name s) = add_mset (s_fresh s + 2) (contents s)"
proof -
  let ?s = "s\<lparr>s_fresh := s_fresh s + 2, s_rule := (s_rule s)(s_fresh s + 1 := owner_rule name)\<rparr>"
  have *: "set_ok ?s" "contents ?s = contents s" by (rule set_ok_same [OF assms]; simp)+
  note w = set_ok_signal_watched [OF *(1), of "s_fresh s + 1" "OwnerChanged (s_fresh s)"]
  show "set_ok (name_known B name s)"
    by (rule set_ok_same [OF w(1)]) (simp_all add: name_known_def Let_def)
  have "contents (name_known B name s) = contents (signal_watched (s_fresh s + 1) (OwnerChanged (s_fresh s)) ?s)"
    by (rule set_ok_same [OF w(1)]) (simp_all add: name_known_def Let_def)
  then show "contents (name_known B name s) = add_mset (s_fresh s + 2) (contents s)" using w(2) *(2) by simp
qed

lemma client_ok_same:
  assumes "client_ok s" and "set_ok s'" and "s_locks s' = {}" and "s_names s' = s_names s"
    and "\<And>name i. s_names s name = Some i \<Longrightarrow> s_info s' i = s_info s i" and "s_fresh s \<le> s_fresh s'"
  shows "client_ok s'"
proof -
  have "i < s_fresh s' \<and> ni_name (s_info s' i) = name \<and> ni_watches (s_info s' i) \<noteq> [] \<and>
      (\<forall>nw \<in> set (ni_watches (s_info s' i)). nw < s_fresh s')" if "s_names s' name = Some i" for name i
  proof -
    have n: "s_names s name = Some i" using that assms(4) by simp
    show ?thesis using assms(1,6) n assms(5) [OF n] unfolding client_ok_def by fastforce
  qed
  then show ?thesis using assms(2,3) unfolding client_ok_def by blast
qed

text \<open>
  \<open>restored s p w s'\<close>: but for the watch \<open>w\<close> the state is as in \<open>s\<close> again, in the middle of the
  cancelling of \<open>p\<close>.
\<close>

definition restored :: "client \<Rightarrow> nat \<Rightarrow> watch \<Rightarrow> client \<Rightarrow> bool" where
  "restored s p w s' \<longleftrightarrow> s_locks s' = {WatchLock p} \<and> \<not> w_cancelled (s_watch s' w) \<and> set_ok s' \<and>
     contents s' = add_mset w (contents s) \<and> s_names s' = s_names s \<and> s_fresh s \<le> s_fresh s' \<and>
     (\<forall>name i. s_names s name = Some i \<longrightarrow> s_info s' i = s_info s i)"

lemma cancel_made:
  assumes "client_ok s" and "restored s p w s5" and "p_internal (s_public m p) = Some w" and "s_locks m = {}"
    and "m' = m\<lparr>s_locks := {WatchLock p}\<rparr>"
    and "case p_name (s_public m p) of None \<Rightarrow> s5 = m' | Some nw \<Rightarrow> remove_name_watch B nw m' = (Inr (), s5)"
    and "\<And>x. b_remove_match B x = Inr ()"
  shows "\<exists>s2. cancel_public B p m = (Inr (), s2) \<and> client_ok s2 \<and> contents s2 = contents s \<and> s_names s2 = s_names s \<and>
    (\<forall>name i. s_names s name = Some i \<longrightarrow> s_info s2 i = s_info s i) \<and> p_closed (s_public s2 p)"
proof -
  define s2 where "s2 = signal_cancelled w s5\<lparr>s_locks := {},
      s_public := (s_public s5)(p := (s_public m p)\<lparr>p_internal := None, p_closed := True\<rparr>)\<rparr>"
  note r = assms(2) [unfolded restored_def]
  have "cancel_public B p m = (Inr (), s2)"
    unfolding s2_def using r assms(3-6) by (intro cancel_public_ok [OF _ _ assms(5) _ _ _ assms(7)]) simp_all
  moreover have ok: "set_ok s2" "contents s2 = contents s"
    using set_ok_cancelled [OF _ s2_def] r by auto
  moreover have "client_ok s2"
    by (rule client_ok_same [OF assms(1) ok(1)]) (use r in \<open>simp_all add: s2_def\<close>)
  ultimately show ?thesis using r by (intro exI [of _ s2]) (simp add: s2_def)
qed

text \<open>The state of a watch with a name watch, and the removal of the name watch from it.\<close>

definition with_name_watch :: "nat \<Rightarrow> nat \<Rightarrow> nat \<Rightarrow> client \<Rightarrow> client" where
  "with_name_watch p rule i s =
     (name_watched i (FollowOwner p rule) s)\<lparr>s_public := (s_public s)(p := (s_public s p)\<lparr>p_name := Some (s_fresh s)\<rparr>)\<rparr>"

lemma with_name_watch_simps [simp]:
  "s_fresh (with_name_watch p rule i s) = s_fresh s + 1" "s_watch (with_name_watch p rule i s) = s_watch s"
  "s_set (with_name_watch p rule i s) = s_set s" "s_names (with_name_watch p rule i s) = s_names s"
  "s_info (with_name_watch p rule i s) =
     (s_info s)(i := (s_info s i)\<lparr>ni_watches := ni_watches (s_info s i) @ [s_fresh s]\<rparr>)"
  "s_name_watch (with_name_watch p rule i s) =
     (s_name_watch s)(s_fresh s := \<lparr>nw_info = i, nw_cb = FollowOwner p rule\<rparr>)"
  "s_public (with_name_watch p rule i s) = (s_public s)(p := (s_public s p)\<lparr>p_name := Some (s_fresh s)\<rparr>)"
  "s_locks (with_name_watch p rule i s) = s_locks s"
  "r_type (s_rule (with_name_watch p rule i s) r) = r_type (s_rule s r)"
  by (simp_all add: with_name_watch_def)

lemma set_ok_with_name_watch:
  assumes "set_ok s"
  shows "set_ok (with_name_watch p rule i s)" and "contents (with_name_watch p rule i s) = contents s"
  by (rule set_ok_same [OF assms]; simp add: with_name_watch_def)+

lemma watch_made_simps [simp]:
  "s_fresh (watch_made p rule s) = s_fresh s + 1" "s_names (watch_made p rule s) = s_names s"
  "s_info (watch_made p rule s) = s_info s" "s_name_watch (watch_made p rule s) = s_name_watch s"
  "s_rule (watch_made p rule s) = s_rule s" "s_locks (watch_made p rule s) = {}"
  "s_public (watch_made p rule s) = (s_public s)(p := (s_public s p)\<lparr>p_internal := Some (s_fresh s)\<rparr>)"
  "s_watch (watch_made p rule s) =
     (s_watch s)(s_fresh s := \<lparr>w_rule = rule, w_cb = SendSignal p, w_cancelled = False\<rparr>)"
  by (simp_all add: watch_made_def)

lemma remove_name_watch_restores:
  fixes B s s1 p rule i s2
  defines "m' \<equiv> (watch_made p rule (with_name_watch p rule i s2))\<lparr>s_locks := {WatchLock p}\<rparr>"
  assumes "client_ok s" and "set_ok s1" and "contents s1 = contents s" and "s_names s1 = s_names s" and "s_info s1 = s_info s"
    and "s_fresh s \<le> s_fresh s1" and "rule < s_fresh s1" and "info_at B name s1 i s2" and "\<And>x. b_remove_match B x = Inr ()"
  shows "\<exists>s5. remove_name_watch B (s_fresh s2) m' = (Inr (), s5) \<and> restored s p (s_fresh s2 + 1) s5"
proof -
  have ok2: "set_ok s2" and f: "s_fresh s1 \<le> s_fresh s2"
    using assms(9) set_ok_name_known(1) [OF assms(3)] assms(3) by (auto simp: info_at_def)
  have "rule < s_fresh (with_name_watch p rule i s2)" using f assms(8) by simp
  note okm = set_ok_made [OF set_ok_with_name_watch(1) [OF ok2] this disjI2 [OF refl], where p = p and L = "{WatchLock p}"]
  have okm: "set_ok m'" "contents m' = add_mset (s_fresh s2 + 1) (contents s2)"
    using okm set_ok_with_name_watch(2) [OF ok2] by (simp_all add: m'_def)
  show ?thesis
  proof (cases "s_names s name")
    case (Some j)
    then have k: "i = j" "s2 = s1" using assms(5,9) by (auto simp: info_at_def)
    let ?ws = "ni_watches (s_info s j)"
    have ws: "?ws \<noteq> []" "s_fresh s2 \<notin> set ?ws"
      using assms(2,7) Some k(2) unfolding client_ok_def by fastforce+
    let ?s5 = "m'\<lparr>s_info := (s_info m')(i := (s_info m' i)\<lparr>ni_watches := ?ws\<rparr>)\<rparr>"
    have run: "remove_name_watch B (s_fresh s2) m' = (Inr (), ?s5)"
      using ws k assms(6) by (intro remove_name_watch_other) (simp_all add: m'_def)
    have ok5: "set_ok ?s5" "contents ?s5 = contents m'" by (rule set_ok_same [OF okm(1)]; simp)+
    have "s_info ?s5 = s_info s" using k assms(6) by (auto simp: m'_def)
    with ok5 okm(2) show ?thesis
      using run k assms(4,5,7) by (intro exI [of _ ?s5]) (simp add: restored_def, simp add: m'_def)
  next
    case None
    then have k: "i = s_fresh s1" "s2 = name_known B name s1" using assms(5,9) by (auto simp: info_at_def)
    let ?w = "s_fresh s1 + 2"
    let ?s = "m'\<lparr>s_info := (s_info m')(i := (s_info m' i)\<lparr>ni_watches := []\<rparr>), s_names := (s_names m')(name := None)\<rparr>"
    let ?s5 = "signal_cancelled ?w ?s"
    have run: "remove_name_watch B (s_fresh s2) m' = (Inr (), ?s5)"
      using remove_name_watch_last [of m' i ?w "s_fresh s2" B] assms(10) k by (simp add: m'_def)
    have ok: "set_ok ?s" "contents ?s = contents m'" by (rule set_ok_same [OF okm(1)]; simp)+
    note ok5 = set_ok_signal_cancelled [OF ok(1), of ?w]
    have c: "contents ?s5 = add_mset (s_fresh s2 + 1) (contents s)"
      using ok5(2) ok(2) okm(2) set_ok_name_known(2) [OF assms(3)] assms(4) k(2) by simp
    have names: "s_names ?s5 = s_names s" using None assms(5) k(2) by (simp add: m'_def fun_upd_idem)
    have "s_info ?s5 i' = s_info s i'" if "s_names s name' = Some i'" for name' i'
    proof -
      have "i' \<noteq> i" using assms(2,7) that k(1) unfolding client_ok_def by fastforce
      then show ?thesis using k assms(6) by (simp add: m'_def)
    qed
    with c names ok5(1) show ?thesis
      using run f assms(7) k(2) by (intro exI [of _ ?s5]) (simp add: restored_def, simp add: m'_def)
  qed
qed

text \<open>
  C17. A watch of signals that is cancelled leaves nothing behind: whatever the names and watches of the
  client before, \<open>WatchSignal\<close> registers a watch with its rule, and \<open>Cancel\<close> of it then returns with
  the same watches in the set, the same names followed with the same watches of them, no lock held, and the
  channel closed. The bus daemon is taken to accept the rules, and a unique name to have an owner.
\<close>

theorem watch_cancel_round_trip:
  fixes s destination path iface member
  assumes "client_ok s" and "\<And>x. b_add_match B x = Inr ()" and "\<And>x. b_remove_match B x = Inr ()"
    and "\<And>name. b_meanwhile B name = []" and "destination \<noteq> [] \<Longrightarrow> hd destination = CHR '':'' \<Longrightarrow> owner_of B s destination \<noteq> []"
  shows "\<exists>p s1 w s2. proxy_watch_signal B destination path iface member s = (Inr p, s1) \<and>
    w \<in># contents s1 \<and> w_cb (s_watch s1 w) = SendSignal p \<and>
    (rules_of s1 w)\<lparr>r_owner := []\<rparr> = proxy_rule destination path iface member \<and>
    cancel_public B p s1 = (Inr (), s2) \<and> client_ok s2 \<and> contents s2 = contents s \<and> s_names s2 = s_names s \<and>
    (\<forall>name i. s_names s name = Some i \<longrightarrow> s_info s2 i = s_info s i) \<and> p_closed (s_public s2 p)"
proof -
  let ?rule = "s_fresh s" and ?p = "s_fresh s + 1" and ?R = "proxy_rule destination path iface member"
  define s0 where "s0 = s\<lparr>s_fresh := ?rule + 1, s_rule := (s_rule s)(?rule := ?R)\<rparr>"
  define s1 where "s1 = s0\<lparr>s_fresh := ?p + 1, s_public := (s_public s0)(?p := \<lparr>p_internal = None, p_name = None, p_closed = False\<rparr>),
      s_locks := {WatchLock ?p}\<rparr>"
  have start: "proxy_watch_signal B destination path iface member s = watch_public B ?rule s0"
    by (simp add: proxy_watch_signal_def fresh_def go_defs s0_def)
  have r0: "s_rule s0 ?rule = ?R" "s_locks s0 = {}" "s_fresh s0 = ?p"
    using assms(1) by (simp_all add: s0_def client_ok_def)
  have s1: "s_fresh s1 = s_fresh s + 2" "s_names s1 = s_names s" "s_info s1 = s_info s" "s_locks s1 = {WatchLock ?p}"
      "s_rule s1 ?rule = ?R" "s_public s1 ?p = \<lparr>p_internal = None, p_name = None, p_closed = False\<rparr>"
    by (simp_all add: s1_def s0_def)
  have "set_ok s" using assms(1) by (simp add: client_ok_def)
  then have ok1: "set_ok s1" "contents s1 = contents s"
    by (rule set_ok_same; simp add: s0_def s1_def)+
  show ?thesis
  proof (cases "destination = [] \<or> destination = bus_name")
    case True
    let ?m = "watch_made ?p ?rule s1" and ?m' = "(watch_made ?p ?rule s1)\<lparr>s_locks := {WatchLock ?p}\<rparr>" and ?w = "s_fresh s1"
    have w: "watch_public B ?rule s0 = (Inr ?p, ?m)"
      using True r0 s1 by (intro watch_public_ok [OF _ _ assms(2), where ?s1.0 = s1]) (simp_all add: proxy_rule_def s1_def s0_def)
    have "?rule < s_fresh s1" using s1(1) by simp
    note ok2 = set_ok_made [OF ok1(1) this disjI1 [OF refl], where p = ?p]
      and ok3 = set_ok_made [OF ok1(1) this disjI2 [OF refl], where p = ?p and L = "{WatchLock ?p}"]
    have "restored s ?p ?w ?m'" unfolding restored_def using ok3 ok1(2) s1 by simp
    from cancel_made [OF assms(1) this _ _ refl _ assms(3), of ?m] s1(6) obtain s2 where "cancel_public B ?p ?m = (Inr (), s2)"
        "client_ok s2" "contents s2 = contents s" "s_names s2 = s_names s" "p_closed (s_public s2 ?p)"
        "\<forall>name i. s_names s name = Some i \<longrightarrow> s_info s2 i = s_info s i"
      by auto
    moreover have "(rules_of ?m ?w)\<lparr>r_owner := []\<rparr> = ?R" by (simp add: rules_of_def s1(5)) (simp add: proxy_rule_def)
    ultimately show ?thesis
      using start w ok2(2) by (intro exI [of _ ?p] exI [of _ ?m] exI [of _ ?w] exI [of _ s2]) simp
  next
    case False
    obtain i s2 where i: "info_at B destination s1 i s2"
      by (cases "s_names s destination") (auto simp: info_at_def s1(2))
    have f2: "s_fresh s1 \<le> s_fresh s2" "s_locks s2 = {WatchLock ?p}" "s_public s2 = s_public s1" "s_rule s2 ?rule = ?R"
      using i unfolding info_at_def by (elim disjE conjE; simp add: s1)+
    have ok2: "set_ok s2" using i set_ok_name_known(1) [OF ok1(1)] ok1(1) by (auto simp: info_at_def)
    have "ni_owner (s_info s2 i) = owner_of B s destination"
      using i by (auto simp: info_at_def owner_of_def s1 split: option.split)
    then have ready: "callback_ready s2 (ni_owner (s_info s2 i)) (FollowOwner ?p ?rule)"
      using False assms(5) by (simp add: callback_ready_def f2(4) proxy_rule_def)
    let ?s4 = "with_name_watch ?p ?rule i s2"
    let ?m = "watch_made ?p ?rule ?s4" and ?m' = "(watch_made ?p ?rule ?s4)\<lparr>s_locks := {WatchLock ?p}\<rparr>" and ?w = "s_fresh s2 + 1"
    have "ensure_name_watch B destination (FollowOwner ?p ?rule) s1 = (Inr (s_fresh s2), name_watched i (FollowOwner ?p ?rule) s2)"
      by (rule ensure_name_watch_ok [OF _ i ready assms(2,4)]) (simp add: s1)
    then have w: "watch_public B ?rule s0 = (Inr ?p, ?m)"
      using False r0 f2
      by (intro watch_public_ok [OF _ _ assms(2), where ?s1.0 = s1 and ?s2.0 = "name_watched i (FollowOwner ?p ?rule) s2"
            and nw = "s_fresh s2"]) (simp_all add: proxy_rule_def s1_def s0_def with_name_watch_def)
    have "?rule < s_fresh s1" "s_fresh s \<le> s_fresh s1" "?rule < s_fresh ?s4" using s1(1) f2(1) by simp_all
    note ok4 = set_ok_made [OF set_ok_with_name_watch(1) [OF ok2] this(3) disjI1 [OF refl], where p = ?p]
    obtain s5 where "remove_name_watch B (s_fresh s2) ?m' = (Inr (), s5)" "restored s ?p ?w s5"
      using remove_name_watch_restores [OF assms(1) ok1 s1(2,3) \<open>s_fresh s \<le> s_fresh s1\<close> \<open>?rule < s_fresh s1\<close> i assms(3), of ?p]
      by auto
    from cancel_made [OF assms(1) this(2) _ _ refl _ assms(3), of ?m] this(1) obtain s6 where
        "cancel_public B ?p ?m = (Inr (), s6)" "client_ok s6" "contents s6 = contents s" "s_names s6 = s_names s"
        "p_closed (s_public s6 ?p)" "\<forall>name i. s_names s name = Some i \<longrightarrow> s_info s6 i = s_info s i"
      by auto
    moreover have "(rules_of ?m ?w)\<lparr>r_owner := []\<rparr> = ?R"
      by (rule match_rule.equality) (simp_all add: rules_of_def with_name_watch_def f2(4), simp_all add: proxy_rule_def)
    ultimately show ?thesis
      using start w ok4(2) by (intro exI [of _ ?p] exI [of _ ?m] exI [of _ ?w] exI [of _ s6]) simp
  qed
qed

lemma client_ok_start: "client_ok no_client"
  by (simp add: client_ok_def set_ok_def no_client_def watches.inv_start watches.contents_start)

theorem watch_cancel_round_trip_witness:
  "\<exists>p s1 w s2. proxy_watch_signal (friendly '':1.7'') ''a.b'' ''/p'' ''i.f'' ''M'' no_client = (Inr p, s1) \<and>
    w \<in># contents s1 \<and> cancel_public (friendly '':1.7'') p s1 = (Inr (), s2) \<and> contents s2 = {#} \<and> s_names s2 = Map.empty"
proof -
  have "contents no_client = {#}" "s_names no_client = Map.empty"
    by (simp_all add: no_client_def watches.contents_start)
  then show ?thesis
    using watch_cancel_round_trip [OF client_ok_start, of "friendly '':1.7''" "''a.b''" "''/p''" "''i.f''" "''M''"]
    by (simp add: friendly_def) blast
qed

section \<open>Unique names\<close>

text \<open>
  C33. A watch of the signals of a unique name deadlocks the client when the name is lost: if it has no owner
  when \<open>WatchSignal\<close> is called, the call itself never returns; and if it is lost later, the receiving
  goroutine blocks in \<open>handleOwnerChange\<close>. Either way the mutex of all names stays locked. The callback
  calls \<open>SignalWatch.Cancel\<close> while its own goroutine holds a lock that \<open>Cancel\<close> takes.
\<close>

theorem unique_name_lost_deadlocks:
  fixes s rule cs
  defines "name \<equiv> CHR '':'' # cs"
  assumes "s_locks s = {}" and "rule < s_fresh s" and "r_type (s_rule s rule) = TypeSignal" and "r_sender (s_rule s rule) = name"
    and "s_names s name = None" and "\<And>x. b_add_match B x = Inr ()" and "b_meanwhile B name = []"
  shows "if current_owner B name = [] then
      \<exists>s'. watch_public B rule s = (Inl (Blocked ''sync.Mutex.Lock''), s') \<and> NameInfoMutex \<in> s_locks s'
    else \<exists>p s' i s''. watch_public B rule s = (Inr p, s') \<and> s_names s' name = Some i \<and>
      handle_owner_change B i [] False s' = (Inl (Blocked ''sync.Mutex.Lock''), s'') \<and>
      {NameInfoMutex, InfoLock i} \<subseteq> s_locks s''"
proof -
  let ?p = "s_fresh s" and ?i = "s_fresh s + 1"
  let ?s1 = "s\<lparr>s_fresh := s_fresh s + 1, s_public := (s_public s)(s_fresh s := \<lparr>p_internal = None, p_name = None, p_closed = False\<rparr>),
      s_locks := {WatchLock (s_fresh s)}\<rparr>"
  let ?s2 = "name_known B name ?s1"
  let ?nw = "s_fresh s + 4"
  have named: "r_sender (s_rule s rule) \<noteq> []" "r_sender (s_rule s rule) \<noteq> bus_name"
    using assms(5) by (simp_all add: name_def bus_name_def)
  have i: "info_at B name ?s1 ?i ?s2" using assms(6) by (simp add: info_at_def)
  show ?thesis
  proof (cases "current_owner B name = []")
    case True
    have "name_info_of B name (?s1\<lparr>s_locks := {NameInfoMutex, WatchLock ?p}\<rparr>) =
        (Inr ?i, name_known B name (?s1\<lparr>s_locks := {NameInfoMutex, WatchLock ?p}\<rparr>))"
      using assms(6-8) by (subst name_info_of_unknown) simp_all
    moreover have "owner_callback B (FollowOwner ?p rule) [] s' = (Inl (Blocked ''sync.Mutex.Lock''), s')"
      if "r_sender (s_rule s' rule) = name" "WatchLock ?p \<in> s_locks s'" for s'
      using that by (simp add: owner_callback_def go_defs cancel_public_def name_def)
    ultimately show ?thesis
      using assms(2-5) named True
      by (simp add: watch_public_def ensure_name_watch_def add_name_watch_def fresh_def go_defs locked_def no_owner_yet_def)
  next
    case False
    let ?s3 = "name_watched ?i (FollowOwner ?p rule) ?s2"
    let ?s4 = "?s3\<lparr>s_public := (s_public ?s3)(?p := (s_public ?s3 ?p)\<lparr>p_name := Some ?nw\<rparr>)\<rparr>"
    have ready: "callback_ready ?s2 (ni_owner (s_info ?s2 ?i)) (FollowOwner ?p rule)"
      using False assms(3,5) by (simp add: callback_ready_def name_def)
    have "ensure_name_watch B name (FollowOwner ?p rule) ?s1 = (Inr (s_fresh ?s2), ?s3)"
      by (rule ensure_name_watch_ok [OF _ i ready assms(7,8)]) simp
    then have "watch_public B rule s = (Inr ?p, watch_made ?p rule ?s4)"
      using assms(5) named assms(3,4)
      by (intro watch_public_ok [OF assms(2,4,7) refl refl, where nw = ?nw and ?s2.0 = ?s3]) simp_all
    moreover have "s_names (watch_made ?p rule ?s4) name = Some ?i" by (simp add: watch_made_def)
    moreover have "\<exists>s''. handle_owner_change B ?i [] False (watch_made ?p rule ?s4) =
        (Inl (Blocked ''sync.Mutex.Lock''), s'') \<and> {NameInfoMutex, InfoLock ?i} \<subseteq> s_locks s''"
      using assms(3,5)
      by (simp add: handle_owner_change_def set_owner_def owner_callback_def name_def cancel_public_def
          remove_name_watch_def drop_name_watch_def forget_name_def go_defs locked_def watch_made_def)
    ultimately show ?thesis using False by auto
  qed
qed


theorem unique_name_lost_deadlocks_witness:
  "let s = no_client\<lparr>s_fresh := 1, s_rule := (\<lambda>_. proxy_rule '':1.7'' ''/p'' ''i.f'' ''M'')\<rparr>
   in (\<exists>s'. watch_public (friendly []) 0 s = (Inl (Blocked ''sync.Mutex.Lock''), s')) \<and>
     (\<exists>p s' i s''. watch_public (friendly '':1.7'') 0 s = (Inr p, s') \<and>
        handle_owner_change (friendly '':1.7'') i [] False s' = (Inl (Blocked ''sync.Mutex.Lock''), s''))"
proof -
  let ?s = "no_client\<lparr>s_fresh := 1, s_rule := (\<lambda>_. proxy_rule '':1.7'' ''/p'' ''i.f'' ''M'')\<rparr>"
  have p: "s_locks ?s = {}" "0 < s_fresh ?s" "r_type (s_rule ?s 0) = TypeSignal" "r_sender (s_rule ?s 0) = CHR '':'' # ''1.7''"
      "s_names ?s (CHR '':'' # ''1.7'') = None"
    by (simp_all add: no_client_def proxy_rule_def)
  have d: "b_add_match (friendly owner) x = Inr ()" "b_meanwhile (friendly owner) y = []"
      "current_owner (friendly owner) x = owner" for owner x y
    by (simp_all add: friendly_def current_owner_def)
  show ?thesis
    using unique_name_lost_deadlocks [OF p d(1,2), of "[]"] unique_name_lost_deadlocks [OF p d(1,2), of "'':1.7''"]
    by (simp add: d(3) Let_def) blast
qed

end
