(* ===== verification/Triples.thy ===== *)
theory Triples
  imports Watches
begin

text \<open>
  Preconditions and postconditions of calls on a state, with a rule for each construct of the model. What an
  operation keeps, whatever the bus daemon answers, is proved with them.
\<close>

section \<open>Preconditions and postconditions\<close>

text \<open>
  \<open>triple P m Q E\<close>: from a state with \<open>P\<close> the call ends with \<open>Q\<close> of its value and the new state, with
  \<open>E\<close> when it returns an error or panics, or blocks for ever. A conjunct \<open>E\<close> is also kept by a panic,
  since the deferred calls run.
\<close>

definition triple ::
  "('s \<Rightarrow> bool) \<Rightarrow> ('a, 's) stateful \<Rightarrow> ('a \<Rightarrow> 's \<Rightarrow> bool) \<Rightarrow> ('s \<Rightarrow> bool) \<Rightarrow> bool" where
  "triple P m Q E \<longleftrightarrow>
     (\<forall>s. P s \<longrightarrow>
       (case m s of (Inr x, s') \<Rightarrow> Q x s' | (Inl (Blocked b), s') \<Rightarrow> True | (Inl fail, s') \<Rightarrow> E s'))"

named_theorems triple_intro \<open>rules for the shapes of the code\<close>

lemma triple_pre: "triple P m Q E \<Longrightarrow> (\<And>s. P' s \<Longrightarrow> P s) \<Longrightarrow> triple P' m Q E"
  by (simp add: triple_def)

lemma triple_post:
  "triple P m Q E \<Longrightarrow> (\<And>x s. Q x s \<Longrightarrow> Q' x s) \<Longrightarrow> (\<And>s. E s \<Longrightarrow> E' s) \<Longrightarrow> triple P m Q' E'"
  by (fastforce simp: triple_def split: prod.splits sum.splits failure.splits)

lemma triple_ret [triple_intro]: "(\<And>s. P s \<Longrightarrow> Q x s) \<Longrightarrow> triple P (gret x) Q E"
  by (simp add: triple_def gret_def)

lemma triple_fail [triple_intro]: "(\<And>s. P s \<Longrightarrow> E s) \<Longrightarrow> triple P (gfail f) Q E"
  by (simp add: triple_def gfail_def split: failure.split)

lemma triple_get [triple_intro]: "(\<And>s. P s \<Longrightarrow> Q (f s) s) \<Longrightarrow> triple P (gget f) Q E"
  by (simp add: triple_def gget_def)

lemma triple_modify [triple_intro]: "(\<And>s. P s \<Longrightarrow> Q () (f s)) \<Longrightarrow> triple P (gmodify f) Q E"
  by (simp add: triple_def gmodify_def)

lemma triple_bind:
  assumes "triple P m R E" and "\<And>x. triple (R x) (f x) Q E"
  shows "triple P (gbind m f) Q E"
  using assms by (fastforce simp: triple_def gbind_def split: prod.splits sum.splits failure.splits)

lemma triple_seq:
  assumes "triple P m (\<lambda>_. R) E" and "triple R k Q E"
  shows "triple P (gseq m k) Q E"
  unfolding gseq_def by (rule triple_bind [OF assms(1)]) (rule assms(2))

text \<open>The value that was read is a fact about the state, which the rest of the code may use.\<close>

lemma triple_get_bind:
  assumes "\<And>x. triple (\<lambda>s. P s \<and> f s = x) (k x) Q E"
  shows "triple P (gbind (gget f) k) Q E"
  by (rule triple_bind [where R = "\<lambda>x s. P s \<and> f s = x"]) (auto intro!: triple_get assms)

lemma triple_read:
  assumes "\<And>x. triple P (m x) Q E"
  shows "triple P (gbind (gget f) m) Q E"
  by (intro triple_get_bind triple_pre [OF assms]) simp

lemma triple_try:
  assumes "triple P m Q E"
  shows "triple P (gtry m) (\<lambda>x s. case x of Inl err \<Rightarrow> E s | Inr y \<Rightarrow> Q y s) E"
  using assms by (fastforce simp: triple_def gtry_def split: prod.splits sum.splits failure.splits)

lemma triple_try_ignored:
  assumes "triple P m (\<lambda>_. E) E"
  shows "triple P (gbind (gtry m) (\<lambda>_. gret x)) (\<lambda>_. E) E"
  by (rule triple_bind [OF triple_try [OF assms]]) (auto intro!: triple_ret split: sum.splits)

lemma triple_case_option:
  assumes "x = None \<Longrightarrow> triple P m Q E" and "\<And>y. x = Some y \<Longrightarrow> triple P (f y) Q E"
  shows "triple P (case x of None \<Rightarrow> m | Some y \<Rightarrow> f y) Q E"
  using assms by (cases x) simp_all

lemma triple_case_sum:
  assumes "\<And>y. x = Inl y \<Longrightarrow> triple P (f y) Q E" and "\<And>y. x = Inr y \<Longrightarrow> triple P (g y) Q E"
  shows "triple P (case x of Inl y \<Rightarrow> f y | Inr y \<Rightarrow> g y) Q E"
  using assms by (cases x) simp_all

lemma triple_if [triple_intro]:
  assumes "b \<Longrightarrow> triple P m Q E" and "\<not> b \<Longrightarrow> triple P m' Q E"
  shows "triple P (if b then m else m') Q E"
  using assms by simp

text \<open>A call that comes back: it does not wait for ever.\<close>

definition not_blocked :: "'a result \<Rightarrow> bool" where
  "not_blocked r = (case r of Inl (Blocked b) \<Rightarrow> False | _ \<Rightarrow> True)"

end
