(* ===== verification/BusNames.thy ===== *)
theory BusNames
  imports Owners Triples
begin

text \<open>
  Names that the client owns (the last part of names.go): \<open>RequestName\<close> with the goroutine it starts,
  \<open>Release\<close>, and the two goroutines that wait for the signals of the bus daemon.
\<close>

section \<open>State\<close>

text \<open>
  \<open>BusName\<close> with the client it belongs to. \<open>o_lock\<close> says whether the running goroutine holds
  \<open>name.lock\<close>; \<open>o_chan\<close> is the buffer of the channel \<open>C\<close>, which has room for one value.
\<close>

record owned_name =
  o_client :: client
  o_name :: string
  o_flags :: "32 word"
  o_chan :: "go_error option list"
  o_closed :: bool
  o_lock :: bool
  o_cancelled :: bool
  o_needs_release :: bool
  o_acquired :: "nat option"
  o_lost :: "nat option"

definition request_name :: "string \<Rightarrow> 32 word \<Rightarrow> client \<Rightarrow> owned_name" where
  "request_name busName flags c =
     \<lparr>o_client = c, o_name = busName, o_flags = flags, o_chan = [], o_closed = False, o_lock = False,
      o_cancelled = False, o_needs_release = False, o_acquired = None, o_lost = None\<rparr>"

definition in_client :: "'a go \<Rightarrow> ('a, owned_name) stateful" where
  "in_client m s = (case m (o_client s) of (r, c) \<Rightarrow> (r, s\<lparr>o_client := c\<rparr>))"

definition name_locked :: "('a, owned_name) stateful \<Rightarrow> ('a, owned_name) stateful" where
  "name_locked m s =
     (if o_lock s then (Inl (Blocked ''sync.Mutex.Lock''), s)
      else case m (s\<lparr>o_lock := True\<rparr>) of
        (Inl (Blocked b), s') \<Rightarrow> (Inl (Blocked b), s')
      | (r, s') \<Rightarrow> (r, s'\<lparr>o_lock := False\<rparr>))"

definition send_name :: "go_error option \<Rightarrow> (unit, owned_name) stateful" where
  "send_name err s =
     (if o_closed s then (Inl (Panic ''send on closed channel''), s)
      else if o_chan s \<noteq> [] then (Inl (Blocked ''send on BusName.C''), s)
      else (Inr (), s\<lparr>o_chan := [err]\<rparr>))"

definition err_name_lost :: go_error where "err_name_lost = ErrNew ''name ownership lost''"
definition err_name_in_queue :: go_error where "err_name_in_queue = ErrNew ''in queue for name ownership''"
definition err_name_exists :: go_error where "err_name_exists = ErrNew ''name exists''"
definition err_name_already_owned :: go_error where "err_name_already_owned = ErrNew ''name already owned''"

section \<open>Releasing\<close>

definition release_name :: "daemon \<Rightarrow> bool \<Rightarrow> (unit, owned_name) stateful" where
  "release_name B needsRelease =
     gbind (gget (\<lambda>s. s)) (\<lambda>name.
     if o_cancelled name then gret ()
     else
       gseq (case o_acquired name of None \<Rightarrow> gret () | Some p \<Rightarrow> in_client (cancel_public B p)) (
       gseq (case o_lost name of None \<Rightarrow> gret () | Some p \<Rightarrow> in_client (cancel_public B p)) (
       gseq (if needsRelease then
               (case b_release_name B (o_name name) of
                  Inl fail \<Rightarrow> gfail fail
                | Inr result \<Rightarrow> gmodify (\<lambda>s. s\<lparr>o_needs_release := False\<rparr>))
             else gret ()) (
       gseq (if o_closed name then gfail (Panic ''close of closed channel'') else gmodify (\<lambda>s. s\<lparr>o_closed := True\<rparr>)) (
       gmodify (\<lambda>s. s\<lparr>o_cancelled := True\<rparr>))))))"

definition release :: "daemon \<Rightarrow> (unit, owned_name) stateful" where
  "release B = name_locked (gbind (gget o_needs_release) (release_name B))"

definition check_needs_release :: "(bool, owned_name) stateful" where
  "check_needs_release = name_locked (gget o_needs_release)"

section \<open>Requesting\<close>

definition name_rule :: "string \<Rightarrow> string \<Rightarrow> match_rule" where
  "name_rule member busName =
     \<lparr>r_type = TypeSignal, r_sender = bus_name, r_path = bus_path, r_iface = bus_iface,
      r_member = member, r_arg0 = busName, r_owner = []\<rparr>"

definition watch_name_signal :: "daemon \<Rightarrow> string \<Rightarrow> string \<Rightarrow> nat go" where
  "watch_name_signal B member busName =
     gbind fresh (\<lambda>rule.
     gseq (gmodify (\<lambda>s. s\<lparr>s_rule := (s_rule s)(rule := name_rule member busName)\<rparr>)) (
     watch_public B rule))"

text \<open>When a watch cannot be set up the code calls \<open>Release\<close>, drops its error, and returns.\<close>

definition give_up :: "daemon \<Rightarrow> (unit, owned_name) stateful" where
  "give_up B = gbind (gtry (release B)) (\<lambda>_. gret ())"

text \<open>What the answer of the bus daemon means; the errors of \<open>release\<close> are dropped.\<close>

definition requested :: "daemon \<Rightarrow> 32 word \<Rightarrow> (unit, owned_name) stateful" where
  "requested B answer =
     (let drop_name = (\<lambda>err. gseq (send_name (Some err)) (gbind (gtry (release_name B False)) (\<lambda>_. gret ())))
      in if answer = 1 then gmodify (\<lambda>s. s\<lparr>o_needs_release := True\<rparr>)
         else if answer = 2 then
           gseq (gmodify (\<lambda>s. s\<lparr>o_needs_release := True\<rparr>)) (send_name (Some err_name_in_queue))
         else if answer = 3 then drop_name err_name_exists
         else if answer = 4 then drop_name err_name_already_owned
         else drop_name (ErrNew ''Unknown error''))"

definition request :: "daemon \<Rightarrow> (unit, owned_name) stateful" where
  "request B = name_locked (
     gbind (gget (\<lambda>s. s)) (\<lambda>name.
     if o_cancelled name then gret ()
     else
       gbind (gtry (in_client (watch_name_signal B ''NameLost'' (o_name name)))) (\<lambda>watch.
       case watch of
         Inl err \<Rightarrow> give_up B
       | Inr lost \<Rightarrow>
           gseq (gmodify (\<lambda>s. s\<lparr>o_lost := Some lost\<rparr>)) (
           gbind (gtry (in_client (watch_name_signal B ''NameAcquired'' (o_name name)))) (\<lambda>watch.
           case watch of
             Inl err \<Rightarrow> give_up B
           | Inr acquired \<Rightarrow>
               gseq (gmodify (\<lambda>s. s\<lparr>o_acquired := Some acquired\<rparr>)) (
               case b_request_name B (o_name name) (o_flags name) of
                 Inl (Error err) \<Rightarrow> gret ()
               | Inl fail \<Rightarrow> gfail fail
               | Inr answer \<Rightarrow> requested B answer))))))"

text \<open>The goroutines that \<open>request\<close> starts, when a signal has come: the one for \<open>NameLost\<close> ends then.\<close>

definition name_lost :: "daemon \<Rightarrow> (unit, owned_name) stateful" where
  "name_lost B =
     name_locked (gseq (send_name (Some err_name_lost)) (gbind (gtry (release_name B False)) (\<lambda>_. gret ())))"

definition name_acquired :: "(unit, owned_name) stateful" where
  "name_acquired = send_name None"

section \<open>A watch of the daemon's signals\<close>

lemma plain_watch:
  assumes "client_ok c" and "\<And>x. b_add_match B x = Inr ()"
  shows "\<exists>c'. watch_name_signal B member name c = (Inr (s_fresh c + 1), c') \<and> client_ok c' \<and>
    contents c' = add_mset (s_fresh c + 2) (contents c) \<and> s_names c' = s_names c \<and> s_fresh c' = s_fresh c + 3 \<and>
    s_public c' = (s_public c)(s_fresh c + 1 := \<lparr>p_internal = Some (s_fresh c + 2), p_name = None, p_closed = False\<rparr>) \<and>
    s_watch c' = (s_watch c)(s_fresh c + 2 := \<lparr>w_rule = s_fresh c, w_cb = SendSignal (s_fresh c + 1), w_cancelled = False\<rparr>)"
proof -
  let ?rule = "s_fresh c" and ?p = "s_fresh c + 1"
  define c0 where "c0 = c\<lparr>s_fresh := ?rule + 1, s_rule := (s_rule c)(?rule := name_rule member name)\<rparr>"
  define c1 where "c1 = c0\<lparr>s_fresh := ?p + 1, s_public := (s_public c0)(?p := \<lparr>p_internal = None, p_name = None, p_closed = False\<rparr>),
      s_locks := {WatchLock ?p}\<rparr>"
  let ?m = "watch_made ?p ?rule c1"
  have locks: "s_locks c = {}" and set: "set_ok c" using assms(1) by (simp_all add: client_ok_def)
  have ok1: "set_ok c1" "contents c1 = contents c"
    by (rule set_ok_same [OF set]; simp add: c0_def c1_def)+
  have "watch_public B ?rule c0 = (Inr ?p, ?m)"
    using locks by (intro watch_public_ok [OF _ _ assms(2), where ?s1.0 = c1]) (simp_all add: name_rule_def c1_def c0_def)
  then have "watch_name_signal B member name c = (Inr ?p, ?m)"
    by (simp add: watch_name_signal_def fresh_def go_defs c0_def)
  moreover have ok: "set_ok ?m" "contents ?m = add_mset (s_fresh c + 2) (contents c)"
    using set_ok_made [OF ok1(1) _ disjI1 [OF refl], of ?rule ?p] ok1(2) by (simp_all add: c1_def c0_def)
  moreover have "client_ok ?m"
    by (rule client_ok_same [OF assms(1) ok(1)]) (simp_all add: c1_def c0_def)
  ultimately show ?thesis by (intro exI [of _ ?m]) (simp add: c1_def c0_def)
qed

lemma plain_cancel:
  assumes "client_ok c" and "p_internal (s_public c p) = Some w" and "p_name (s_public c p) = None"
    and "\<not> w_cancelled (s_watch c w)" and "\<And>x. b_remove_match B x = Inr ()"
  shows "\<exists>c'. cancel_public B p c = (Inr (), c') \<and> client_ok c' \<and> contents c' = contents c - {#w#} \<and>
    s_names c' = s_names c \<and> s_public c' = (s_public c)(p := (s_public c p)\<lparr>p_internal := None, p_closed := True\<rparr>) \<and>
    s_watch c' = (s_watch c)(w := (s_watch c w)\<lparr>w_cancelled := True\<rparr>)"
proof -
  let ?c = "c\<lparr>s_locks := {WatchLock p}\<rparr>"
  define c' where "c' = signal_cancelled w ?c\<lparr>s_locks := {},
    s_public := (s_public ?c)(p := (s_public c p)\<lparr>p_internal := None, p_closed := True\<rparr>)\<rparr>"
  have locks: "s_locks c = {}" and set: "set_ok c" using assms(1) by (simp_all add: client_ok_def)
  have "cancel_public B p c = (Inr (), c')"
    unfolding c'_def using assms(2-5) locks by (intro cancel_public_ok [OF _ _ refl]) simp_all
  moreover have "set_ok ?c" "contents ?c = contents c" by (rule set_ok_same [OF set]; simp)+
  then have ok: "set_ok c'" "contents c' = contents c - {#w#}"
    using set_ok_cancelled [OF _ c'_def] by auto
  moreover have "client_ok c'" by (rule client_ok_same [OF assms(1) ok(1)]) (simp_all add: c'_def)
  ultimately show ?thesis by (intro exI [of _ c']) (simp add: c'_def)
qed

lemma plain_cancel_again: "s_locks c = {} \<Longrightarrow> p_internal (s_public c p) = None \<Longrightarrow> cancel_public B p c = (Inr (), c)"
  by (simp add: cancel_public_def locked_def go_defs)

section \<open>Requesting and releasing\<close>

text \<open>The two watches of a name are in place, and \<open>c\<close> is the client without them.\<close>

definition watching :: "client \<Rightarrow> owned_name \<Rightarrow> bool" where
  "watching c s \<longleftrightarrow> client_ok (o_client s) \<and> \<not> o_cancelled s \<and> \<not> o_closed s \<and> s_names (o_client s) = s_names c \<and>
     (\<exists>p1 p2 w1 w2. o_lost s = Some p1 \<and> o_acquired s = Some p2 \<and> p1 \<noteq> p2 \<and> w1 \<noteq> w2 \<and>
        s_public (o_client s) p1 = \<lparr>p_internal = Some w1, p_name = None, p_closed = False\<rparr> \<and>
        s_public (o_client s) p2 = \<lparr>p_internal = Some w2, p_name = None, p_closed = False\<rparr> \<and>
        \<not> w_cancelled (s_watch (o_client s) w1) \<and> \<not> w_cancelled (s_watch (o_client s) w2) \<and>
        contents (o_client s) = contents c + {#w1, w2#})"

definition released :: "client \<Rightarrow> owned_name \<Rightarrow> bool" where
  "released c s \<longleftrightarrow> o_cancelled s \<and> o_closed s \<and> client_ok (o_client s) \<and> contents (o_client s) = contents c \<and>
     s_names (o_client s) = s_names c"

lemma release_watching:
  assumes "watching c s" and "\<And>x. b_remove_match B x = Inr ()" and "needs \<Longrightarrow> b_release_name B (o_name s) = Inr result"
  shows "\<exists>s'. release_name B needs s = (Inr (), s') \<and> released c s' \<and> o_chan s' = o_chan s \<and> o_lock s' = o_lock s \<and>
    o_needs_release s' = (\<not> needs \<and> o_needs_release s) \<and> o_name s' = o_name s"
proof -
  from assms(1) obtain p1 p2 w1 w2 where w: "client_ok (o_client s)" "\<not> o_cancelled s" "\<not> o_closed s"
      "s_names (o_client s) = s_names c" "o_lost s = Some p1" "o_acquired s = Some p2" "p1 \<noteq> p2" "w1 \<noteq> w2"
      "s_public (o_client s) p1 = \<lparr>p_internal = Some w1, p_name = None, p_closed = False\<rparr>"
      "s_public (o_client s) p2 = \<lparr>p_internal = Some w2, p_name = None, p_closed = False\<rparr>"
      "\<not> w_cancelled (s_watch (o_client s) w1)" "\<not> w_cancelled (s_watch (o_client s) w2)"
      "contents (o_client s) = contents c + {#w1, w2#}"
    unfolding watching_def by blast
  obtain c2 where c2: "cancel_public B p2 (o_client s) = (Inr (), c2)" "client_ok c2" "contents c2 = contents c + {#w1#}"
      "s_names c2 = s_names c" "s_public c2 p1 = s_public (o_client s) p1" "\<not> w_cancelled (s_watch c2 w1)"
    using plain_cancel [OF w(1) _ _ w(12) assms(2), of p2] w by auto
  obtain c1 where c1: "cancel_public B p1 c2 = (Inr (), c1)" "client_ok c1" "contents c1 = contents c" "s_names c1 = s_names c"
    using plain_cancel [OF c2(2) _ _ c2(6) assms(2), of p1] c2 w by auto
  let ?s = "s\<lparr>o_client := c1, o_closed := True, o_cancelled := True, o_needs_release := (\<not> needs \<and> o_needs_release s)\<rparr>"
  have "release_name B needs s = (Inr (), ?s)"
    using w c2(1) c1(1) assms(3) by (cases needs) (simp_all add: release_name_def in_client_def go_defs)
  then show ?thesis using c1 by (simp add: released_def)
qed

lemma watch_both:
  assumes "client_ok c" and "\<And>x. b_add_match B x = Inr ()"
  shows "\<exists>s1. watching c s1 \<and> o_name s1 = name \<and> o_chan s1 = [] \<and> o_lock s1 \<and> \<not> o_needs_release s1 \<and>
    request B (request_name name flags c) =
      (case (case b_request_name B name flags of
               Inl (Error err) \<Rightarrow> (Inr (), s1) | Inl fail \<Rightarrow> (Inl fail, s1) | Inr answer \<Rightarrow> requested B answer s1) of
         (Inl (Blocked b), s') \<Rightarrow> (Inl (Blocked b), s')
       | (r, s') \<Rightarrow> (r, s'\<lparr>o_lock := False\<rparr>))"
proof -
  obtain c1 where c1: "watch_name_signal B ''NameLost'' name c = (Inr (s_fresh c + 1), c1)" "client_ok c1"
      "contents c1 = add_mset (s_fresh c + 2) (contents c)" "s_names c1 = s_names c" "s_fresh c1 = s_fresh c + 3"
      "s_public c1 (s_fresh c + 1) = \<lparr>p_internal = Some (s_fresh c + 2), p_name = None, p_closed = False\<rparr>"
      "\<not> w_cancelled (s_watch c1 (s_fresh c + 2))"
    using plain_watch [OF assms, of "''NameLost''" name] by auto
  obtain c2 where c2: "watch_name_signal B ''NameAcquired'' name c1 = (Inr (s_fresh c + 4), c2)" "client_ok c2"
      "contents c2 = add_mset (s_fresh c + 5) (contents c1)" "s_names c2 = s_names c"
      "s_public c2 = (s_public c1)(s_fresh c + 4 := \<lparr>p_internal = Some (s_fresh c + 5), p_name = None, p_closed = False\<rparr>)"
      "s_watch c2 = (s_watch c1)(s_fresh c + 5 := \<lparr>w_rule = s_fresh c + 3, w_cb = SendSignal (s_fresh c + 4), w_cancelled = False\<rparr>)"
    using plain_watch [OF c1(2) assms(2), of "''NameAcquired''" name] c1(4,5) by (auto simp: add.commute)
  let ?s1 = "(request_name name flags c)\<lparr>o_lock := True, o_client := c2, o_lost := Some (s_fresh c + 1),
      o_acquired := Some (s_fresh c + 4)\<rparr>"
  have "watching c ?s1"
    using c1 c2 by (simp add: watching_def request_name_def)
  moreover have "request B (request_name name flags c) =
      (case (case b_request_name B name flags of
               Inl (Error err) \<Rightarrow> (Inr (), ?s1) | Inl fail \<Rightarrow> (Inl fail, ?s1) | Inr answer \<Rightarrow> requested B answer ?s1) of
         (Inl (Blocked b), s') \<Rightarrow> (Inl (Blocked b), s')
       | (r, s') \<Rightarrow> (r, s'\<lparr>o_lock := False\<rparr>))"
    using c1(1) c2(1)
    by (simp add: request_def name_locked_def go_defs request_name_def in_client_def split: sum.split failure.split)
  ultimately show ?thesis by (intro exI [of _ ?s1]) (simp add: request_name_def)
qed

text \<open>What the program that requested the name is told, by the answer of the bus daemon.\<close>

definition answer_error :: "32 word \<Rightarrow> go_error" where
  "answer_error answer =
     (if answer = 2 then err_name_in_queue else if answer = 3 then err_name_exists
      else if answer = 4 then err_name_already_owned else ErrNew ''Unknown error'')"

lemma watching_update [simp]:
  "watching c (s\<lparr>o_lock := l\<rparr>) = watching c s" "watching c (s\<lparr>o_needs_release := n\<rparr>) = watching c s"
  "watching c (s\<lparr>o_chan := ch\<rparr>) = watching c s" "released c (s\<lparr>o_lock := l\<rparr>) = released c s"
  by (simp_all add: watching_def released_def)

lemma release_ok:
  assumes "watching c s \<or> released c s" and "\<not> o_lock s"
    and "\<And>x. b_remove_match B x = Inr ()" and "b_release_name B (o_name s) = Inr result"
  shows "\<exists>s'. release B s = (Inr (), s') \<and> released c s' \<and> o_chan s' = o_chan s"
  using assms(1)
proof
  assume "watching c s"
  then have "watching c (s\<lparr>o_lock := True\<rparr>)" by simp
  from release_watching [OF this assms(3), where needs = "o_needs_release s" and result = result]
  show ?thesis using assms(2,4) by (fastforce simp: release_def name_locked_def go_defs)
next
  assume r: "released c s"
  then show ?thesis
    using assms(2) by (simp add: release_def name_locked_def go_defs release_name_def released_def)
qed

lemma requested_dropped:
  assumes "watching c s" and "o_chan s = []" and "\<And>x. b_remove_match B x = Inr ()" and "answer \<noteq> 1" and "answer \<noteq> 2"
  shows "\<exists>s'. requested B answer s = (Inr (), s') \<and> released c s' \<and> o_chan s' = [Some (answer_error answer)] \<and>
    o_needs_release s' = o_needs_release s \<and> o_name s' = o_name s"
proof -
  let ?s = "s\<lparr>o_chan := [Some (answer_error answer)]\<rparr>"
  have "send_name (Some (answer_error answer)) s = (Inr (), ?s)"
    using assms(1,2) by (simp add: send_name_def watching_def)
  moreover obtain s' where "release_name B False ?s = (Inr (), s')" "released c s'"
      "o_chan s' = o_chan ?s" "o_needs_release s' = o_needs_release ?s" "o_name s' = o_name ?s"
    using release_watching [of c ?s B False] assms(1,3) by auto
  ultimately show ?thesis
    using assms(4,5) by (intro exI [of _ s']) (auto simp: requested_def go_defs answer_error_def)
qed



lemma set_remove_free:
  "HandlerMutex \<notin> s_locks s \<Longrightarrow> set_remove w s =
     (Inr (fst (ws_remove (rules_of s) w (s_set s))), s\<lparr>s_set := snd (ws_remove (rules_of s) w (s_set s))\<rparr>)"
  by (simp add: set_remove_def locked_def case_prod_beta)

lemma watch_signal_refused:
  assumes "r_type (s_rule s rule) = TypeSignal" and "HandlerMutex \<notin> s_locks s"
    and "b_add_match B (rule_string (s_rule s rule)) = Inl fail"
  shows "\<exists>s'. watch_signal B rule cb s = (Inl fail, s') \<and> s_public s' = s_public s"
  using assms by (simp add: watch_signal_def set_add_def locked_def fresh_def go_defs set_remove_free)

text \<open>
  C34. When the bus daemon does not accept the rule of the first watch, the goroutine of \<open>RequestName\<close>
  waits for itself: it calls \<open>Release\<close> under the lock that \<open>Release\<close> takes. Nothing is sent on the
  channel, and every later \<open>Release\<close> of the program waits too.
\<close>

theorem request_deadlocks:
  assumes "s_locks c = {}" and "b_add_match B (rule_string (name_rule ''NameLost'' name)) = Inl (Error err)"
  shows "\<exists>s'. request B (request_name name flags c) = (Inl (Blocked ''sync.Mutex.Lock''), s') \<and>
    o_chan s' = [] \<and> \<not> o_closed s' \<and>
    release B s' = (Inl (Blocked ''sync.Mutex.Lock''), s') \<and> check_needs_release s' = (Inl (Blocked ''sync.Mutex.Lock''), s')"
proof -
  let ?rule = "s_fresh c" and ?p = "s_fresh c + 1"
  let ?c = "c\<lparr>s_rule := (s_rule c)(?rule := name_rule ''NameLost'' name), s_fresh := s_fresh c + 2,
      s_public := (s_public c)(?p := \<lparr>p_internal = None, p_name = None, p_closed = False\<rparr>), s_locks := {WatchLock ?p}\<rparr>"
  obtain c1 where "watch_signal B ?rule (SendSignal ?p) ?c = (Inl (Error err), c1)" "s_public c1 = s_public ?c"
    using watch_signal_refused [of ?c ?rule B "Error err" "SendSignal ?p"] assms(2) by (auto simp: name_rule_def)
  then have "\<exists>c'. watch_name_signal B ''NameLost'' name c = (Inl (Error err), c')"
    using assms(1)
    by (simp add: watch_name_signal_def watch_public_def locked_def fresh_def go_defs name_rule_def)
  then obtain c' where "watch_name_signal B ''NameLost'' name c = (Inl (Error err), c')" ..
  then show ?thesis
    by (simp add: request_def request_name_def name_locked_def in_client_def go_defs give_up_def release_def
        check_needs_release_def)
qed

theorem request_deadlocks_witness:
  "\<exists>s'. request ((friendly [])\<lparr>b_add_match := (\<lambda>_. Inl (Error ErrEOF))\<rparr>) (request_name ''a.b'' 0 no_client) =
    (Inl (Blocked ''sync.Mutex.Lock''), s') \<and> o_chan s' = []"
  using request_deadlocks [of no_client "(friendly [])\<lparr>b_add_match := (\<lambda>_. Inl (Error ErrEOF))\<rparr>" "''a.b''" ErrEOF 0]
  by (auto simp: no_client_def)

section \<open>The channel\<close>

text \<open>
  What can happen to a name: its goroutines run and the program releases it, in any order, the program
  receives from the channel, and anything at all happens to the rest of the client.
\<close>

datatype name_operation = RunRequest | RunRelease | RunLost | RunAcquired

fun run_name :: "daemon \<Rightarrow> name_operation \<Rightarrow> (unit, owned_name) stateful" where
  "run_name B RunRequest = request B"
| "run_name B RunRelease = release B"
| "run_name B RunLost = name_lost B"
| "run_name B RunAcquired = name_acquired"

inductive name_reached :: "owned_name \<Rightarrow> bool" where
  start: "name_reached (request_name name flags c)"
| run: "name_reached s \<Longrightarrow> run_name B opn s = (r, s') \<Longrightarrow> not_blocked r \<Longrightarrow> name_reached s'"
| receive: "name_reached s \<Longrightarrow> o_chan s = x # xs \<Longrightarrow> name_reached (s\<lparr>o_chan := xs\<rparr>)"
| client: "name_reached s \<Longrightarrow> name_reached (s\<lparr>o_client := c\<rparr>)"

definition name_ok :: "bool \<Rightarrow> owned_name \<Rightarrow> bool" where
  "name_ok lock s \<longleftrightarrow> o_closed s = o_cancelled s \<and> o_lock s = lock \<and> length (o_chan s) \<le> 1"

abbreviation name_keeps :: "bool \<Rightarrow> ('a, owned_name) stateful \<Rightarrow> bool" where
  "name_keeps lock m \<equiv> triple (name_ok lock) m (\<lambda>_. name_ok lock) (name_ok lock)"

lemma triple_in_client:
  assumes "\<And>s c. P s \<Longrightarrow> P (s\<lparr>o_client := c\<rparr>)"
  shows "triple P (in_client m) (\<lambda>_. P) P"
  using assms by (auto simp: triple_def in_client_def split: prod.split sum.split failure.split)

lemma name_ok_updates [simp]:
  "name_ok l (s\<lparr>o_client := c\<rparr>) = name_ok l s" "name_ok l (s\<lparr>o_needs_release := n\<rparr>) = name_ok l s"
  "name_ok l (s\<lparr>o_acquired := p\<rparr>) = name_ok l s" "name_ok l (s\<lparr>o_lost := p\<rparr>) = name_ok l s"
  by (simp_all add: name_ok_def)

lemma triple_name_locked:
  assumes "triple (name_ok True) m (\<lambda>x s. name_ok True s \<and> C s) (name_ok True)" and "\<And>s. C s \<Longrightarrow> C (s\<lparr>o_lock := False\<rparr>)"
  shows "triple (name_ok False) (name_locked m) (\<lambda>x s. name_ok False s \<and> C s) (name_ok False)"
  unfolding triple_def
proof (intro allI impI)
  fix s assume s: "name_ok False s"
  then have "name_ok True (s\<lparr>o_lock := True\<rparr>)" by (simp add: name_ok_def)
  from assms(1) [unfolded triple_def, rule_format, OF this]
  show "case name_locked m s of (Inr x, s') \<Rightarrow> name_ok False s' \<and> C s'
      | (Inl (Blocked b), s') \<Rightarrow> True | (Inl fail, s') \<Rightarrow> name_ok False s'"
    using s assms(2) by (auto simp: name_locked_def name_ok_def split: prod.splits sum.splits failure.splits)
qed

lemma name_keeps_locked: "name_keeps True m \<Longrightarrow> name_keeps False (name_locked m)"
  using triple_name_locked [where C = "\<lambda>_. True"] by simp

lemma send_name_keeps: "name_keeps l (send_name err)"
  by (simp add: triple_def send_name_def name_ok_def)

lemma release_name_triple: "triple (name_ok l) (release_name B needs) (\<lambda>_ s. name_ok l s \<and> o_closed s) (name_ok l)"
  unfolding release_name_def
proof (intro triple_get_bind triple_if)
  fix name :: owned_name
  show "triple (\<lambda>s. name_ok l s \<and> s = name) (gret ()) (\<lambda>_ s. name_ok l s \<and> o_closed s) (name_ok l)" if "o_cancelled name"
    using that by (intro triple_ret) (simp add: name_ok_def)
  assume "\<not> o_cancelled name"
  let ?P = "\<lambda>s. name_ok l s \<and> \<not> o_closed s \<and> \<not> o_closed name"
  let ?cancel = "\<lambda>w. case w of None \<Rightarrow> gret () | Some p \<Rightarrow> in_client (cancel_public B p)"
  have "triple ?P (?cancel w) (\<lambda>_. ?P) (name_ok l)" for w
    by (intro triple_case_option triple_ret triple_post [OF triple_in_client]) simp_all
  moreover have "triple ?P (if needs then (case b_release_name B (o_name name) of
      Inl fail \<Rightarrow> gfail fail | Inr result \<Rightarrow> gmodify (\<lambda>s. s\<lparr>o_needs_release := False\<rparr>)) else gret ()) (\<lambda>_. ?P) (name_ok l)"
    by (intro triple_if triple_case_sum triple_fail triple_modify triple_ret) simp_all
  moreover have "triple ?P (if o_closed name then gfail (Panic ''close of closed channel'') else gmodify (\<lambda>s. s\<lparr>o_closed := True\<rparr>))
      (\<lambda>_ s. o_closed s \<and> o_lock s = l \<and> length (o_chan s) \<le> 1) (name_ok l)"
    by (intro triple_if triple_fail triple_modify) (simp_all add: name_ok_def)
  moreover have "triple (\<lambda>s. o_closed s \<and> o_lock s = l \<and> length (o_chan s) \<le> 1)
      (gmodify (\<lambda>s. s\<lparr>o_cancelled := True\<rparr>)) (\<lambda>_ s. name_ok l s \<and> o_closed s) (name_ok l)"
    by (rule triple_modify) (simp add: name_ok_def)
  ultimately have "triple ?P (gseq (?cancel (o_acquired name)) (gseq (?cancel (o_lost name)) (
      gseq (if needs then (case b_release_name B (o_name name) of
        Inl fail \<Rightarrow> gfail fail | Inr result \<Rightarrow> gmodify (\<lambda>s. s\<lparr>o_needs_release := False\<rparr>)) else gret ()) (
      gseq (if o_closed name then gfail (Panic ''close of closed channel'') else gmodify (\<lambda>s. s\<lparr>o_closed := True\<rparr>)) (
      gmodify (\<lambda>s. s\<lparr>o_cancelled := True\<rparr>)))))) (\<lambda>_ s. name_ok l s \<and> o_closed s) (name_ok l)"
    by (intro triple_seq)
  then show "triple (\<lambda>s. name_ok l s \<and> s = name) (gseq (?cancel (o_acquired name)) (gseq (?cancel (o_lost name)) (
      gseq (if needs then (case b_release_name B (o_name name) of
        Inl fail \<Rightarrow> gfail fail | Inr result \<Rightarrow> gmodify (\<lambda>s. s\<lparr>o_needs_release := False\<rparr>)) else gret ()) (
      gseq (if o_closed name then gfail (Panic ''close of closed channel'') else gmodify (\<lambda>s. s\<lparr>o_closed := True\<rparr>)) (
      gmodify (\<lambda>s. s\<lparr>o_cancelled := True\<rparr>)))))) (\<lambda>_ s. name_ok l s \<and> o_closed s) (name_ok l)"
    by (rule triple_pre) (use \<open>\<not> o_cancelled name\<close> in \<open>auto simp: name_ok_def\<close>)
qed

lemma release_triple: "triple (name_ok False) (release B) (\<lambda>_ s. name_ok False s \<and> o_closed s) (name_ok False)"
  unfolding release_def
  by (rule triple_name_locked) (simp_all add: triple_read release_name_triple)

lemma release_try_keeps: "name_keeps l (gbind (gtry (release_name B needs)) (\<lambda>_. gret ()))"
  by (intro triple_try_ignored triple_post [OF release_name_triple]) simp_all

text \<open>\<open>Release\<close> under the lock blocks, so it does nothing.\<close>

lemma give_up_keeps: "name_keeps True (give_up B)"
  by (simp add: triple_def give_up_def release_def name_locked_def go_defs name_ok_def)

lemma requested_keeps: "name_keeps l (requested B answer)"
  unfolding requested_def Let_def
  by (intro triple_if triple_modify triple_seq [where R = "name_ok l"] send_name_keeps release_try_keeps) simp_all

lemma request_keeps: "name_keeps False (request B)"
proof -
  let ?I = "name_ok True"
  have watch: "triple ?I (gtry (in_client m)) (\<lambda>_. ?I) ?I" for m :: "nat go"
    by (rule triple_post [OF triple_try [OF triple_in_client]]) (auto split: sum.splits)
  have ask: "triple ?I (case b_request_name B (o_name name) (o_flags name) of
      Inl (Error err) \<Rightarrow> gret () | Inl fail \<Rightarrow> gfail fail | Inr answer \<Rightarrow> requested B answer) (\<lambda>_. ?I) ?I" for name
    by (auto intro!: triple_ret triple_fail requested_keeps split: sum.split failure.split)
  have step: "triple ?I (case watch of Inl err \<Rightarrow> give_up B | Inr p \<Rightarrow> k p) (\<lambda>_. ?I) ?I"
    if "\<And>p. triple ?I (k p) (\<lambda>_. ?I) ?I" for watch :: "go_error + nat" and k
    using that give_up_keeps by (cases watch) simp_all
  have noted: "triple ?I (gmodify (\<lambda>s. s\<lparr>o_lost := p\<rparr>)) (\<lambda>_. ?I) ?I" "triple ?I (gmodify (\<lambda>s. s\<lparr>o_acquired := p\<rparr>)) (\<lambda>_. ?I) ?I" for p
    by (rule triple_modify; simp)+
  show ?thesis
    unfolding request_def
    by (intro name_keeps_locked triple_read triple_if triple_bind [OF watch] step triple_seq [OF noted(1)]
      triple_seq [OF noted(2)] ask triple_ret)
qed

lemma name_lost_keeps: "name_keeps False (name_lost B)"
  unfolding name_lost_def
  by (intro name_keeps_locked triple_seq [OF send_name_keeps release_try_keeps])

lemma name_reached_ok: "name_reached s \<Longrightarrow> name_ok False s"
proof (induction rule: name_reached.induct)
  case (run s B opn r s')
  have "name_keeps False (run_name B opn)"
    by (cases opn) (use request_keeps name_lost_keeps send_name_keeps triple_post [OF release_triple] in
      \<open>auto simp: name_acquired_def\<close>)
  then show ?case
    using run.IH run.hyps(2,3) by (fastforce simp: triple_def not_blocked_def split: sum.splits failure.splits)
qed (simp_all add: name_ok_def request_name_def)



end
