(* ===== verification/Proxy.thy ===== *)
theory Proxy
  imports Connection
begin

text \<open>
  Method calls as the program makes them: \<open>SendWithReply\<close> and \<open>ObjectProxy.Call\<close> (dbus.go), and the
  stubs for the interfaces of the bus daemon, of properties and of introspection (proxy.go).

  A call is one exchange with the peer here: \<open>answer\<close> gives for the message that was sent the one
  that the receiving goroutine puts into the channel of the call, or \<open>None\<close> if that never happens.
  That the two belong together is shown in \<open>Calls\<close>. The fuel \<open>n\<close> is that of \<open>Args\<close>.
\<close>

section \<open>SendWithReply\<close>

type_synonym answers = "message \<Rightarrow> message option"

definition send_with_reply ::
  "methods \<Rightarrow> 'w writer \<Rightarrow> answers \<Rightarrow> message \<Rightarrow> 'w connection \<Rightarrow> message result \<times> 'w connection" where
  "send_with_reply M write answer msg c =
     (if m_type msg \<noteq> TypeMethodCall then (Inl (Panic ''Only method calls have replies''), c)
      else let (serial, c1) = next_serial c in
        (case set_serial serial msg of
           Inl fail \<Rightarrow> (Inl fail, c1)
         | Inr msg1 \<Rightarrow>
             (let c2 = c1\<lparr>c_replies := (c_replies c1)(serial \<mapsto> unat serial)\<rparr> in
              case atomic_write_message M write msg1 c2 of
                (Inl fail, c3) \<Rightarrow> (Inl fail, c3\<lparr>c_replies := (c_replies c3)(serial := None)\<rparr>)
              | (Inr u, c3) \<Rightarrow>
                  (case answer msg1 of
                     None \<Rightarrow> (Inl (Blocked ''receive from replyChan''), c3)
                   | Some reply \<Rightarrow> (Inr reply, c3\<lparr>c_replies := (c_replies c3)(serial := None)\<rparr>)))))"

section \<open>Proxies\<close>

record object_proxy =
  o_dest :: string
  o_path :: string

definition call ::
  "methods \<Rightarrow> 'w writer \<Rightarrow> answers \<Rightarrow> object_proxy \<Rightarrow> string \<Rightarrow> string \<Rightarrow> (gotype \<times> gval) list \<Rightarrow>
     'w connection \<Rightarrow> message result \<times> 'w connection" where
  "call M write answer ob iface method args c =
     (case append_args M args (new_method_call_message (o_dest ob) (o_path ob) iface method) of
        (Inl fail, msg) \<Rightarrow> (Inl fail, c)
      | (Inr u, msg) \<Rightarrow>
          (case send_with_reply M write answer msg c of
             (Inl fail, c') \<Rightarrow> (Inl fail, c')
           | (Inr reply, c') \<Rightarrow>
               if m_type reply = TypeError
               then (ebind (as_error 1 reply) (\<lambda>err. Inl (Error err)), c')
               else (Inr reply, c')))"

text \<open>The common part of the stubs: the call, then \<open>Args\<close> of the reply into variables.\<close>

definition call_args ::
  "nat \<Rightarrow> methods \<Rightarrow> 'w writer \<Rightarrow> answers \<Rightarrow> object_proxy \<Rightarrow> string \<Rightarrow> string \<Rightarrow> (gotype \<times> gval) list \<Rightarrow> arg list \<Rightarrow>
     'w connection \<Rightarrow> gval list result \<times> 'w connection" where
  "call_args n M write answer ob iface method args targets c =
     (case call M write answer ob iface method args c of
        (reply, c') \<Rightarrow> (ebind reply (\<lambda>r. if targets = [] then Inr [] else args_of n targets r), c'))"

definition bus_daemon_name :: string where "bus_daemon_name = ''org.freedesktop.DBus''"
definition bus_daemon_path :: string where "bus_daemon_path = ''/org/freedesktop/DBus''"
definition bus_daemon_iface :: string where "bus_daemon_iface = ''org.freedesktop.DBus''"

abbreviation to_string :: arg where "to_string \<equiv> PtrTo TString (VString [])"
abbreviation to_uint32 :: arg where "to_uint32 \<equiv> PtrTo TUint32 (VUint32 0)"
abbreviation to_bool :: arg where "to_bool \<equiv> PtrTo TBool (VBool False)"
abbreviation to_strings :: arg where "to_strings \<equiv> PtrTo (TSlice TString) VNil"

abbreviation str :: "string \<Rightarrow> gotype \<times> gval" where "str s \<equiv> (TString, VString s)"
abbreviation u32 :: "32 word \<Rightarrow> gotype \<times> gval" where "u32 x \<equiv> (TUint32, VUint32 x)"

text \<open>What a stub returns, read off the variable.\<close>

definition got_string :: "gval list result \<times> 'c \<Rightarrow> string result \<times> 'c" where
  "got_string r = (ebind (fst r) (\<lambda>ws. case ws of [VString s] \<Rightarrow> Inr s | _ \<Rightarrow> Inr []), snd r)"

definition got_uint32 :: "gval list result \<times> 'c \<Rightarrow> 32 word result \<times> 'c" where
  "got_uint32 r = (ebind (fst r) (\<lambda>ws. case ws of [VUint32 x] \<Rightarrow> Inr x | _ \<Rightarrow> Inr 0), snd r)"

definition got_bool :: "gval list result \<times> 'c \<Rightarrow> bool result \<times> 'c" where
  "got_bool r = (ebind (fst r) (\<lambda>ws. case ws of [VBool b] \<Rightarrow> Inr b | _ \<Rightarrow> Inr False), snd r)"

definition got_value :: "gval list result \<times> 'c \<Rightarrow> gval result \<times> 'c" where
  "got_value r = (ebind (fst r) (\<lambda>ws. case ws of [w] \<Rightarrow> Inr w | _ \<Rightarrow> Inr VNil), snd r)"

definition got_nothing :: "gval list result \<times> 'c \<Rightarrow> unit result \<times> 'c" where
  "got_nothing r = (ebind (fst r) (\<lambda>_. Inr ()), snd r)"

section \<open>Stubs\<close>

text \<open>
  The stubs take the call to the peer as their first argument: \<open>call_args n M write answer ob\<close> for
  some connection.
\<close>

type_synonym 'c caller_of = "string \<Rightarrow> string \<Rightarrow> (gotype \<times> gval) list \<Rightarrow> arg list \<Rightarrow> 'c \<Rightarrow> gval list result \<times> 'c"

definition introspect :: "'c caller_of \<Rightarrow> 'c \<Rightarrow> string result \<times> 'c" where
  "introspect rpc c = got_string (rpc ''org.freedesktop.DBus.Introspectable'' ''Introspect'' [] [to_string] c)"

definition properties_iface :: string where
  "properties_iface = ''org.freedesktop.DBus.Properties''"

text \<open>\<open>Get\<close> decodes into a \<open>Variant\<close> and returns its value.\<close>

definition properties_get :: "'c caller_of \<Rightarrow> string \<Rightarrow> string \<Rightarrow> 'c \<Rightarrow> gval result \<times> 'c" where
  "properties_get rpc iface name c =
     (let (res, c') = got_value (rpc properties_iface ''Get'' [str iface, str name] [PtrTo TVariant (VStruct [VNil])] c)
      in (ebind res (\<lambda>v. case v of VStruct [w] \<Rightarrow> Inr w | _ \<Rightarrow> Inr VNil), c'))"

definition properties_set :: "'c caller_of \<Rightarrow> string \<Rightarrow> string \<Rightarrow> gotype \<times> gval \<Rightarrow> 'c \<Rightarrow> unit result \<times> 'c" where
  "properties_set rpc iface name val c =
     got_nothing (rpc properties_iface ''Set'' [str iface, str name, (TVariant, VVariant (fst val) (snd val))] [] c)"

definition properties_get_all :: "'c caller_of \<Rightarrow> string \<Rightarrow> 'c \<Rightarrow> gval result \<times> 'c" where
  "properties_get_all rpc iface c =
     got_value (rpc properties_iface ''GetAll'' [str iface] [PtrTo (TMap TString TVariant) VNil] c)"

definition bus_hello :: "'c caller_of \<Rightarrow> 'c \<Rightarrow> string result \<times> 'c" where
  "bus_hello rpc c = got_string (rpc bus_daemon_iface ''Hello'' [] [to_string] c)"

definition bus_request_name :: "'c caller_of \<Rightarrow> string \<Rightarrow> 32 word \<Rightarrow> 'c \<Rightarrow> 32 word result \<times> 'c" where
  "bus_request_name rpc name flags c =
     got_uint32 (rpc bus_daemon_iface ''RequestName'' [str name, u32 flags] [to_uint32] c)"

definition bus_release_name :: "'c caller_of \<Rightarrow> string \<Rightarrow> 'c \<Rightarrow> 32 word result \<times> 'c" where
  "bus_release_name rpc name c = got_uint32 (rpc bus_daemon_iface ''ReleaseName'' [str name] [to_uint32] c)"

definition bus_list_queued_owners :: "'c caller_of \<Rightarrow> string \<Rightarrow> 'c \<Rightarrow> gval result \<times> 'c" where
  "bus_list_queued_owners rpc name c =
     got_value (rpc bus_daemon_iface ''ListQueuedOwners'' [str name] [to_strings] c)"

definition bus_list_names :: "'c caller_of \<Rightarrow> 'c \<Rightarrow> gval result \<times> 'c" where
  "bus_list_names rpc c = got_value (rpc bus_daemon_iface ''ListNames'' [] [to_strings] c)"

definition bus_list_activatable_names :: "'c caller_of \<Rightarrow> 'c \<Rightarrow> gval result \<times> 'c" where
  "bus_list_activatable_names rpc c =
     got_value (rpc bus_daemon_iface ''ListActivatableNames'' [] [to_strings] c)"

definition bus_name_has_owner :: "'c caller_of \<Rightarrow> string \<Rightarrow> 'c \<Rightarrow> bool result \<times> 'c" where
  "bus_name_has_owner rpc name c = got_bool (rpc bus_daemon_iface ''NameHasOwner'' [str name] [to_bool] c)"

definition bus_start_service :: "'c caller_of \<Rightarrow> string \<Rightarrow> 32 word \<Rightarrow> 'c \<Rightarrow> 32 word result \<times> 'c" where
  "bus_start_service rpc name flags c =
     got_uint32 (rpc bus_daemon_iface ''StartServiceByName'' [str name, u32 flags] [to_uint32] c)"

definition bus_update_environment :: "'c caller_of \<Rightarrow> (gval \<times> gval) list \<Rightarrow> 'c \<Rightarrow> unit result \<times> 'c" where
  "bus_update_environment rpc env c =
     got_nothing (rpc bus_daemon_iface ''UpdateActivationEnvironment'' [(TMap TString TString, VMap env)] [] c)"

definition bus_get_name_owner :: "'c caller_of \<Rightarrow> string \<Rightarrow> 'c \<Rightarrow> string result \<times> 'c" where
  "bus_get_name_owner rpc name c =
     got_string (rpc bus_daemon_iface ''GetNameOwner'' [str name] [to_string] c)"

definition bus_get_unix_user :: "'c caller_of \<Rightarrow> string \<Rightarrow> 'c \<Rightarrow> 32 word result \<times> 'c" where
  "bus_get_unix_user rpc name c =
     got_uint32 (rpc bus_daemon_iface ''GetConnectionUnixUser'' [str name] [to_uint32] c)"

definition bus_get_unix_process_id :: "'c caller_of \<Rightarrow> string \<Rightarrow> 'c \<Rightarrow> 32 word result \<times> 'c" where
  "bus_get_unix_process_id rpc name c =
     got_uint32 (rpc bus_daemon_iface ''GetConnectionUnixProcessID'' [str name] [to_uint32] c)"

definition bus_add_match :: "'c caller_of \<Rightarrow> string \<Rightarrow> 'c \<Rightarrow> unit result \<times> 'c" where
  "bus_add_match rpc rule c = got_nothing (rpc bus_daemon_iface ''AddMatch'' [str rule] [] c)"

definition bus_remove_match :: "'c caller_of \<Rightarrow> string \<Rightarrow> 'c \<Rightarrow> unit result \<times> 'c" where
  "bus_remove_match rpc rule c = got_nothing (rpc bus_daemon_iface ''RemoveMatch'' [str rule] [] c)"

definition bus_get_id :: "'c caller_of \<Rightarrow> 'c \<Rightarrow> string result \<times> 'c" where
  "bus_get_id rpc c = got_string (rpc bus_daemon_iface ''GetId'' [] [to_string] c)"

section \<open>Properties\<close>

lemma append_args_frame:
  "append_args M args m = (Inr u, m') \<Longrightarrow> m' = m\<lparr>m_sig := m_sig m', m_body := m_body m'\<rparr>"
  by (auto simp: append_args_def split: sum.splits)

lemma atomic_write_buffer:
  assumes "on_wire M p bs"
  shows "atomic_write_message M buffer p c = (Inr (), c\<lparr>c_out := c_out c @ bs\<rparr>)"
proof -
  obtain hdr where h: "header_bytes M p = Inr hdr" "bs = hdr @ m_body p"
    using write_to_buffer [of M p "[]"] assms by (auto simp: on_wire_def)
  then show ?thesis by (simp add: atomic_write_message_def write_to_def buffer_def)
qed

text \<open>
  C25. \<open>Call\<close> writes one message, which the peer reads as the call of that method with those arguments on
  that object, numbered with the next serial; it returns the reply, or for an error reply a Go error
  with its name and text. The connection is left with the serial used and the call forgotten.
\<close>

theorem call_exchange:
  assumes "append_args M args (new_method_call_message (o_dest ob) (o_path ob) iface method) = (Inr (), msg)"
    and "request = msg\<lparr>m_serial := c_serial c + 1\<rparr>" and "on_wire M request bs" and "answer request = Some reply"
  shows "call M buffer answer ob iface method args c =
      (if m_type reply = TypeError
       then Inl (Error (ErrDBus (m_error_name reply) (case first_string reply of Some s \<Rightarrow> s | None \<Rightarrow> [])))
       else Inr reply,
       c\<lparr>c_serial := c_serial c + 1, c_out := c_out c @ bs, c_replies := (c_replies c)(c_serial c + 1 := None)\<rparr>) \<and>
    (\<exists>n0. \<forall>n \<ge> n0. read_message n [Bytes bs] = (Inr request, [])) \<and>
    m_type request = TypeMethodCall \<and> m_dest request = o_dest ob \<and> m_path request = o_path ob \<and>
    m_iface request = iface \<and> m_member request = method"
proof -
  have msg: "m_serial msg = 0" "m_type msg = TypeMethodCall" "m_dest msg = o_dest ob" "m_path msg = o_path ob"
      "m_iface msg = iface" "m_member msg = method"
    by (subst append_args_frame [OF assms(1)]; simp add: new_method_call_message_def new_message_def)+
  have "set_serial (c_serial c + 1) msg = Inr request" using msg(1) by (simp add: set_serial_def assms(2))
  then have "send_with_reply M buffer answer msg c = (Inr reply,
      c\<lparr>c_serial := c_serial c + 1, c_out := c_out c @ bs, c_replies := (c_replies c)(c_serial c + 1 := None)\<rparr>)"
    using msg(2) assms(4) by (simp add: send_with_reply_def next_serial_def atomic_write_buffer [OF assms(3)])
  then have "call M buffer answer ob iface method args c =
      (if m_type reply = TypeError
       then Inl (Error (ErrDBus (m_error_name reply) (case first_string reply of Some s \<Rightarrow> s | None \<Rightarrow> [])))
       else Inr reply,
       c\<lparr>c_serial := c_serial c + 1, c_out := c_out c @ bs, c_replies := (c_replies c)(c_serial c + 1 := None)\<rparr>)"
    by (simp add: call_def assms(1) as_error_total)
  with msg on_wire_read [OF assms(3), of "[]"] show ?thesis by (simp add: assms(2))
qed

theorem call_exchange_witness:
  "\<exists>bs. call (\<lambda>_ _. None) buffer
      (\<lambda>_. Some (new_message\<lparr>m_type := TypeError, m_error_name := ''e.f''\<rparr>))
      \<lparr>o_dest = ''a.b'', o_path = ''/''\<rparr> ''i.f'' ''M'' [str ''x''] (new_connection []) =
    (Inl (Error (ErrDBus ''e.f'' [])), (new_connection bs)\<lparr>c_serial := 1\<rparr>)"
proof -
  let ?ob = "\<lparr>o_dest = ''a.b'', o_path = ''/''\<rparr>" and ?reply = "new_message\<lparr>m_type := TypeError, m_error_name := ''e.f''\<rparr>"
  let ?msg = "(new_method_call_message ''a.b'' ''/'' ''i.f'' ''M'')\<lparr>m_sig := ''s'', m_body := [1, 0, 0, 0, 120, 0]\<rparr>"
  let ?request = "?msg\<lparr>m_serial := 1\<rparr>"
  have p: "append_args (\<lambda>_ _. None) [str ''x''] (new_method_call_message (o_dest ?ob) (o_path ?ob) ''i.f'' ''M'') = (Inr (), ?msg)"
      "case write_to (\<lambda>_ _. None) buffer ?request [] of Inr (k, err, bs) \<Rightarrow> err = None \<and> k = length bs \<and> length bs < 200 | _ \<Rightarrow> False"
      "length (m_sig ?request) < 256" "first_string ?reply = None" "m_type ?reply = TypeError" "m_error_name ?reply = ''e.f''"
    by code_simp+
  have s: "?request = ?msg\<lparr>m_serial := c_serial (new_connection []) + 1\<rparr>" by (simp add: new_connection_def)
  obtain bs where w: "on_wire (\<lambda>_ _. None) ?request bs"
    using p(2,3) by (auto simp: on_wire_def split: sum.splits)
  have "call (\<lambda>_ _. None) buffer (\<lambda>_. Some ?reply) ?ob ''i.f'' ''M'' [str ''x''] (new_connection []) =
      (Inl (Error (ErrDBus ''e.f'' [])), (new_connection bs)\<lparr>c_serial := 1\<rparr>)"
    using call_exchange [OF p(1) s w, of "\<lambda>_. Some ?reply" ?reply] p(4-6)
    by (simp add: new_connection_def fun_upd_idem)
  then show ?thesis by blast
qed

end
