(* ===== verification/Transport.thy ===== *)
theory Transport
  imports GoStrings GoValues
begin

text \<open>
  Server addresses (transport.go): \<open>newTransport\<close>, which takes an address such as
  \<open>unix:path=/run/bus\<close> apart, and the dialling of the transports. \<open>url.QueryUnescape\<close> is modelled;
  files and the network are parameters.
\<close>

section \<open>QueryUnescape\<close>

definition unhex :: "char \<Rightarrow> nat option" where
  "unhex c =
     (let n = of_char c :: nat in
      if 48 \<le> n \<and> n \<le> 57 then Some (n - 48)
      else if 97 \<le> n \<and> n \<le> 102 then Some (n - 97 + 10)
      else if 65 \<le> n \<and> n \<le> 70 then Some (n - 65 + 10)
      else None)"

fun query_unescape :: "string \<Rightarrow> string result" where
  "query_unescape [] = Inr []"
| "query_unescape (c # s) =
     (if c = CHR ''%'' then
        (case s of
           a # b # s' \<Rightarrow>
             (case (unhex a, unhex b) of
                (Some x, Some y) \<Rightarrow> ebind (query_unescape s') (\<lambda>t. Inr (char_of (16 * x + y) # t))
              | _ \<Rightarrow> Inl (Error (ErrEscape (take 3 (c # s)))))
         | _ \<Rightarrow> Inl (Error (ErrEscape (take 3 (c # s)))))
      else ebind (query_unescape s) (\<lambda>t. Inr ((if c = CHR ''+'' then CHR '' '' else c) # t)))"

section \<open>newTransport\<close>

datatype transport =
    UnixTransport string
  | TcpTransport string string
  | NonceTcpTransport string string string

fun parse_options :: "string list \<Rightarrow> (string \<rightharpoonup> string) \<Rightarrow> (string \<rightharpoonup> string) result" where
  "parse_options [] options = Inr options"
| "parse_options (opt # opts) options =
     (let pair = split_n 2 CHR ''='' opt in
      ebind (query_unescape (pair ! 0)) (\<lambda>key.
        if length pair < 2 then Inl (Panic ''index out of range'')
        else ebind (query_unescape (pair ! 1)) (\<lambda>val. parse_options opts (options(key \<mapsto> val)))))"

text \<open>An option that is absent reads as the empty string.\<close>

definition option_or_empty :: "(string \<rightharpoonup> string) \<Rightarrow> string \<Rightarrow> string" where
  "option_or_empty options key = (case options key of None \<Rightarrow> [] | Some v \<Rightarrow> v)"

definition transport_of :: "string \<Rightarrow> (string \<rightharpoonup> string) \<Rightarrow> transport result" where
  "transport_of transportType options =
     (if transportType = ''unix'' then
        (case options ''abstract'' of
           Some name \<Rightarrow> Inr (UnixTransport (''@'' @ name))
         | None \<Rightarrow>
             (case options ''path'' of
                Some path \<Rightarrow> Inr (UnixTransport path)
              | None \<Rightarrow> Inl (Error (ErrNew ''unix transport requires 'path' or 'abstract' options''))))
      else if transportType = ''tcp'' \<or> transportType = ''nonce-tcp'' then
        (let address = option_or_empty options ''host'' @ '':'' @ option_or_empty options ''port'';
             fam = option_or_empty options ''family'' in
         ebind
           (if fam = [] \<or> fam = ''ipv4'' then Inr ''tcp4''
            else if fam = ''ipv6'' then Inr ''tcp6''
            else Inl (Error (ErrNew (''Unknown family for tcp transport: '' @ fam))))
           (\<lambda>family.
             if transportType = ''tcp'' then Inr (TcpTransport address family)
             else Inr (NonceTcpTransport address family (option_or_empty options ''noncefile''))))
      else Inl (Error (ErrNew (''Unhandled transport type '' @ transportType))))"

definition new_transport :: "string \<Rightarrow> transport result" where
  "new_transport address =
     (if address = [] then Inl (Error (ErrNew ''Unknown address type''))
      else case index_of CHR '':'' address of
        None \<Rightarrow> Inl (Panic ''slice bounds out of range'')
      | Some i \<Rightarrow>
          (let transportType = take i address in
           ebind (parse_options (split_on CHR '','' (drop (length transportType + 1) address)) Map.empty)
             (transport_of transportType)))"

section \<open>Dial\<close>

text \<open>
  What the network does is given by three functions: the contents of a file, the outcome of
  \<open>net.Dial\<close>, the outcome of a write. The result comes with what was done.
\<close>

datatype net_event = Dialled string string | Wrote "byte list" | ConnClosed

definition dial_transport ::
  "(string \<Rightarrow> byte list result) \<Rightarrow> (string \<Rightarrow> string \<Rightarrow> unit result) \<Rightarrow> (byte list \<Rightarrow> unit result) \<Rightarrow> transport \<Rightarrow>
     unit result \<times> net_event list" where
  "dial_transport read_file dial conn_write t =
     (case t of
        UnixTransport addr \<Rightarrow> (dial ''unix'' addr, [Dialled ''unix'' addr])
      | TcpTransport addr family \<Rightarrow> (dial family addr, [Dialled family addr])
      | NonceTcpTransport addr family file \<Rightarrow>
          (case read_file file of
             Inl fail \<Rightarrow> (Inl fail, [])
           | Inr data \<Rightarrow>
               (case dial family addr of
                  Inl fail \<Rightarrow> (Inl fail, [Dialled family addr])
                | Inr u \<Rightarrow>
                    (case conn_write data of
                       Inl fail \<Rightarrow> (Inl fail, [Dialled family addr, Wrote data, ConnClosed])
                     | Inr u \<Rightarrow> (Inr (), [Dialled family addr, Wrote data])))))"

section \<open>Writing addresses\<close>

text \<open>\<open>url.QueryEscape\<close>, for the other direction: what \<open>QueryUnescape\<close> undoes.\<close>

definition hex_digit :: "nat \<Rightarrow> char" where
  "hex_digit n = char_of (if n < 10 then 48 + n else 55 + n)"

definition plain_char :: "char \<Rightarrow> bool" where
  "plain_char c =
     (let n = of_char c :: nat in
      48 \<le> n \<and> n \<le> 57 \<or> 65 \<le> n \<and> n \<le> 90 \<or> 97 \<le> n \<and> n \<le> 122 \<or> c \<in> set ''-_.~'')"

fun query_escape :: "string \<Rightarrow> string" where
  "query_escape [] = []"
| "query_escape (c # s) =
     (if plain_char c then c # query_escape s
      else if c = CHR '' '' then CHR ''+'' # query_escape s
      else CHR ''%'' # hex_digit (of_char c div 16) # hex_digit (of_char c mod 16) # query_escape s)"

definition address_of :: "string \<Rightarrow> (string \<times> string) list \<Rightarrow> string" where
  "address_of transportType opts =
     transportType @ '':'' @
     join '','' (map (\<lambda>(k, v). query_escape k @ ''='' @ query_escape v) opts)"

lemma unhex_digit: "n < 16 \<Longrightarrow> unhex (hex_digit n) = Some n"
  by (simp add: unhex_def hex_digit_def of_char_of)

lemma of_char_div_16: "(of_char (c :: char) :: nat) div 16 < 16"
  using nat_of_char_less_256 [of c] by (simp add: less_mult_imp_div_less)

lemma unescape_escape: "query_unescape (query_escape s) = Inr s"
proof (induction s)
  case (Cons c s)
  have code: "char_of (16 * (of_char c div 16) + of_char c mod 16 :: nat) = c" by simp
  consider "plain_char c" | "\<not> plain_char c" "c = CHR '' ''" | "\<not> plain_char c" "c \<noteq> CHR '' ''" by blast
  then show ?case
  proof cases
    case 1
    then have "c \<noteq> CHR ''%''" "c \<noteq> CHR ''+''" by (auto simp: plain_char_def)
    then show ?thesis using 1 Cons.IH by simp
  next
    case 2
    then show ?thesis using Cons.IH by simp
  next
    case 3
    then show ?thesis using Cons.IH code by (simp add: unhex_digit of_char_div_16 del: mult_div_mod_eq)
  qed
qed simp

lemma hex_digit_plain: "n < 16 \<Longrightarrow> plain_char (hex_digit n)"
  by (simp add: plain_char_def hex_digit_def of_char_of Let_def)

lemma escape_chars: "c \<in> set (query_escape s) \<Longrightarrow> plain_char c \<or> c = CHR ''+'' \<or> c = CHR ''%''"
  by (induction s) (auto split: if_splits simp: hex_digit_plain of_char_div_16)

lemma escape_separators:
  "CHR ''='' \<notin> set (query_escape s)" "CHR '','' \<notin> set (query_escape s)"
  using escape_chars [of "CHR ''=''" s] escape_chars [of "CHR '',''" s] by (auto simp: plain_char_def)

lemma parse_options_escaped:
  "parse_options (map (\<lambda>(k, v). query_escape k @ ''='' @ query_escape v) opts) options =
     Inr (options ++ map_of (rev opts))"
proof (induction opts arbitrary: options)
  case (Cons kv opts)
  obtain k v where "kv = (k, v)" by (cases kv)
  then show ?case
    using Cons.IH
    by (simp add: split_n_2 escape_separators unescape_escape Let_def map_add_upd_left [symmetric] fun_upd_def [symmetric] del: fun_upd_apply)
qed simp

section \<open>When parsing panics\<close>

lemma query_unescape_fails: "query_unescape s = Inl f \<Longrightarrow> \<exists>e. f = Error e"
proof (induction s rule: query_unescape.induct)
  case (2 c s)
  show ?case
  proof (cases "c = CHR ''%''")
    case False
    then show ?thesis using "2.prems" "2.IH"(2) by (auto simp: ebind_Inl_iff)
  next
    case True
    then show ?thesis
      using "2.prems" "2.IH"(1) by (auto simp: ebind_Inl_iff split: list.splits option.splits)
  qed
qed simp

text \<open>An option without an equals sign, whose text can be unescaped.\<close>

definition bare_option :: "string \<Rightarrow> bool" where
  "bare_option opt \<longleftrightarrow> CHR ''='' \<notin> set opt \<and> (\<exists>key. query_unescape opt = Inr key)"

lemma split_pair:
  "length (split_n 2 c s) < 2 \<longleftrightarrow> c \<notin> set s"
proof (cases "index_of c s")
  case None
  then show ?thesis using split_n_one [of c s 0] by (simp add: numeral_2_eq_2)
next
  case (Some i)
  moreover from Some have "c \<in> set s" by (metis index_of_None option.distinct(1))
  ultimately show ?thesis by (simp add: numeral_2_eq_2)
qed

lemma split_pair_first: "c \<notin> set s \<Longrightarrow> split_n 2 c s ! 0 = s"
  using split_n_one [of c s 0] by (simp add: numeral_2_eq_2)

lemma parse_options_panics:
  "(\<exists>msg. parse_options opts options = Inl (Panic msg)) \<longleftrightarrow>
     (\<exists>pre opt post. opts = pre @ opt # post \<and> (\<exists>m. parse_options pre options = Inr m) \<and> bare_option opt)"
proof (induction opts arbitrary: options)
  case (Cons opt opts)
  let ?key = "query_unescape (split_n 2 CHR ''='' opt ! 0)" and ?val = "query_unescape (split_n 2 CHR ''='' opt ! 1)"
  have split: "(\<exists>pre o' post. opt # opts = pre @ o' # post \<and> P pre \<and> Q o') \<longleftrightarrow>
      (P [] \<and> Q opt) \<or> (\<exists>pre o' post. opts = pre @ o' # post \<and> P (opt # pre) \<and> Q o')" for P Q
    by (auto simp: Cons_eq_append_conv)
  show ?case
  proof (cases "bare_option opt")
    case True
    then obtain key where "split_n 2 CHR ''='' opt ! 0 = opt" "query_unescape opt = Inr key" "CHR ''='' \<notin> set opt"
      by (auto simp: bare_option_def split_pair_first)
    then have "parse_options (opt # opts) options = Inl (Panic ''index out of range'')"
      by (simp add: Let_def split_pair)
    then show ?thesis unfolding split using True by auto
  next
    case bare: False
    show ?thesis
    proof (cases ?key)
      case (Inl f)
      then show ?thesis
        unfolding split using bare query_unescape_fails [OF Inl] by (auto simp: Let_def)
    next
      case key: (Inr key)
      then have two: "\<not> length (split_n 2 CHR ''='' opt) < 2"
        using bare by (metis bare_option_def split_pair split_pair_first)
      show ?thesis
      proof (cases ?val)
        case (Inl f)
        then show ?thesis
          unfolding split using bare two key query_unescape_fails [OF Inl] by (auto simp: Let_def)
      next
        case (Inr val)
        then show ?thesis
          unfolding split using bare two key by (simp add: Let_def Cons.IH del: fun_upd_apply)
      qed
    qed
  qed
qed simp

lemma transport_of_no_panic: "transport_of t options \<noteq> Inl (Panic msg)"
  by (auto simp: transport_of_def Let_def ebind_Inl_iff split: option.splits)

section \<open>Properties\<close>

text \<open>
  C27. An address that is written with escaped keys and values is parsed into the transport of its type and
  options: no character of a path or a host name is misread, and of two options with the same key the
  last one counts.
\<close>

theorem address_round_trip:
  assumes "CHR '':'' \<notin> set transportType" and "opts \<noteq> []"
  shows "new_transport (address_of transportType opts) = transport_of transportType (map_of (rev opts))"
proof -
  have "split_on CHR '','' (join '','' (map (\<lambda>(k, v). query_escape k @ ''='' @ query_escape v) opts)) =
      map (\<lambda>(k, v). query_escape k @ ''='' @ query_escape v) opts"
    using assms(2) by (intro split_join) (auto simp: escape_separators)
  then show ?thesis
    using assms(1) parse_options_escaped [of opts Map.empty]
    by (simp add: new_transport_def address_of_def index_of_append Let_def)
qed

theorem address_round_trip_witness:
  "new_transport (address_of ''unix'' [(''path'', ''/a b,c=%'')]) = Inr (UnixTransport ''/a b,c=%'') \<and>
   address_of ''unix'' [(''path'', ''/a b,c=%'')] = ''unix:path=%2Fa+b%2Cc%3D%25''"
proof
  have p: "CHR '':'' \<notin> set ''unix''" "[(''path'', ''/a b,c=%'')] \<noteq> []"
      "transport_of ''unix'' (map_of (rev [(''path'', ''/a b,c=%'')])) = Inr (UnixTransport ''/a b,c=%'')"
    by code_simp+
  then show "new_transport (address_of ''unix'' [(''path'', ''/a b,c=%'')]) = Inr (UnixTransport ''/a b,c=%'')"
    using address_round_trip [OF p(1,2)] by (simp only:)
  show "address_of ''unix'' [(''path'', ''/a b,c=%'')] = ''unix:path=%2Fa+b%2Cc%3D%25''" by code_simp
qed



end
