(* ===== verification/Auth.thy ===== *)
theory Auth
  imports GoStrings WireFormat
begin

text \<open>
  Authentication (auth.go): the two mechanisms and the dialogue with the server.

  The connection is what the server will send, line by line, and what has been written; the rest of
  the environment (user, home directory, files, random bytes) is a record of parameters. SHA-1 and
  the functions of \<open>encoding/hex\<close> and \<open>strconv\<close> are modelled.
\<close>

unbundle bit_operations_syntax

section \<open>Hexadecimal and decimal digits\<close>

definition hex_char :: "nat \<Rightarrow> byte" where
  "hex_char n = (if n < 10 then of_nat (48 + n) else of_nat (87 + n))"

fun hex_encode :: "byte list \<Rightarrow> byte list" where
  "hex_encode [] = []"
| "hex_encode (b # bs) = hex_char (unat b div 16) # hex_char (unat b mod 16) # hex_encode bs"

definition hex_value :: "byte \<Rightarrow> nat option" where
  "hex_value b =
     (let n = unat b in
      if 48 \<le> n \<and> n \<le> 57 then Some (n - 48)
      else if 97 \<le> n \<and> n \<le> 102 then Some (n - 87)
      else if 65 \<le> n \<and> n \<le> 70 then Some (n - 55)
      else None)"

fun hex_decode :: "byte list \<Rightarrow> byte list result" where
  "hex_decode [] = Inr []"
| "hex_decode [a] =
     (case hex_value a of None \<Rightarrow> Inl (Error (ErrHexByte (char_of_byte a))) | Some x \<Rightarrow> Inl (Error ErrHexLength))"
| "hex_decode (a # b # bs) =
     (case hex_value a of
        None \<Rightarrow> Inl (Error (ErrHexByte (char_of_byte a)))
      | Some x \<Rightarrow>
          (case hex_value b of
             None \<Rightarrow> Inl (Error (ErrHexByte (char_of_byte b)))
           | Some y \<Rightarrow> ebind (hex_decode bs) (\<lambda>ds. Inr (of_nat (16 * x + y) # ds))))"

fun decimal :: "nat \<Rightarrow> string" where
  "decimal n = (if n < 10 then [char_of (48 + n)] else decimal (n div 10) @ [char_of (48 + n mod 10)])"

declare decimal.simps [simp del]

definition itoa :: "int \<Rightarrow> string" where
  "itoa i = (if i < 0 then CHR ''-'' # decimal (nat (- i)) else decimal (nat i))"

section \<open>SHA-1\<close>

text \<open>\<open>sha1.New\<close>, \<open>Write\<close> and \<open>Sum\<close>, which are called once each: the digest of a byte slice.\<close>

definition be_word :: "byte list \<Rightarrow> 32 word" where
  "be_word bs = get_word BigEndian bs"

definition be_bytes :: "32 word \<Rightarrow> byte list" where
  "be_bytes w = put_word BigEndian 4 w"

definition sha1_pad :: "byte list \<Rightarrow> byte list" where
  "sha1_pad m =
     m @ [0x80] @ replicate (padlen 64 (length m + 9)) 0 @ put_word BigEndian 8 (of_nat (8 * length m) :: 64 word)"

fun chunks :: "nat \<Rightarrow> nat \<Rightarrow> 'a list \<Rightarrow> 'a list list" where
  "chunks 0 k xs = []"
| "chunks (Suc n) k xs = take k xs # chunks n k (drop k xs)"

fun sha1_schedule :: "nat \<Rightarrow> 32 word list \<Rightarrow> 32 word list" where
  "sha1_schedule 0 ws = ws"
| "sha1_schedule (Suc n) ws =
     (let t = length ws in
      sha1_schedule n (ws @ [word_rotl 1 (ws ! (t - 3) XOR ws ! (t - 8) XOR ws ! (t - 14) XOR ws ! (t - 16))]))"

type_synonym sha1_state = "32 word \<times> 32 word \<times> 32 word \<times> 32 word \<times> 32 word"

definition sha1_f :: "nat \<Rightarrow> 32 word \<Rightarrow> 32 word \<Rightarrow> 32 word \<Rightarrow> 32 word" where
  "sha1_f t b c d =
     (if t < 20 then (b AND c) OR (NOT b AND d)
      else if t < 40 then b XOR c XOR d
      else if t < 60 then (b AND c) OR (b AND d) OR (c AND d)
      else b XOR c XOR d)"

definition sha1_k :: "nat \<Rightarrow> 32 word" where
  "sha1_k t = (if t < 20 then 0x5A827999 else if t < 40 then 0x6ED9EBA1 else if t < 60 then 0x8F1BBCDC else 0xCA62C1D6)"

fun sha1_rounds :: "nat \<Rightarrow> 32 word list \<Rightarrow> sha1_state \<Rightarrow> sha1_state" where
  "sha1_rounds t [] st = st"
| "sha1_rounds t (w # ws) (a, b, c, d, e) =
     sha1_rounds (t + 1) ws (word_rotl 5 a + sha1_f t b c d + e + w + sha1_k t, a, word_rotl 30 b, c, d)"

definition sha1_block :: "sha1_state \<Rightarrow> byte list \<Rightarrow> sha1_state" where
  "sha1_block st block =
     (case (st, sha1_rounds 0 (sha1_schedule 64 (map be_word (chunks 16 4 block))) st) of
        ((a, b, c, d, e), (a', b', c', d', e')) \<Rightarrow> (a + a', b + b', c + c', d + d', e + e'))"

definition sha1 :: "byte list \<Rightarrow> byte list" where
  "sha1 m =
     (let p = sha1_pad m in
      case foldl sha1_block (0x67452301, 0xEFCDAB89, 0x98BADCFE, 0x10325476, 0xC3D2E1F0)
          (chunks (length p div 64) 64 p) of
        (a, b, c, d, e) \<Rightarrow> be_bytes a @ be_bytes b @ be_bytes c @ be_bytes d @ be_bytes e)"

section \<open>The mechanisms\<close>

text \<open>
  The environment: the effective user id, the variables \<open>USER\<close> and \<open>HOME\<close>, and for a file name the
  lines of the file with the error that ends the reading, \<open>None\<close> for end of file.
\<close>

record auth_env =
  v_uid :: int
  v_user :: string
  v_home :: string
  v_file :: "string \<Rightarrow> (byte list list \<times> go_error option) result"

datatype authenticator = External | CookieSha1

definition mechanism :: "authenticator \<Rightarrow> byte list" where
  "mechanism a = bytes_of (case a of External \<Rightarrow> ''EXTERNAL'' | CookieSha1 \<Rightarrow> ''DBUS_COOKIE_SHA1'')"

definition initial_response :: "auth_env \<Rightarrow> authenticator \<Rightarrow> byte list" where
  "initial_response env a =
     hex_encode (bytes_of (case a of External \<Rightarrow> itoa (v_uid env) | CookieSha1 \<Rightarrow> v_user env))"

abbreviation space :: byte where
  "space \<equiv> 32"

abbreviation index_panic :: "'a result" where
  "index_panic \<equiv> Inl (Panic ''index out of range'')"

fun find_cookie :: "byte list list \<Rightarrow> byte list list \<Rightarrow> go_error option \<Rightarrow> byte list result" where
  "find_cookie tokens [] ending =
     Inl (Error (case ending of None \<Rightarrow> ErrNew ''SHA1 Cookie not found'' | Some e \<Rightarrow> e))"
| "find_cookie tokens (line # lines) ending =
     (let cookieTokens = split_n 3 space line in
      if length tokens < 2 then index_panic
      else if cookieTokens ! 0 = tokens ! 1 then
        (if length cookieTokens < 3 then index_panic else Inr (cookieTokens ! 2))
      else find_cookie tokens lines ending)"

text \<open>
  Random bytes come from a supply that may run out, which is the error of \<open>rand.Read\<close>. Each blank of
  the challenge is drawn again until it is none.
\<close>

definition rand_read :: "nat \<Rightarrow> byte list \<Rightarrow> (byte list \<times> byte list) result" where
  "rand_read k rs =
     (if length rs < k then Inl (Error (ErrIO ''random'')) else Inr (take k rs, drop k rs))"

definition blank :: "byte \<Rightarrow> bool" where
  "blank b \<longleftrightarrow> b = 32 \<or> b = 9"

function redraw :: "byte list \<Rightarrow> byte list \<Rightarrow> (byte list \<times> byte list) result" where
  "redraw [] rs = Inr ([], rs)"
| "redraw (x # xs) rs =
     (if blank x then
        (case rs of
           [] \<Rightarrow> Inl (Error (ErrIO ''random''))
         | r # rs' \<Rightarrow> redraw (r # xs) rs')
      else ebind (redraw xs rs) (\<lambda>(ys, rs'). Inr (x # ys, rs')))"
  by pat_completeness auto
termination
  by (relation "measures [\<lambda>(xs, rs). length rs + length xs, \<lambda>(xs, rs). length xs]") auto

declare redraw.simps [simp del]

text \<open>\<open>ProcessData\<close>, with the random supply before and after.\<close>

definition process_data :: "auth_env \<Rightarrow> authenticator \<Rightarrow> byte list \<Rightarrow> byte list \<Rightarrow> (byte list \<times> byte list) result" where
  "process_data env a mesg rs =
     (case a of
        External \<Rightarrow> Inl (Error (ErrNew ''Unexpected Response''))
      | CookieSha1 \<Rightarrow>
          ebind (hex_decode mesg) (\<lambda>decoded.
          let tokens = split_n 3 space decoded in
          ebind (v_file env (v_home env @ ''/.dbus-keyrings/'' @ string_of (tokens ! 0))) (\<lambda>(lines, ending).
          ebind (find_cookie tokens lines ending) (\<lambda>cookie.
          if length tokens < 3 then index_panic
          else
            ebind (rand_read (length (tokens ! 2)) rs) (\<lambda>(drawn, rs1).
            ebind (redraw drawn rs1) (\<lambda>(challenge, rs2).
              let hash = sha1 (join (bytes_of '':'') [tokens ! 2, challenge, cookie]) in
              Inr (hex_encode (join [space] [challenge, hex_encode hash]), rs2)))))))"

section \<open>The dialogue\<close>

datatype line = Line "byte list" | LongLine | LineErr string

record auth_io =
  i_lines :: "line list"
  i_sent :: "byte list list"
  i_fail :: "nat option"
  i_rand :: "byte list"

text \<open>\<open>i_fail\<close> says how many writes are still accepted, \<open>None\<close> for all.\<close>

definition io_write :: "byte list \<Rightarrow> auth_io \<Rightarrow> unit result \<times> auth_io" where
  "io_write bs io =
     (case i_fail io of
        Some 0 \<Rightarrow> (Inl (Error (ErrIO ''write'')), io)
      | Some (Suc n) \<Rightarrow> (Inr (), io\<lparr>i_sent := i_sent io @ [bs], i_fail := Some n\<rparr>)
      | None \<Rightarrow> (Inr (), io\<lparr>i_sent := i_sent io @ [bs]\<rparr>))"

definition crlf :: "byte list" where
  "crlf = [13, 10]"

definition auth_send :: "byte list list \<Rightarrow> auth_io \<Rightarrow> byte list list result \<times> auth_io" where
  "auth_send command io =
     (case io_write (join [space] command @ crlf) io of
        (Inl fail, io1) \<Rightarrow> (Inl fail, io1)
      | (Inr u, io1) \<Rightarrow>
          (case i_lines io1 of
             [] \<Rightarrow> (Inl (Error ErrEOF), io1)
           | LineErr s # ls \<Rightarrow> (Inl (Error (ErrIO s)), io1\<lparr>i_lines := ls\<rparr>)
           | LongLine # ls \<Rightarrow> (Inl (Error (ErrNew ''Received line is too long'')), io1\<lparr>i_lines := ls\<rparr>)
           | Line bs # ls \<Rightarrow> (Inr (split_on space bs), io1\<lparr>i_lines := ls\<rparr>)))"

lemma auth_send_lines:
  "auth_send command io = (Inr reply, io') \<Longrightarrow> length (i_lines io) = Suc (length (i_lines io'))"
  by (auto simp: auth_send_def io_write_def split: option.splits nat.splits list.splits line.splits)

lemma auth_send_measure:
  "(case auth_send command io of (Inl x, io') \<Rightarrow> 0 | (Inr x, io') \<Rightarrow> Suc (length (i_lines io'))) <
     Suc (length (i_lines io))"
  "(case auth_send command (io\<lparr>i_rand := rs\<rparr>) of (Inl x, io') \<Rightarrow> 0 | (Inr x, io') \<Rightarrow> Suc (length (i_lines io'))) <
     Suc (length (i_lines io))"
  using auth_send_lines [of command io] auth_send_lines [of command "io\<lparr>i_rand := rs\<rparr>"]
  by (auto split: sum.split prod.split)

text \<open>
  The loop for one mechanism: it ends with an error, or says whether the server accepted. Every
  further round has taken one line from the server.
\<close>

function auth_loop :: "auth_env \<Rightarrow> authenticator \<Rightarrow> byte list list result \<Rightarrow> auth_io \<Rightarrow> bool result \<times> auth_io" where
  "auth_loop env a (Inl fail) io = (Inl fail, io)"
| "auth_loop env a (Inr reply) io =
     (if reply = [] then (Inl (Error (ErrNew ''No response command from server'')), io)
      else if reply ! 0 = bytes_of ''OK'' then (Inr True, io)
      else if reply ! 0 = bytes_of ''REJECTED'' then (Inr False, io)
      else if reply ! 0 = bytes_of ''ERROR'' then
        (Inl (Error (ErrNew (''Received error from server: '' @ string_of (join [space] reply)))), io)
      else if reply ! 0 = bytes_of ''DATA'' then
        (if length reply < 2 then (index_panic, io)
         else (case process_data env a (reply ! 1) (i_rand io) of
                 Inr (response, rs) \<Rightarrow>
                   (let (reply', io') = auth_send [bytes_of ''DATA'', response] (io\<lparr>i_rand := rs\<rparr>)
                    in auth_loop env a reply' io')
               | Inl (Error e) \<Rightarrow>
                   (let (reply', io') = auth_send [bytes_of ''CANCEL''] io
                    in auth_loop env a reply' io')
               | Inl fail \<Rightarrow> (Inl fail, io)))
      else (Inl (Error (ErrNew (''Unknown response from server: '' @ string_of (join [space] reply)))), io))"
  by pat_completeness auto
termination
  by (relation "measure (\<lambda>(env, a, reply, io). case reply of Inl _ \<Rightarrow> 0 | Inr _ \<Rightarrow> Suc (length (i_lines io)))")
    (auto simp: auth_send_measure)

fun try_auths :: "auth_env \<Rightarrow> authenticator list \<Rightarrow> auth_io \<Rightarrow> bool result \<times> auth_io" where
  "try_auths env [] io = (Inr False, io)"
| "try_auths env (a # as) io =
     (let (reply, io1) = auth_send [bytes_of ''AUTH'', mechanism a, initial_response env a] io in
      case auth_loop env a reply io1 of
        (Inl fail, io2) \<Rightarrow> (Inl fail, io2)
      | (Inr True, io2) \<Rightarrow> (Inr True, io2)
      | (Inr False, io2) \<Rightarrow> try_auths env as io2)"

definition authenticate :: "auth_env \<Rightarrow> authenticator list option \<Rightarrow> auth_io \<Rightarrow> unit result \<times> auth_io" where
  "authenticate env auths io =
     (let authenticators = (case auths of None \<Rightarrow> [External, CookieSha1] | Some as \<Rightarrow> as) in
      case io_write [0] io of
        (Inl fail, io1) \<Rightarrow> (Inl fail, io1)
      | (Inr u, io1) \<Rightarrow>
          (case try_auths env authenticators io1 of
             (Inl fail, io2) \<Rightarrow> (Inl fail, io2)
           | (Inr success, io2) \<Rightarrow>
               if \<not> success then (Inl (Error (ErrNew ''Could not authenticate with any mechanism'')), io2)
               else io_write (bytes_of ''BEGIN'' @ crlf) io2))"

section \<open>Lemmas\<close>

lemma hex_value_char:
  assumes "n < 16"
  shows "hex_value (hex_char n) = Some n"
proof -
  have "unat (hex_char n) = (if n < 10 then 48 + n else 87 + n)"
    using assms by (simp add: hex_char_def unat_of_nat del: of_nat_add)
  then show ?thesis using assms by (simp add: hex_value_def Let_def)
qed

lemma hex_decode_encode: "hex_decode (hex_encode bs) = Inr bs"
proof (induction bs)
  case (Cons b bs)
  have "unat b < 256" using unsigned_less [of b] by simp
  then have "unat b div 16 < 16" by (simp add: less_mult_imp_div_less)
  moreover have "of_nat (16 * (unat b div 16) + unat b mod 16) = b"
    by (simp only: mult_div_mod_eq of_nat_unat ucast_id)
  ultimately show ?case using Cons.IH by (simp add: hex_value_char del: mult_div_mod_eq of_nat_add of_nat_mult)
qed simp

lemma redraw_spec:
  "redraw xs rs = Inr (ys, rs') \<Longrightarrow> length ys = length xs \<and> (\<forall>y \<in> set ys. \<not> blank y)"
proof (induction xs rs arbitrary: ys rs' rule: redraw.induct)
  case (2 x xs rs)
  show ?case
  proof (cases "blank x")
    case True
    with "2.prems" obtain r rs1 where r: "rs = r # rs1" "redraw (r # xs) rs1 = Inr (ys, rs')"
      by (cases rs) (simp_all add: redraw.simps(2) [of x])
    from "2.IH"(1) [OF True r] show ?thesis by simp
  next
    case False
    with "2.prems" obtain zs where "redraw xs rs = Inr (zs, rs')" "ys = x # zs"
      by (auto simp: ebind_Inr_iff redraw.simps(2) [of x])
    with "2.IH"(2) [OF False this(1)] False show ?thesis by simp
  qed
qed (simp add: redraw.simps)

section \<open>What is said\<close>

text \<open>
  From \<open>io\<close> to \<open>io'\<close> the lines \<open>pre\<close> were read and messages written none of which is \<open>BEGIN\<close>: no
  command but that one has its first letter.
\<close>

definition proceeds :: "auth_io \<Rightarrow> line list \<Rightarrow> auth_io \<Rightarrow> bool" where
  "proceeds io pre io' \<longleftrightarrow> i_lines io = pre @ i_lines io' \<and>
     (\<exists>mid. i_sent io' = i_sent io @ mid \<and> (\<forall>m \<in> set mid. m ! 0 \<noteq> byte_of_char CHR ''B''))"

lemma proceeds_refl [simp]: "proceeds io [] io"
  by (simp add: proceeds_def)

lemma proceeds_rand [simp]: "proceeds (io\<lparr>i_rand := rs\<rparr>) pre io' = proceeds io pre io'"
  by (simp add: proceeds_def)

lemma proceeds_trans: "proceeds io pre io' \<Longrightarrow> proceeds io' pre' io'' \<Longrightarrow> proceeds io (pre @ pre') io''"
proof -
  assume a: "proceeds io pre io'" "proceeds io' pre' io''"
  then obtain mid mid' where "i_sent io' = i_sent io @ mid" "i_sent io'' = i_sent io' @ mid'"
      "\<forall>m \<in> set (mid @ mid'). m ! 0 \<noteq> byte_of_char CHR ''B''"
    unfolding proceeds_def set_append by blast
  then show ?thesis using a unfolding proceeds_def by (intro conjI exI [of _ "mid @ mid'"]) simp_all
qed

lemma io_write_cases:
  "io_write bs io = (r, io') \<Longrightarrow> i_lines io' = i_lines io \<and>
     ((\<exists>f. r = Inl f) \<and> i_sent io' = i_sent io \<or> r = Inr () \<and> i_sent io' = i_sent io @ [bs])"
  by (auto simp: io_write_def split: option.splits nat.splits)

lemma auth_send_proceeds:
  assumes "auth_send (c # cs) io = (reply, io')" and "c \<noteq> []" and "c ! 0 \<noteq> byte_of_char CHR ''B''"
  shows "\<exists>pre. proceeds io pre io' \<and> (\<forall>w. reply = Inr w \<longrightarrow> (\<exists>bs. pre = [Line bs] \<and> w = split_on space bs))"
proof -
  define m where "m = join [space] (c # cs) @ crlf"
  have m: "m ! 0 \<noteq> byte_of_char CHR ''B''" using assms(2,3) by (cases cs; cases c) (simp_all add: m_def)
  obtain r io1 where w: "io_write m io = (r, io1)" by (cases "io_write m io")
  note c = io_write_cases [OF w]
  show ?thesis
  proof (cases r)
    case (Inl f)
    then show ?thesis using assms(1) w c by (auto simp: auth_send_def m_def [symmetric] proceeds_def)
  next
    case (Inr u)
    then have c: "i_lines io1 = i_lines io" "i_sent io1 = i_sent io @ [m]" using c by auto
    show ?thesis
      using assms(1) w Inr c m
      by (auto simp: auth_send_def m_def [symmetric] proceeds_def split: list.splits line.splits)
  qed
qed

text \<open>A reply that accepts, and the line it was on.\<close>

definition accepting :: "line \<Rightarrow> bool" where
  "accepting l \<longleftrightarrow> (\<exists>bs. l = Line bs \<and> split_on space bs ! 0 = bytes_of ''OK'')"

lemma auth_loop_proceeds:
  "auth_loop env a reply io = (r, io') \<Longrightarrow>
     \<exists>pre. proceeds io pre io' \<and> (r = Inr True \<longrightarrow>
       pre = [] \<and> (\<exists>w. reply = Inr w \<and> w ! 0 = bytes_of ''OK'') \<or> pre \<noteq> [] \<and> accepting (last pre))"
proof (induction env a reply io rule: auth_loop.induct)
  case (1 env a fail io)
  then show ?case by (intro exI [of _ "[]"]) auto
next
  case (2 env a reply io)
  have chain: ?case if s: "auth_send (c # cs) io0 = (reply', io1)" "c \<noteq> []" "c ! 0 \<noteq> byte_of_char CHR ''B''"
      and l: "\<exists>pre. proceeds io1 pre io' \<and> (r = Inr True \<longrightarrow>
        pre = [] \<and> (\<exists>w. reply' = Inr w \<and> w ! 0 = bytes_of ''OK'') \<or> pre \<noteq> [] \<and> accepting (last pre))"
      and io0: "\<And>pre io'. proceeds io0 pre io' = proceeds io pre io'"
    for c cs io0 reply' io1
  proof -
    obtain pre where p: "proceeds io pre io1" "\<forall>w. reply' = Inr w \<longrightarrow> (\<exists>bs. pre = [Line bs] \<and> w = split_on space bs)"
      using auth_send_proceeds [OF s] unfolding io0 by metis
    obtain pre' where q: "proceeds io1 pre' io'" "r = Inr True \<longrightarrow>
        pre' = [] \<and> (\<exists>w. reply' = Inr w \<and> w ! 0 = bytes_of ''OK'') \<or> pre' \<noteq> [] \<and> accepting (last pre')"
      using l by blast
    have "r = Inr True \<longrightarrow> pre @ pre' \<noteq> [] \<and> accepting (last (pre @ pre'))"
      using p(2) q(2) by (auto simp: accepting_def)
    with proceeds_trans [OF p(1) q(1)] show ?case by blast
  qed
  show ?case
  proof (cases "reply \<noteq> [] \<and> reply ! 0 = bytes_of ''DATA'' \<and> 2 \<le> length reply")
    case False
    then have "io' = io" "r = Inr True \<longrightarrow> reply ! 0 = bytes_of ''OK''"
      using "2.prems" by (auto split: if_splits)
    then show ?thesis using proceeds_refl by blast
  next
    case True
    then have d: "reply \<noteq> []" "reply ! 0 \<noteq> bytes_of ''OK''" "reply ! 0 \<noteq> bytes_of ''REJECTED''"
        "reply ! 0 \<noteq> bytes_of ''ERROR''" "reply ! 0 = bytes_of ''DATA''" "\<not> length reply < 2"
      by (simp_all add: bytes_of_inj)
    have b: "bytes_of ''DATA'' ! 0 \<noteq> byte_of_char CHR ''B''" "bytes_of ''CANCEL'' ! 0 \<noteq> byte_of_char CHR ''B''"
      by code_simp+
    show ?thesis
    proof (cases "process_data env a (reply ! 1) (i_rand io)")
      case (Inr x)
      obtain response rs where x: "x = (response, rs)" by (cases x)
      obtain reply' io1 where s: "auth_send [bytes_of ''DATA'', response] (io\<lparr>i_rand := rs\<rparr>) = (reply', io1)"
        by (cases "auth_send [bytes_of ''DATA'', response] (io\<lparr>i_rand := rs\<rparr>)")
      have "auth_loop env a reply' io1 = (r, io')" using "2.prems" d Inr x s by simp
      from "2.IH"(2) [OF d Inr x [symmetric] refl s [symmetric] this] show ?thesis
        by (intro chain [OF s _ b(1)]) (simp_all add: bytes_of_def)
    next
      case (Inl f)
      show ?thesis
      proof (cases "\<exists>e. f = Error e")
        case True
        then obtain e where e: "f = Error e" by blast
        obtain reply' io1 where s: "auth_send [bytes_of ''CANCEL''] io = (reply', io1)"
          by (cases "auth_send [bytes_of ''CANCEL''] io")
        have "auth_loop env a reply' io1 = (r, io')" using "2.prems" d Inl e s by simp
        from "2.IH"(1) [OF d Inl e refl s [symmetric] this] show ?thesis
          by (intro chain [OF s _ b(2)]) (simp_all add: bytes_of_def)
      next
        case False
        then have "io' = io" "r = Inl f" using "2.prems" d Inl by (cases f; simp)+
        then show ?thesis using proceeds_refl by blast
      qed
    qed
  qed
qed

lemma try_auths_proceeds:
  "try_auths env as io = (r, io') \<Longrightarrow>
     \<exists>pre. proceeds io pre io' \<and> (r = Inr True \<longrightarrow> pre \<noteq> [] \<and> accepting (last pre))"
proof (induction as arbitrary: io)
  case Nil
  then show ?case by (intro exI [of _ "[]"]) auto
next
  case (Cons a as)
  obtain reply io1 where s: "auth_send [bytes_of ''AUTH'', mechanism a, initial_response env a] io = (reply, io1)"
    by (cases "auth_send [bytes_of ''AUTH'', mechanism a, initial_response env a] io")
  obtain r2 io2 where l: "auth_loop env a reply io1 = (r2, io2)" by (cases "auth_loop env a reply io1")
  have "bytes_of ''AUTH'' \<noteq> []" "bytes_of ''AUTH'' ! 0 \<noteq> byte_of_char CHR ''B''" by code_simp+
  from auth_send_proceeds [OF s this] obtain pre1 where p1: "proceeds io pre1 io1"
      "\<forall>w. reply = Inr w \<longrightarrow> (\<exists>bs. pre1 = [Line bs] \<and> w = split_on space bs)" by metis
  from auth_loop_proceeds [OF l] obtain pre2 where p2: "proceeds io1 pre2 io2" "r2 = Inr True \<longrightarrow>
      pre2 = [] \<and> (\<exists>w. reply = Inr w \<and> w ! 0 = bytes_of ''OK'') \<or> pre2 \<noteq> [] \<and> accepting (last pre2)" by blast
  note p = proceeds_trans [OF p1(1) p2(1)]
  show ?case
  proof (cases "r2 = Inr False")
    case True
    then have "try_auths env as io2 = (r, io')" using Cons.prems s l by simp
    from Cons.IH [OF this] obtain pre3 where "proceeds io2 pre3 io'" "r = Inr True \<longrightarrow> pre3 \<noteq> [] \<and> accepting (last pre3)"
      by blast
    with proceeds_trans [OF p this(1)] show ?thesis by (intro exI [of _ "(pre1 @ pre2) @ pre3"]) simp
  next
    case False
    then have "r = r2" "io' = io2" using Cons.prems s l by (auto split: sum.splits bool.splits)
    moreover have "r2 = Inr True \<longrightarrow> pre1 @ pre2 \<noteq> [] \<and> accepting (last (pre1 @ pre2))"
      using p1(2) p2(2) by (auto simp: accepting_def)
    ultimately show ?thesis using p by blast
  qed
qed

lemma authenticate_ok:
  assumes "authenticate env auths io = (Inr (), io')"
  shows "\<exists>read mid bs. i_lines io = read @ Line bs # i_lines io' \<and> split_on space bs ! 0 = bytes_of ''OK'' \<and>
    i_sent io' = i_sent io @ [[0]] @ mid @ [bytes_of ''BEGIN'' @ crlf] \<and> bytes_of ''BEGIN'' @ crlf \<notin> set mid"
proof -
  define as where "as = (case auths of None \<Rightarrow> [External, CookieSha1] | Some as \<Rightarrow> as)"
  obtain r1 io1 where w1: "io_write [0] io = (r1, io1)" by (cases "io_write [0] io")
  obtain r2 io2 where t: "try_auths env as io1 = (r2, io2)" by (cases "try_auths env as io1")
  have r: "r1 = Inr ()" "r2 = Inr True" "io_write (bytes_of ''BEGIN'' @ crlf) io2 = (Inr (), io')"
    using assms w1 t by (auto simp: authenticate_def as_def [symmetric] split: sum.splits if_splits)
  obtain pre where p: "proceeds io1 pre io2" "pre \<noteq> []" "accepting (last pre)"
    using try_auths_proceeds [OF t] r(2) by blast
  obtain bs where bs: "last pre = Line bs" "split_on space bs ! 0 = bytes_of ''OK''"
    using p(3) by (auto simp: accepting_def)
  obtain mid where mid: "i_sent io2 = i_sent io1 @ mid" "\<forall>m \<in> set mid. m ! 0 \<noteq> byte_of_char CHR ''B''"
    using p(1) by (auto simp: proceeds_def)
  have "bytes_of ''BEGIN'' @ crlf \<notin> set mid"
    using mid(2) by (auto simp: bytes_of_def)
  moreover have "i_lines io = butlast pre @ Line bs # i_lines io'"
    using p(1,2) bs(1) io_write_cases [OF w1] io_write_cases [OF r(3)] append_butlast_last_id [OF p(2)]
    by (simp add: proceeds_def)
  moreover have "i_sent io' = i_sent io @ [[0]] @ mid @ [bytes_of ''BEGIN'' @ crlf]"
    using io_write_cases [OF w1] io_write_cases [OF r(3)] r(1) mid(1) by simp
  ultimately show ?thesis using bs(2) by blast
qed

section \<open>Properties\<close>

text \<open>
  C12. Authentication succeeds only if the server accepts: the last line that was read begins with \<open>OK\<close>. Of
  what is written, the zero byte comes first and the line \<open>BEGIN\<close> last, and only there, so that the
  message protocol does not start before.
\<close>

theorem authenticated_after_ok:
  assumes "authenticate env auths io = (Inr (), io')"
  shows "\<exists>read mid bs. i_lines io = read @ Line bs # i_lines io' \<and> split_on space bs ! 0 = bytes_of ''OK'' \<and>
    i_sent io' = i_sent io @ [[0]] @ mid @ [bytes_of ''BEGIN'' @ crlf] \<and> bytes_of ''BEGIN'' @ crlf \<notin> set mid"
  by (rule authenticate_ok [OF assms])

definition an_env :: auth_env where
  "an_env = \<lparr>v_uid = 1000, v_user = ''me'', v_home = ''/h'', v_file = (\<lambda>name.
     if name = ''/h/.dbus-keyrings/c'' then Inr ([bytes_of ''7 0 ab'', bytes_of ''8 0 cd''], None)
     else Inl (Error (ErrIO ''open'')))\<rparr>"

theorem authenticated_after_ok_witness:
  "\<exists>mid. i_sent (snd (authenticate an_env None
       \<lparr>i_lines = [Line (bytes_of ''REJECTED''), Line (bytes_of ''OK 0123'')], i_sent = [], i_fail = None, i_rand = []\<rparr>)) =
     [[0]] @ mid @ [bytes_of ''BEGIN'' @ crlf] \<and> length mid = 2 \<and> bytes_of ''BEGIN'' @ crlf \<notin> set mid"
proof -
  let ?io = "\<lparr>i_lines = [Line (bytes_of ''REJECTED''), Line (bytes_of ''OK 0123'')], i_sent = [], i_fail = None, i_rand = []\<rparr> :: auth_io"
  have "fst (authenticate an_env None ?io) = Inr ()" "length (i_sent (snd (authenticate an_env None ?io))) = 4"
    by code_simp+
  then obtain io' where a: "authenticate an_env None ?io = (Inr (), io')" "length (i_sent io') = 4"
    by (metis prod.collapse)
  from authenticated_after_ok [OF a(1)] a show ?thesis by fastforce
qed

text \<open>
  A server, or whoever answers on its socket, can crash the program with the line \<open>DATA\<close>: the code
  takes the word after it without looking whether there is one.
\<close>

lemma bare_data_panics:
  assumes "i_lines io = Line (bytes_of ''DATA'') # lines" and "i_fail io = None"
  shows "fst (authenticate env None io) = index_panic"
proof -
  have d: "split_on space (bytes_of ''DATA'') = [bytes_of ''DATA'']" by code_simp
  show ?thesis
    using assms d by (simp add: authenticate_def io_write_def auth_send_def bytes_of_inj)
qed

text \<open>
  C26. \<open>DBUS_COOKIE_SHA1\<close>: the response to a challenge is one that a server with the same cookie accepts.
  It decodes to a client challenge without blanks, as long as the server's, and the hexadecimal SHA-1
  digest of both challenges and the cookie; the cookie is that of the first line with the wanted
  number, in the file of the wanted context.
\<close>

theorem cookie_response_accepted:
  assumes "space \<notin> set context" and "space \<notin> set number"
    and "v_file env (v_home env @ ''/.dbus-keyrings/'' @ string_of context) =
      Inr (before @ (number @ space # created @ space # cookie) # after, ending)"
    and "\<forall>l \<in> set before. split_n 3 space l ! 0 \<noteq> number" and "space \<notin> set created"
    and "length challenge \<le> length rs"
    and "redraw (take (length challenge) rs) (drop (length challenge) rs) = Inr (client, rs')"
  shows "\<exists>response. process_data env CookieSha1 (hex_encode (join [space] [context, number, challenge])) rs = Inr (response, rs') \<and>
    hex_decode response = Inr (client @ [space] @ hex_encode (sha1 (challenge @ bytes_of '':'' @ client @ bytes_of '':'' @ cookie))) \<and>
    length client = length challenge \<and> (\<forall>b \<in> set client. \<not> blank b)"
proof -
  have split3: "split_n 3 space (a @ space # b @ space # c) = [a, b, c]" if "space \<notin> set a" "space \<notin> set b" for a b c
    using that by (simp add: numeral_3_eq_3 index_of_append)
  have find: "find_cookie [context, number, challenge] (before @ (number @ space # created @ space # cookie) # after) ending = Inr cookie"
    using assms(4) split3 [OF assms(2,5)] by (induction before) (simp_all add: Let_def)
  have tokens: "split_n 3 space (join [space] [context, number, challenge]) = [context, number, challenge]"
    using split3 [OF assms(1,2)] by simp
  have "process_data env CookieSha1 (hex_encode (join [space] [context, number, challenge])) rs =
      Inr (hex_encode (join [space] [client, hex_encode (sha1 (join (bytes_of '':'') [challenge, client, cookie]))]), rs')"
    using assms(3,6,7) find
    by (simp add: process_data_def hex_decode_encode tokens rand_read_def Let_def del: join.simps)
  then show ?thesis
    using redraw_spec [OF assms(7)] assms(6) by (simp add: hex_decode_encode)
qed

theorem cookie_response_accepted_witness:
  "\<exists>response. process_data an_env CookieSha1 (hex_encode (bytes_of ''c 8 xy'')) [1, 32, 9, 2] = Inr (response, []) \<and>
    hex_decode response = Inr ([1, 2] @ [space] @ hex_encode (sha1 (bytes_of ''xy'' @ bytes_of '':'' @ [1, 2] @ bytes_of '':'' @ bytes_of ''cd'')))"
proof -
  let ?c = "bytes_of ''c''" and ?n = "bytes_of ''8''" and ?x = "bytes_of ''xy''" and ?o = "bytes_of ''0''" and ?k = "bytes_of ''cd''"
  have p: "space \<notin> set ?c" "space \<notin> set ?n"
      "v_file an_env (v_home an_env @ ''/.dbus-keyrings/'' @ string_of ?c) =
        Inr ([bytes_of ''7 0 ab''] @ (?n @ space # ?o @ space # ?k) # [], None)"
      "\<forall>l \<in> set [bytes_of ''7 0 ab'']. split_n 3 space l ! 0 \<noteq> ?n" "space \<notin> set ?o"
      "length ?x \<le> length ([1, 32, 9, 2] :: byte list)"
      "redraw (take (length ?x) [1, 32, 9, 2]) (drop (length ?x) [1, 32, 9, 2]) = Inr ([1, 2], [])"
      "join [space] [?c, ?n, ?x] = bytes_of ''c 8 xy''"
    by code_simp+
  from cookie_response_accepted [OF p(1-7)] show ?thesis unfolding p(8) by blast
qed

end
