(* ===== verification/Connect.thy ===== *)
theory Connect
  imports Proxy Transport Auth
begin

text \<open>
  \<open>Connect\<close> (dbus.go): the address from the environment, the transport, the authentication and the call of
  \<open>Hello\<close>, in this order, and what is closed when one of them fails.
\<close>

section \<open>The environment\<close>

text \<open>
  What the machine, the network and the server do: \<open>os.Getenv\<close>, which gives an empty string for a variable
  that is not set, the files and the network for \<open>Dial\<close>, the input and output of the authentication, and then
  the connection that messages are written to and the answers of the peer.
\<close>

record 'w machine =
  x_getenv :: "string \<Rightarrow> string"
  x_read_file :: "string \<Rightarrow> byte list result"
  x_dial :: "string \<Rightarrow> string \<Rightarrow> unit result"
  x_nonce_write :: "byte list \<Rightarrow> unit result"
  x_auth :: auth_env
  x_io :: auth_io
  x_out :: 'w
  x_write :: "'w writer"
  x_answer :: answers

datatype standard_bus = SessionBus | SystemBus | OtherBus int

section \<open>Connecting\<close>

definition bus_address :: "(string \<Rightarrow> string) \<Rightarrow> standard_bus \<Rightarrow> string result" where
  "bus_address getenv busType =
     (case busType of
        SessionBus \<Rightarrow> Inr (getenv ''DBUS_SESSION_BUS_ADDRESS'')
      | SystemBus \<Rightarrow>
          (let address = getenv ''DBUS_SYSTEM_BUS_ADDRESS'' in
           Inr (if length address = 0 then ''unix:path=/var/run/dbus/system_bus_socket'' else address))
      | OtherBus n \<Rightarrow> Inl (Error (ErrNew ''Unknown bus'')))"

text \<open>The proxy for the bus daemon, and a call through it; \<open>n\<close> bounds the steps of decoding the reply.\<close>

definition bus_proxy :: object_proxy where
  "bus_proxy = \<lparr>o_dest = bus_daemon_name, o_path = bus_daemon_path\<rparr>"

definition bus_call :: "nat \<Rightarrow> methods \<Rightarrow> 'w machine \<Rightarrow> ('w connection) caller_of" where
  "bus_call n M x iface method args targets c =
     call_args n M (x_write x) (x_answer x) bus_proxy iface method args targets c"

text \<open>\<open>Close\<close> after an error; a panic, or a call that never returns, closes nothing.\<close>

definition closing :: "go_error failure \<Rightarrow> net_event list" where
  "closing fail = (case fail of Error err \<Rightarrow> [ConnClosed] | _ \<Rightarrow> [])"

text \<open>The result is the unique name with the connection; with it come the events on the network, and the input
  and output of the authentication.\<close>

definition connect ::
  "nat \<Rightarrow> methods \<Rightarrow> 'w machine \<Rightarrow> standard_bus \<Rightarrow> (string \<times> 'w connection) result \<times> net_event list \<times> auth_io" where
  "connect n M x busType =
     (case ebind (bus_address (x_getenv x) busType) new_transport of
        Inl fail \<Rightarrow> (Inl fail, [], x_io x)
      | Inr tr \<Rightarrow>
          (case dial_transport (x_read_file x) (x_dial x) (x_nonce_write x) tr of
             (Inl fail, events) \<Rightarrow> (Inl fail, events, x_io x)
           | (Inr u, events) \<Rightarrow>
               (case authenticate (x_auth x) None (x_io x) of
                  (Inl fail, io) \<Rightarrow> (Inl fail, events @ closing fail, io)
                | (Inr u, io) \<Rightarrow>
                    (case bus_hello (bus_call n M x) (new_connection (x_out x)) of
                       (Inl fail, bus) \<Rightarrow> (Inl fail, events @ closing fail, io)
                     | (Inr uniqueName, bus) \<Rightarrow> (Inr (uniqueName, bus), events, io)))))"

section \<open>What a program gets\<close>

lemma dial_transport_events:
  assumes "dial_transport read_file dial conn_write t = (res, events)"
  shows "res = Inr () \<Longrightarrow> ConnClosed \<notin> set events \<and> (\<exists>net addr. Dialled net addr \<in> set events \<and> dial net addr = Inr ())"
    and "res = Inl fail \<Longrightarrow> Dialled net addr \<in> set events \<Longrightarrow> dial net addr = Inr () \<Longrightarrow> last events = ConnClosed"
  using assms by (auto simp: dial_transport_def split: transport.splits sum.splits)

text \<open>
  C13. A connection is handed out only after the transport was dialled, the server accepted the
  authentication, \<open>BEGIN\<close> was written last, and \<open>Hello\<close> returned the unique name, as the first call on the
  connection; and it is open then. When \<open>Connect\<close> returns an error, a connection that was dialled is closed.
\<close>

theorem connect_authenticated:
  assumes "connect n M x busType = (res, events, io)"
  shows "case res of
      Inr (uniqueName, bus) \<Rightarrow>
        (\<exists>address tr. bus_address (x_getenv x) busType = Inr address \<and> new_transport address = Inr tr \<and>
           dial_transport (x_read_file x) (x_dial x) (x_nonce_write x) tr = (Inr (), events)) \<and>
        (\<exists>net addr. Dialled net addr \<in> set events \<and> x_dial x net addr = Inr ()) \<and> ConnClosed \<notin> set events \<and>
        (\<exists>read mid bs. i_lines (x_io x) = read @ Line bs # i_lines io \<and> split_on space bs ! 0 = bytes_of ''OK'' \<and>
           i_sent io = i_sent (x_io x) @ [[0]] @ mid @ [bytes_of ''BEGIN'' @ crlf] \<and> bytes_of ''BEGIN'' @ crlf \<notin> set mid) \<and>
        bus_hello (bus_call n M x) (new_connection (x_out x)) = (Inr uniqueName, bus)
    | Inl (Error err) \<Rightarrow>
        \<forall>net addr. Dialled net addr \<in> set events \<and> x_dial x net addr = Inr () \<longrightarrow> last events = ConnClosed
    | Inl fail \<Rightarrow> True"
proof (cases "ebind (bus_address (x_getenv x) busType) new_transport")
  case (Inl fail)
  then show ?thesis using assms by (auto simp: connect_def split: failure.split)
next
  case (Inr tr)
  then obtain address where a: "bus_address (x_getenv x) busType = Inr address" "new_transport address = Inr tr"
    by (auto simp: ebind_Inr_iff)
  obtain dialled evs where d: "dial_transport (x_read_file x) (x_dial x) (x_nonce_write x) tr = (dialled, evs)"
    by force
  obtain authed io' where au: "authenticate (x_auth x) None (x_io x) = (authed, io')" by force
  obtain hello bus' where h: "bus_hello (bus_call n M x) (new_connection (x_out x)) = (hello, bus')" by force
  note ev = dial_transport_events [OF d]
  show ?thesis
  proof (cases dialled)
    case (Inl fail)
    then have "res = Inl fail" "events = evs" using assms \<open>ebind _ _ = _\<close> d by (auto simp: connect_def)
    with ev(2) [OF Inl] show ?thesis by (auto split: failure.split)
  next
    case dial: (Inr u)
    show ?thesis
    proof (cases authed)
      case (Inl fail)
      then have "res = Inl fail" "events = evs @ closing fail"
        using assms \<open>ebind _ _ = _\<close> d dial au by (auto simp: connect_def)
      then show ?thesis by (auto simp: closing_def split: failure.split)
    next
      case auth: (Inr v)
      show ?thesis
      proof (cases hello)
        case (Inl fail)
        then have "res = Inl fail" "events = evs @ closing fail"
          using assms \<open>ebind _ _ = _\<close> d dial au auth h by (auto simp: connect_def)
        then show ?thesis by (auto simp: closing_def split: failure.split)
      next
        case (Inr uniqueName)
        then have r: "res = Inr (uniqueName, bus')" "events = evs" "io = io'"
          using assms \<open>ebind _ _ = _\<close> d dial au auth h by (auto simp: connect_def)
        moreover have "authenticate (x_auth x) None (x_io x) = (Inr (), io')" using au auth by simp
        note authenticate_ok [OF this]
        ultimately show ?thesis
          using a d dial ev(1) h Inr by simp
      qed
    qed
  qed
qed

text \<open>A machine with a session bus behind a socket, whose server accepts the first mechanism.\<close>

definition a_machine :: "byte list machine" where
  "a_machine = \<lparr>x_getenv = (\<lambda>_. ''unix:path=/s''), x_read_file = (\<lambda>_. Inl (Error (ErrIO ''open''))),
     x_dial = (\<lambda>_ _. Inr ()), x_nonce_write = (\<lambda>_. Inr ()),
     x_auth = an_env, x_io = \<lparr>i_lines = [Line (bytes_of ''OK 0123'')], i_sent = [], i_fail = None, i_rand = []\<rparr>,
     x_out = [], x_write = buffer,
     x_answer = (\<lambda>_. Some (new_message\<lparr>m_type := TypeMethodReturn, m_sig := ''s'',
       m_body := [4, 0, 0, 0] @ bytes_of '':1.7'' @ [0]\<rparr>))\<rparr>"

theorem connect_authenticated_witness:
  "\<exists>bus events io mid. connect 1 (\<lambda>_ _. None) a_machine SessionBus = (Inr ('':1.7'', bus), events, io) \<and>
     ConnClosed \<notin> set events \<and> i_sent io = [[0]] @ mid @ [bytes_of ''BEGIN'' @ crlf]"
proof -
  have "case connect 1 (\<lambda>_ _. None) a_machine SessionBus of
      (Inr (uniqueName, bus), events, io) \<Rightarrow> uniqueName = '':1.7'' | _ \<Rightarrow> False"
    by code_simp
  then obtain bus events io where c: "connect 1 (\<lambda>_ _. None) a_machine SessionBus = (Inr ('':1.7'', bus), events, io)"
    by (auto split: prod.splits sum.splits)
  show ?thesis
    using connect_authenticated [OF c] c by (auto simp: a_machine_def)
qed

end
