(* ===== verification/NamesInvariant.thy ===== *)
theory NamesInvariant
  imports Owners Triples
begin

text \<open>
  An invariant of all operations on signal watches and names of this client, whatever the bus daemon
  answers: every name that is followed has a watch of it, and a signal watch for its changes of owner in
  the set, so that the changes arrive; and an operation that returns holds no lock.
\<close>

section \<open>The invariant\<close>

text \<open>
  \<open>names_inv X k L s\<close>: the identities below \<open>k\<close> are in use, the goroutine holds the locks \<open>L\<close>, and the names
  in order, but for those in \<open>X\<close>, which may have no watch yet.
\<close>

definition info_ok :: "client \<Rightarrow> nat \<Rightarrow> bool" where
  "info_ok s i \<longleftrightarrow> i < s_fresh s \<and> distinct (ni_watches (s_info s i)) \<and>
     (\<forall>nw \<in> set (ni_watches (s_info s i)). nw < s_fresh s \<and> nw_info (s_name_watch s nw) = i) \<and>
     (\<exists>w. ni_signal (s_info s i) = Some w \<and> w \<in># contents s \<and> w_cb (s_watch s w) = OwnerChanged i \<and>
        (rules_of s w)\<lparr>r_owner := []\<rparr> = owner_rule (ni_name (s_info s i)))"

definition names_inv :: "nat set \<Rightarrow> nat \<Rightarrow> lock set \<Rightarrow> client \<Rightarrow> bool" where
  "names_inv X k L s \<longleftrightarrow> set_ok s \<and> k \<le> s_fresh s \<and> s_locks s = L \<and>
     (\<forall>name i. s_names s name = Some i \<longrightarrow>
        ni_name (s_info s i) = name \<and> info_ok s i \<and> (i \<notin> X \<longrightarrow> ni_watches (s_info s i) \<noteq> [])) \<and>
     (\<forall>i. ni_watches (s_info s i) \<noteq> [] \<longrightarrow> s_names s (ni_name (s_info s i)) = Some i) \<and>
     (\<forall>p w. p_internal (s_public s p) = Some w \<longrightarrow> w < s_fresh s \<and> w_cb (s_watch s w) = SendSignal p)"

abbreviation keeps :: "'a go \<Rightarrow> bool" where
  "keeps m \<equiv> \<forall>k L. triple (names_inv {} k L) m (\<lambda>_. names_inv {} k L) (names_inv {} k L)"

lemma same_but_owner:
  assumes "(r' :: match_rule)\<lparr>r_owner := []\<rparr> = r\<lparr>r_owner := []\<rparr>"
  shows "r_path r' = r_path r \<and> r_iface r' = r_iface r \<and> r_member r' = r_member r"
proof -
  have "r_path (r'\<lparr>r_owner := []\<rparr>) = r_path (r\<lparr>r_owner := []\<rparr>)" "r_iface (r'\<lparr>r_owner := []\<rparr>) = r_iface (r\<lparr>r_owner := []\<rparr>)"
      "r_member (r'\<lparr>r_owner := []\<rparr>) = r_member (r\<lparr>r_owner := []\<rparr>)"
    using assms by simp_all
  then show ?thesis by simp
qed

text \<open>What the invariant depends on; everything else may change.\<close>

definition alike :: "client \<Rightarrow> client \<Rightarrow> bool" where
  "alike s s' \<longleftrightarrow> s_fresh s \<le> s_fresh s' \<and>
     (\<forall>nw < s_fresh s. nw_info (s_name_watch s' nw) = nw_info (s_name_watch s nw)) \<and>
     (\<forall>w < s_fresh s. w_rule (s_watch s' w) = w_rule (s_watch s w) \<and> w_cb (s_watch s' w) = w_cb (s_watch s w)) \<and>
     (\<forall>r < s_fresh s. (s_rule s' r)\<lparr>r_owner := []\<rparr> = (s_rule s r)\<lparr>r_owner := []\<rparr>) \<and>
     (\<forall>p w. p_internal (s_public s' p) = Some w \<longrightarrow> p_internal (s_public s p) = Some w)"

lemma alike_set_ok:
  assumes "set_ok s" and "alike s s'" and "s_set s' = s_set s"
  shows "set_ok s'" and "contents s' = contents s"
  using assms(2) by (intro set_ok_same [OF assms(1,3)] same_but_owner; simp add: alike_def)+

lemma alike_info_ok:
  assumes "set_ok s" and "alike s s'" and "info_ok s i" and "ni_name (s_info s' i) = ni_name (s_info s i)"
    and "ni_signal (s_info s' i) = ni_signal (s_info s i)" and "distinct (ni_watches (s_info s' i))"
    and "\<And>nw. nw \<in> set (ni_watches (s_info s' i)) \<Longrightarrow>
      nw \<in> set (ni_watches (s_info s i)) \<or> nw < s_fresh s' \<and> nw_info (s_name_watch s' nw) = i"
    and "\<And>w. ni_signal (s_info s i) = Some w \<Longrightarrow> w \<in># contents s \<Longrightarrow> w \<in># contents s'"
  shows "info_ok s' i"
proof -
  obtain w where w: "ni_signal (s_info s i) = Some w" "w \<in># contents s" "w_cb (s_watch s w) = OwnerChanged i"
      "(rules_of s w)\<lparr>r_owner := []\<rparr> = owner_rule (ni_name (s_info s i))"
    using assms(3) by (auto simp: info_ok_def)
  have lt: "w < s_fresh s" "w_rule (s_watch s w) < s_fresh s" using assms(1) w(2) by (auto simp: set_ok_def)
  have "w_cb (s_watch s' w) = OwnerChanged i" "(rules_of s' w)\<lparr>r_owner := []\<rparr> = owner_rule (ni_name (s_info s' i))"
    using assms(2,4) lt w(3,4) by (simp_all add: alike_def rules_of_def)
  moreover have "nw < s_fresh s' \<and> nw_info (s_name_watch s' nw) = i" if "nw \<in> set (ni_watches (s_info s' i))" for nw
    using assms(7) [OF that] assms(2,3) by (fastforce simp: alike_def info_ok_def)
  moreover have "i < s_fresh s'" using assms(2,3) by (simp add: alike_def info_ok_def)
  ultimately show ?thesis
    using assms(5,6) w(1) assms(8) [OF w(1,2)] by (auto simp: info_ok_def)
qed

lemma names_invD:
  assumes "names_inv X k L s"
  shows "set_ok s" "k \<le> s_fresh s" "s_locks s = L"
    "s_names s name = Some i \<Longrightarrow> ni_name (s_info s i) = name \<and> info_ok s i \<and> (i \<notin> X \<longrightarrow> ni_watches (s_info s i) \<noteq> [])"
    "ni_watches (s_info s i) \<noteq> [] \<Longrightarrow> s_names s (ni_name (s_info s i)) = Some i"
    "p_internal (s_public s p) = Some w \<Longrightarrow> w < s_fresh s \<and> w_cb (s_watch s w) = SendSignal p"
  using assms unfolding names_inv_def by blast+

lemma names_invI:
  assumes "set_ok s" and "k \<le> s_fresh s" and "s_locks s = L"
    and "\<And>name i. s_names s name = Some i \<Longrightarrow>
      ni_name (s_info s i) = name \<and> info_ok s i \<and> (i \<notin> X \<longrightarrow> ni_watches (s_info s i) \<noteq> [])"
    and "\<And>i. ni_watches (s_info s i) \<noteq> [] \<Longrightarrow> s_names s (ni_name (s_info s i)) = Some i"
    and "\<And>p w. p_internal (s_public s p) = Some w \<Longrightarrow> w < s_fresh s \<and> w_cb (s_watch s w) = SendSignal p"
  shows "names_inv X k L s"
  using assms unfolding names_inv_def by blast

lemma alike_internal:
  assumes "names_inv X k L s" and "alike s s'" and "p_internal (s_public s' p) = Some w"
  shows "w < s_fresh s' \<and> w_cb (s_watch s' w) = SendSignal p"
proof -
  have "p_internal (s_public s p) = Some w" using assms(2,3) by (simp add: alike_def)
  from names_invD(6) [OF assms(1) this] show ?thesis using assms(2) by (auto simp: alike_def)
qed

lemma names_inv_frame:
  assumes "names_inv X k L s" and "alike s s'" and "s_set s' = s_set s" and "s_locks s' = L'"
    and "s_names s' = s_names s"
    and "\<And>i. ni_name (s_info s' i) = ni_name (s_info s i) \<and> ni_watches (s_info s' i) = ni_watches (s_info s i) \<and>
      ni_signal (s_info s' i) = ni_signal (s_info s i)"
  shows "names_inv X k L' s'"
proof (rule names_invI)
  note inv = names_invD [OF assms(1)]
  note set = alike_set_ok [OF inv(1) assms(2,3)]
  show "set_ok s'" by (rule set(1))
  show "k \<le> s_fresh s'" using inv(2) assms(2) by (simp add: alike_def)
  show "ni_name (s_info s' i) = name \<and> info_ok s' i \<and> (i \<notin> X \<longrightarrow> ni_watches (s_info s' i) \<noteq> [])"
    if "s_names s' name = Some i" for name i
  proof -
    have i: "ni_name (s_info s i) = name \<and> info_ok s i \<and> (i \<notin> X \<longrightarrow> ni_watches (s_info s i) \<noteq> [])"
      using that assms(5) by (intro inv(4)) simp
    have "info_ok s' i"
    proof (rule alike_info_ok [OF inv(1) assms(2)])
      show "info_ok s i" using i by simp
      show "distinct (ni_watches (s_info s' i))" using i assms(6) by (simp add: info_ok_def)
      show "w \<in># contents s'" if "w \<in># contents s" for w using that unfolding set(2) .
    qed (simp_all add: assms(6))
    with i assms(6) show ?thesis by simp
  qed
  show "s_names s' (ni_name (s_info s' i)) = Some i" if "ni_watches (s_info s' i) \<noteq> []" for i
    using that inv(5) [of i] by (simp add: assms(5,6))
  show "w < s_fresh s' \<and> w_cb (s_watch s' w) = SendSignal p" if "p_internal (s_public s' p) = Some w" for p w
    by (rule alike_internal [OF assms(1,2) that])
qed (rule assms(4))

lemma names_inv_locks: "names_inv X k L s \<Longrightarrow> names_inv X k L' (s\<lparr>s_locks := L'\<rparr>)"
  by (rule names_inv_frame) (simp_all add: alike_def)

text \<open>The updates that the invariant does not see.\<close>

lemma names_inv_updates:
  assumes "names_inv X k L s"
  shows "names_inv X k L (s\<lparr>s_watch := (s_watch s)(w := (s_watch s w)\<lparr>w_cancelled := b\<rparr>)\<rparr>)"
    "names_inv X k L (s\<lparr>s_rule := (s_rule s)(r := (s_rule s r)\<lparr>r_owner := owner\<rparr>)\<rparr>)"
    "names_inv X k L (s\<lparr>s_public_name := n\<rparr>)" "names_inv X k L (s\<lparr>s_fresh := Suc (s_fresh s)\<rparr>)"
    "names_inv X k L (s\<lparr>s_info := (s_info s)(i := (s_info s i)\<lparr>ni_owner := owner\<rparr>)\<rparr>)"
    "names_inv X k L (s\<lparr>s_public := (s_public s)(p := (s_public s p)\<lparr>p_name := nw\<rparr>)\<rparr>)"
    "p_internal pw = None \<Longrightarrow> names_inv X k L (s\<lparr>s_public := (s_public s)(p := pw)\<rparr>)"
  by (rule names_inv_frame [OF assms]; auto simp: alike_def names_invD(3) [OF assms])+

lemma triple_locked [triple_intro]:
  assumes "\<And>L. triple (\<lambda>s. names_inv X k L s \<and> A s) m (\<lambda>x s. names_inv Y k L s \<and> C x s) (names_inv Z k L)"
    and "\<And>s L. A s \<Longrightarrow> A (s\<lparr>s_locks := L\<rparr>)" and "\<And>x s L. C x s \<Longrightarrow> C x (s\<lparr>s_locks := L\<rparr>)"
  shows "triple (\<lambda>s. names_inv X k L s \<and> A s) (locked l m) (\<lambda>x s. names_inv Y k L s \<and> C x s) (names_inv Z k L)"
  unfolding triple_def
proof (intro allI impI)
  fix s assume s: "names_inv X k L s \<and> A s"
  let ?s = "s\<lparr>s_locks := insert l (s_locks s)\<rparr>" and ?L = "insert l L"
  have L: "s_locks s = L" using s by (simp add: names_inv_def)
  have start: "names_inv X k ?L ?s \<and> A ?s" using s L names_inv_locks [of X k L s ?L] assms(2) by simp
  have m: "case m ?s of (Inr x, s') \<Rightarrow> names_inv Y k ?L s' \<and> C x s'
      | (Inl (Blocked b), s') \<Rightarrow> True | (Inl fail, s') \<Rightarrow> names_inv Z k ?L s'"
    by (rule assms(1) [of ?L, unfolded triple_def, rule_format, OF start])
  have unlock: "names_inv W k L (s'\<lparr>s_locks := s_locks s' - {l}\<rparr>)" if "names_inv W k ?L s'" "l \<notin> L" for W s'
    using names_inv_locks [OF that(1), of "s_locks s' - {l}"] that by (simp add: names_inv_def)
  show "case locked l m s of (Inr x, s') \<Rightarrow> names_inv Y k L s' \<and> C x s'
      | (Inl (Blocked b), s') \<Rightarrow> True | (Inl fail, s') \<Rightarrow> names_inv Z k L s'"
  proof (cases "l \<in> s_locks s")
    case False
    then show ?thesis
      using m unlock assms(3) L
      by (auto simp: locked_def split: prod.splits sum.splits failure.splits)
  qed simp
qed

lemma keeps_locked: "keeps m \<Longrightarrow> keeps (locked l m)"
  using triple_locked [where X = "{}" and Y = "{}" and Z = "{}" and A = "\<lambda>_. True" and C = "\<lambda>_ _. True" and m = m and l = l]
  by simp

lemma keepsD: "keeps m \<Longrightarrow> triple (names_inv {} k L) m (\<lambda>_. names_inv {} k L) (names_inv {} k L)"
  by blast

lemma keeps_bind: "keeps m \<Longrightarrow> (\<And>x. keeps (f x)) \<Longrightarrow> keeps (gbind m f)"
  by (blast intro: triple_bind)

lemma keeps_seq: "keeps m \<Longrightarrow> keeps k \<Longrightarrow> keeps (gseq m k)"
  by (blast intro: triple_seq)

lemma keeps_get:
  assumes "\<And>x. keeps (m x)"
  shows "keeps (gbind (gget f) m)"
proof (intro allI triple_get_bind)
  show "triple (\<lambda>s. names_inv {} k L s \<and> f s = x) (m x) (\<lambda>_. names_inv {} k L) (names_inv {} k L)" for k L x
    by (rule triple_pre [OF keepsD [OF assms]]) simp
qed

lemma keeps_simple: "keeps (gret x)" "keeps (gfail fail)"
  by (auto intro: triple_ret triple_fail)

lemma keeps_try: "keeps m \<Longrightarrow> keeps (gbind (gtry m) (\<lambda>_. gret x))"
  by (blast intro: triple_try_ignored)

lemma keeps_modify: "(\<And>k L s. names_inv {} k L s \<Longrightarrow> names_inv {} k L (f s)) \<Longrightarrow> keeps (gmodify f)"
  by (blast intro: triple_modify)

section \<open>Registering and removing\<close>

lemma names_inv_signal_watched:
  assumes "names_inv X k L s" and "rule < s_fresh s"
  shows "names_inv X k L (signal_watched rule cb s)"
proof (rule names_invI)
  note inv = names_invD [OF assms(1)]
  note set = set_ok_signal_watched [OF inv(1) assms(2), of cb]
  let ?s = "signal_watched rule cb s"
  have alike: "alike s ?s" by (simp add: alike_def)
  show "set_ok ?s" by (rule set(1))
  show "k \<le> s_fresh ?s" "s_locks ?s = L" using inv(2,3) by simp_all
  show "ni_name (s_info ?s i) = name \<and> info_ok ?s i \<and> (i \<notin> X \<longrightarrow> ni_watches (s_info ?s i) \<noteq> [])"
    if "s_names ?s name = Some i" for name i
  proof -
    have i: "ni_name (s_info s i) = name \<and> info_ok s i \<and> (i \<notin> X \<longrightarrow> ni_watches (s_info s i) \<noteq> [])"
      using that by (intro inv(4)) simp
    have "info_ok ?s i"
      using i by (intro alike_info_ok [OF inv(1) alike]) (auto simp: info_ok_def set(2) simp del: signal_watched_simps(4))
    with i show ?thesis by simp
  qed
  show "s_names ?s (ni_name (s_info ?s i)) = Some i" if "ni_watches (s_info ?s i) \<noteq> []" for i
    using that inv(5) [of i] by simp
  show "w < s_fresh ?s \<and> w_cb (s_watch ?s w) = SendSignal p" if "p_internal (s_public ?s p) = Some w" for p w
    by (rule alike_internal [OF assms(1) alike that])
qed

text \<open>A watch may leave the set that no name needs.\<close>

definition unneeded :: "watch \<Rightarrow> client \<Rightarrow> bool" where
  "unneeded w s \<longleftrightarrow> (\<forall>name i. s_names s name = Some i \<longrightarrow> ni_signal (s_info s i) \<noteq> Some w)"

lemma names_inv_removed:
  assumes "names_inv X k L s" and "unneeded w s"
  shows "names_inv X k L (s\<lparr>s_set := snd (ws_remove (rules_of s) w (s_set s))\<rparr>)" (is "names_inv X k L ?s")
proof (rule names_invI)
  note inv = names_invD [OF assms(1)]
  have ws: "ws_inv (rules_of s) (s_set s)" using inv(1) by (simp add: set_ok_def)
  have alike: "alike s ?s" by (simp add: alike_def)
  have c: "contents ?s = contents s - {#w#}" using watches.contents_remove [OF ws] by simp
  then show "set_ok ?s" using inv(1) watches.inv_remove [OF ws, of w] by (auto simp: set_ok_def dest: in_diffD)
  show "k \<le> s_fresh ?s" "s_locks ?s = L" using inv(2,3) by simp_all
  show "ni_name (s_info ?s i) = name \<and> info_ok ?s i \<and> (i \<notin> X \<longrightarrow> ni_watches (s_info ?s i) \<noteq> [])"
    if "s_names ?s name = Some i" for name i
  proof -
    have i: "ni_name (s_info s i) = name \<and> info_ok s i \<and> (i \<notin> X \<longrightarrow> ni_watches (s_info s i) \<noteq> [])"
      using that by (intro inv(4)) simp
    have "info_ok ?s i"
    proof (rule alike_info_ok [OF inv(1) alike])
      show "info_ok s i" using i by simp
      show "distinct (ni_watches (s_info ?s i))" using i by (simp add: info_ok_def)
      fix w' assume "ni_signal (s_info s i) = Some w'" "w' \<in># contents s"
      moreover from this have "w' \<noteq> w" using that assms(2) by (auto simp: unneeded_def)
      ultimately show "w' \<in># contents ?s" unfolding c by (simp add: in_diff_count)
    qed simp_all
    with i show ?thesis by simp
  qed
  show "s_names ?s (ni_name (s_info ?s i)) = Some i" if "ni_watches (s_info ?s i) \<noteq> []" for i
    using that inv(5) [of i] by simp
  show "w < s_fresh ?s \<and> w_cb (s_watch ?s w) = SendSignal p" if "p_internal (s_public ?s p) = Some w" for p w
    by (rule alike_internal [OF assms(1) alike that])
qed

lemma set_remove_cases:
  "set_remove w s = (if HandlerMutex \<in> s_locks s then (Inl (Blocked ''sync.Mutex.Lock''), s)
     else (Inr (fst (ws_remove (rules_of s) w (s_set s))), s\<lparr>s_set := snd (ws_remove (rules_of s) w (s_set s))\<rparr>))"
  by (simp add: set_remove_def locked_def case_prod_beta)

lemma watch_signal_triple:
  "triple (\<lambda>s. names_inv X k L s \<and> rule < s_fresh s \<and> A (s_fresh s) (s_info s) (s_names s) (s_rule s)) (watch_signal B rule cb)
     (\<lambda>w s. names_inv X k L s \<and> w \<in># contents s \<and> s_watch s w = \<lparr>w_rule = rule, w_cb = cb, w_cancelled = False\<rparr> \<and>
        (\<exists>f \<le> s_fresh s. A f (s_info s) (s_names s) (s_rule s))) (names_inv X k L)"
  unfolding triple_def
proof (intro allI impI)
  fix s assume "names_inv X k L s \<and> rule < s_fresh s \<and> A (s_fresh s) (s_info s) (s_names s) (s_rule s)"
  then have s: "names_inv X k L s" "rule < s_fresh s" "A (s_fresh s) (s_info s) (s_names s) (s_rule s)" by simp_all
  note inv = names_invD [OF s(1)]
  let ?s = "signal_watched rule cb s"
  have w: "names_inv X k L ?s" by (rule names_inv_signal_watched [OF s(1,2)])
  have c: "contents ?s = add_mset (s_fresh s) (contents s)" by (rule set_ok_signal_watched(2) [OF inv(1) s(2)])
  have "unneeded (s_fresh s) ?s"
    using inv(1,4) by (fastforce simp: unneeded_def info_ok_def set_ok_def)
  note removed = names_inv_removed [OF w this]
  have "watch_signal B rule cb s =
      (if r_type (s_rule s rule) \<noteq> TypeSignal then (Inl (Error (ErrNew ''Match rule is not for signals'')), s)
       else if HandlerMutex \<in> s_locks s then (Inl (Blocked ''sync.Mutex.Lock''), snd (watch_signal B rule cb s))
       else case b_add_match B (rule_string (s_rule s rule)) of
         Inl fail \<Rightarrow> (Inl fail, ?s\<lparr>s_set := snd (ws_remove (rules_of ?s) (s_fresh s) (s_set ?s))\<rparr>)
       | Inr u \<Rightarrow> (Inr (s_fresh s), ?s))"
    by (simp add: watch_signal_def set_add_def set_remove_cases locked_def fresh_def go_defs signal_watched_def Let_def
        split: sum.split)
  then show "case watch_signal B rule cb s of
        (Inr w, s') \<Rightarrow> names_inv X k L s' \<and> w \<in># contents s' \<and>
          s_watch s' w = \<lparr>w_rule = rule, w_cb = cb, w_cancelled = False\<rparr> \<and>
          (\<exists>f \<le> s_fresh s'. A f (s_info s') (s_names s') (s_rule s'))
      | (Inl (Blocked b), s') \<Rightarrow> True | (Inl fail, s') \<Rightarrow> names_inv X k L s'"
    using s w c removed
    by (auto split: sum.split failure.split if_splits simp del: signal_watched_simps(4) intro!: exI [of _ "s_fresh s"])
qed

lemma set_remove_triple:
  "triple (\<lambda>s. names_inv X k L s \<and> unneeded w s \<and> A (s_public s)) (set_remove w)
     (\<lambda>_ s. names_inv X k L s \<and> A (s_public s)) (names_inv X k L)"
  by (auto simp: triple_def set_remove_cases names_inv_removed)

lemma cancel_watch_triple:
  "triple (\<lambda>s. names_inv X k L s \<and> unneeded w s \<and> A (s_public s)) (cancel_watch B w)
     (\<lambda>_ s. names_inv X k L s \<and> A (s_public s)) (names_inv X k L)"
  unfolding cancel_watch_def
proof (rule triple_locked, intro triple_get_bind triple_if)
  fix L cancelled
  let ?P = "\<lambda>s. names_inv X k L s \<and> unneeded w s \<and> A (s_public s)" and ?Q = "\<lambda>_ s. names_inv X k L s \<and> A (s_public s)"
  show "triple (\<lambda>s. ?P s \<and> w_cancelled (s_watch s w) = cancelled) (gret ()) ?Q (names_inv X k L)"
    by (rule triple_ret) simp
  have "triple (?Q x) (gbind (gget (\<lambda>s. rules_of s w)) (\<lambda>r.
      case (if x then b_remove_match B (rule_string r) else Inr ()) of
        Inl fail \<Rightarrow> gfail fail
      | Inr u \<Rightarrow> gmodify (\<lambda>s. s\<lparr>s_watch := (s_watch s)(w := (s_watch s w)\<lparr>w_cancelled := True\<rparr>)\<rparr>))) ?Q (names_inv X k L)" for x
    by (intro triple_get_bind triple_case_sum triple_fail triple_modify) (simp_all add: names_inv_updates)
  from triple_bind [OF set_remove_triple this]
  show "triple (\<lambda>s. ?P s \<and> w_cancelled (s_watch s w) = cancelled) (gbind (set_remove w) (\<lambda>found.
      gbind (gget (\<lambda>s. rules_of s w)) (\<lambda>r.
      case (if found then b_remove_match B (rule_string r) else Inr ()) of
        Inl fail \<Rightarrow> gfail fail
      | Inr u \<Rightarrow> gmodify (\<lambda>s. s\<lparr>s_watch := (s_watch s)(w := (s_watch s w)\<lparr>w_cancelled := True\<rparr>)\<rparr>)))) ?Q (names_inv X k L)"
    by (rule triple_pre) simp
qed (simp_all add: unneeded_def)

lemma remove_swap_sub:
  assumes "remove_swap x xs = Some ys" and "distinct xs"
  shows "distinct ys" and "set ys \<subseteq> set xs" and "xs \<noteq> []"
proof -
  note m = remove_swap_mset [OF assms(1)]
  show "set ys \<subseteq> set xs" using m(1) by (metis set_mset_mset in_diffD subsetI)
  have "mset ys = mset (remove1 x xs)" using m(1) by simp
  then show "distinct ys" using assms(2) mset_eq_imp_distinct_iff by fastforce
  show "xs \<noteq> []" using m(2) by auto
qed

lemma names_inv_unwatched:
  assumes "names_inv {} k L s" and "remove_swap nw (ni_watches (s_info s i)) = Some ws"
    and "s1 = s\<lparr>s_info := (s_info s)(i := (s_info s i)\<lparr>ni_watches := ws\<rparr>)\<rparr>"
  shows "ws \<noteq> [] \<Longrightarrow> names_inv {} k L s1"
    and "ws = [] \<Longrightarrow> names_inv {} k L (s1\<lparr>s_names := (s_names s1)(ni_name (s_info s i) := None)\<rparr>)"
    and "ws = [] \<Longrightarrow> ni_signal (s_info s i) = Some w \<Longrightarrow>
      unneeded w (s1\<lparr>s_names := (s_names s1)(ni_name (s_info s i) := None)\<rparr>)"
proof -
  note inv = names_invD [OF assms(1)]
  have "ni_watches (s_info s i) \<noteq> []" using assms(2) by auto
  then have reg: "s_names s (ni_name (s_info s i)) = Some i" by (rule inv(5))
  have ok: "info_ok s i" using inv(4) [OF reg] by simp
  then have sub: "distinct ws" "set ws \<subseteq> set (ni_watches (s_info s i))"
    using remove_swap_sub [OF assms(2)] by (simp_all add: info_ok_def)
  have alike: "alike s s1" "alike s (s1\<lparr>s_names := m\<rparr>)" for m by (simp_all add: alike_def assms(3))
  have set: "set_ok s1" "contents s1 = contents s"
    by (rule alike_set_ok [OF inv(1) alike(1)]; simp add: assms(3))+
  have infos: "info_ok s1 j" if "info_ok s j" for j
  proof (rule alike_info_ok [OF inv(1) alike(1) that])
    show "distinct (ni_watches (s_info s1 j))" using that sub(1) by (simp add: assms(3) info_ok_def)
    show "nw' \<in> set (ni_watches (s_info s j)) \<or> nw' < s_fresh s1 \<and> nw_info (s_name_watch s1 nw') = j"
      if "nw' \<in> set (ni_watches (s_info s1 j))" for nw'
      using that sub(2) by (auto simp: assms(3) split: if_splits)
    show "w' \<in># contents s1" if "w' \<in># contents s" for w' using that unfolding set(2) .
  qed (simp_all add: assms(3))
  have same: "ni_name (s_info s1 j) = ni_name (s_info s j)" "ni_signal (s_info s1 j) = ni_signal (s_info s j)"
      "s_names s1 = s_names s" "s_public s1 = s_public s" for j
    by (simp_all add: assms(3))
  note pub = alike_internal [OF assms(1) alike(1)]
  have scalars: "k \<le> s_fresh s1" "s_locks s1 = L" using inv(2,3) by (simp_all add: assms(3))
  show "names_inv {} k L s1" if "ws \<noteq> []"
  proof (rule names_invI [OF set(1) scalars])
    show "ni_name (s_info s1 j) = name \<and> info_ok s1 j \<and> (j \<notin> {} \<longrightarrow> ni_watches (s_info s1 j) \<noteq> [])"
      if "s_names s1 name = Some j" for name j
      using that inv(4) [of name j] infos [of j] \<open>ws \<noteq> []\<close> same by (simp add: assms(3))
    show "s_names s1 (ni_name (s_info s1 j)) = Some j" if "ni_watches (s_info s1 j) \<noteq> []" for j
      using that inv(5) [of j] reg by (simp add: assms(3) split: if_splits)
  qed (rule pub)
  assume Nil: "ws = []"
  let ?s = "s1\<lparr>s_names := (s_names s1)(ni_name (s_info s i) := None)\<rparr>"
  have other: "j \<noteq> i \<and> s_names s name = Some j" if "s_names ?s name = Some j" for name j
    using that inv(4) [of name j] same by (auto split: if_splits)
  show "names_inv {} k L ?s"
  proof (rule names_invI)
    show "set_ok ?s" using set(1) by (simp add: set_ok_def)
    show "ni_name (s_info ?s j) = name \<and> info_ok ?s j \<and> (j \<notin> {} \<longrightarrow> ni_watches (s_info ?s j) \<noteq> [])"
      if "s_names ?s name = Some j" for name j
    proof -
      have j: "j \<noteq> i" "s_names s name = Some j" using other [OF that] by simp_all
      have "info_ok s1 j" using infos inv(4) [OF j(2)] by blast
      then have "info_ok ?s j" by (simp add: info_ok_def)
      then show ?thesis using inv(4) [OF j(2)] j(1) by (simp add: assms(3))
    qed
    show "s_names ?s (ni_name (s_info ?s j)) = Some j" if "ni_watches (s_info ?s j) \<noteq> []" for j
    proof -
      have "j \<noteq> i" "ni_watches (s_info s j) \<noteq> []" using that Nil by (auto simp: assms(3) split: if_splits)
      with inv(5) [of j] reg show ?thesis by (auto simp: assms(3))
    qed
    show "w < s_fresh ?s \<and> w_cb (s_watch ?s w) = SendSignal p" if "p_internal (s_public ?s p) = Some w" for p w
      using pub that by simp
  qed (use scalars in simp_all)
  assume w: "ni_signal (s_info s i) = Some w"
  then have "w_cb (s_watch s w) = OwnerChanged i" using ok by (auto simp: info_ok_def)
  moreover have "w_cb (s_watch s w) = OwnerChanged j" if "s_names s name = Some j" "ni_signal (s_info s j) = Some w" for name j
    using inv(4) [OF that(1)] that(2) by (auto simp: info_ok_def)
  ultimately have "ni_signal (s_info s j) \<noteq> Some w" if "s_names ?s name = Some j" for name j
    using other [OF that] by fastforce
  then show "unneeded w ?s" by (simp add: unneeded_def same(2))
qed

lemma forget_name_triple:
  assumes "\<And>w s. P s \<Longrightarrow> ni_signal info = Some w \<Longrightarrow> unneeded w (s\<lparr>s_names := (s_names s)(ni_name info := None)\<rparr>)"
    and "\<And>s. P s \<Longrightarrow> names_inv {} k L (s\<lparr>s_names := (s_names s)(ni_name info := None)\<rparr>) \<and> A (s_public s)"
  shows "triple P (forget_name B info) (\<lambda>_ s. names_inv {} k L s \<and> A (s_public s)) (names_inv {} k L)"
  unfolding forget_name_def
proof (rule triple_seq)
  let ?R = "\<lambda>s. names_inv {} k L s \<and> (\<forall>w. ni_signal info = Some w \<longrightarrow> unneeded w s) \<and> A (s_public s)"
  show "triple P (gmodify (\<lambda>s. s\<lparr>s_names := (s_names s)(ni_name info := None)\<rparr>)) (\<lambda>_. ?R) (names_inv {} k L)"
    by (rule triple_modify) (simp add: assms)
  show "triple ?R (case ni_signal info of None \<Rightarrow> gfail (Panic ''nil pointer dereference'') | Some w \<Rightarrow> cancel_watch B w)
      (\<lambda>_ s. names_inv {} k L s \<and> A (s_public s)) (names_inv {} k L)"
    by (intro triple_case_option triple_fail triple_pre [OF cancel_watch_triple]) simp_all
qed

lemma drop_name_watch_triple:
  "triple (\<lambda>s. names_inv {} k L s \<and> A (s_public s)) (drop_name_watch B nw i)
     (\<lambda>_ s. names_inv {} k L s \<and> A (s_public s)) (names_inv {} k L)"
  unfolding drop_name_watch_def
proof (intro triple_get_bind triple_case_option triple_seq)
  fix info :: name_info and ws assume r: "remove_swap nw (ni_watches info) = Some ws"
  let ?P = "\<lambda>s. names_inv {} k L s \<and> A (s_public s)"
  let ?R = "\<lambda>s. \<exists>s0. ?P s0 \<and> s_info s0 i = info \<and> s = s0\<lparr>s_info := (s_info s0)(i := info\<lparr>ni_watches := ws\<rparr>)\<rparr>"
  show "triple (\<lambda>s. ?P s \<and> s_info s i = info) (gmodify (\<lambda>s. s\<lparr>s_info := (s_info s)(i := info\<lparr>ni_watches := ws\<rparr>)\<rparr>))
      (\<lambda>_. ?R) (names_inv {} k L)"
    by (rule triple_modify) blast
  note unwatched = names_inv_unwatched [OF _ _ refl, of k L _ nw i ws]
  show "triple ?R (if ws \<noteq> [] then gret () else forget_name B info) (\<lambda>_. ?P) (names_inv {} k L)"
  proof (rule triple_if)
    show "triple ?R (gret ()) (\<lambda>_. ?P) (names_inv {} k L)" if "ws \<noteq> []"
      using unwatched(1) r that by (intro triple_ret) auto
    assume "\<not> ws \<noteq> []"
    then show "triple ?R (forget_name B info) (\<lambda>_. ?P) (names_inv {} k L)"
      using unwatched(2,3) r by (intro forget_name_triple) auto
  qed
qed (auto intro: triple_fail)

lemma remove_name_watch_triple:
  "triple (\<lambda>s. names_inv {} k L s \<and> A (s_public s)) (remove_name_watch B nw)
     (\<lambda>_ s. names_inv {} k L s \<and> A (s_public s)) (names_inv {} k L)"
  unfolding remove_name_watch_def
proof (rule triple_get_bind)
  fix i
  have "triple (\<lambda>s. names_inv {} k L s \<and> A (s_public s))
      (locked NameInfoMutex (locked (InfoLock i) (drop_name_watch B nw i)))
      (\<lambda>_ s. names_inv {} k L s \<and> A (s_public s)) (names_inv {} k L)"
    by (intro triple_locked drop_name_watch_triple) simp_all
  then show "triple (\<lambda>s. (names_inv {} k L s \<and> A (s_public s)) \<and> nw_info (s_name_watch s nw) = i)
      (locked NameInfoMutex (locked (InfoLock i) (drop_name_watch B nw i)))
      (\<lambda>_ s. names_inv {} k L s \<and> A (s_public s)) (names_inv {} k L)"
    by (rule triple_pre) simp
qed

lemma cancel_public_keeps: "keeps (cancel_public B p)"
  unfolding cancel_public_def
proof (rule keeps_locked, intro allI triple_get_bind triple_case_option)
  fix k L w and pw :: public_watch assume w: "p_internal pw = Some w"
  let ?A = "\<lambda>pub. pub p = pw" and ?I = "names_inv {} k L"
  have "triple (\<lambda>s. ?I s \<and> ?A (s_public s)) (case p_name pw of None \<Rightarrow> gret () | Some nw \<Rightarrow> remove_name_watch B nw)
      (\<lambda>_ s. ?I s \<and> ?A (s_public s)) ?I"
    by (intro triple_case_option triple_ret remove_name_watch_triple)
  moreover have "triple (\<lambda>s. ?I s \<and> ?A (s_public s)) (cancel_watch B w) (\<lambda>_ s. ?I s \<and> True) ?I"
  proof (rule triple_pre [OF cancel_watch_triple])
    fix s assume s: "?I s \<and> ?A (s_public s)"
    then have "w_cb (s_watch s w) = SendSignal p" using names_invD(6) [of "{}" k L s p w] w by simp
    then show "?I s \<and> unneeded w s \<and> True"
      using s names_invD(4) [of "{}" k L s] by (fastforce simp: unneeded_def info_ok_def)
  qed
  moreover have "triple (\<lambda>s. ?I s \<and> True)
      (gmodify (\<lambda>s. s\<lparr>s_public := (s_public s)(p := pw\<lparr>p_internal := None, p_closed := True\<rparr>)\<rparr>)) (\<lambda>_. ?I) ?I"
    by (rule triple_modify) (simp add: names_inv_updates(7))
  ultimately show "triple (\<lambda>s. ?I s \<and> s_public s p = pw)
      (gseq (case p_name pw of None \<Rightarrow> gret () | Some nw \<Rightarrow> remove_name_watch B nw)
        (gseq (cancel_watch B w)
          (gmodify (\<lambda>s. s\<lparr>s_public := (s_public s)(p := pw\<lparr>p_internal := None, p_closed := True\<rparr>)\<rparr>)))) (\<lambda>_. ?I) ?I"
    by (intro triple_seq)
qed (auto intro: triple_ret)

section \<open>Changes of owner\<close>

lemma keeps_update:
  "keeps (gmodify (\<lambda>s. s\<lparr>s_rule := (s_rule s)(r := (s_rule s r)\<lparr>r_owner := owner\<rparr>)\<rparr>))"
  "keeps (gmodify (\<lambda>s. s\<lparr>s_public_name := h s\<rparr>))"
  "keeps (gmodify (\<lambda>s. s\<lparr>s_info := (s_info s)(i := (s_info s i)\<lparr>ni_owner := owner\<rparr>)\<rparr>))"
  by (rule keeps_modify, simp add: names_inv_updates)+

lemma owner_callback_keeps: "keeps (owner_callback B cb owner)"
proof (cases cb)
  case (FollowOwner p rule)
  have "keeps (case r_sender r of [] \<Rightarrow> gfail (Panic ''index out of range'') | c # cs \<Rightarrow>
      if c = CHR '':'' then (if owner = [] then gbind (gtry (cancel_public B p)) (\<lambda>_. gret ()) else gret ())
      else gmodify (\<lambda>s. s\<lparr>s_rule := (s_rule s)(rule := (s_rule s rule)\<lparr>r_owner := owner\<rparr>)\<rparr>))" for r :: match_rule
    by (cases "r_sender r") (simp_all add: keeps_simple keeps_update keeps_try cancel_public_keeps)
  then show ?thesis unfolding owner_callback_def FollowOwner name_callback.case by (rule keeps_get)
next
  case (SendOwner n)
  have "keeps (if n_closed pn then gfail (Panic ''send on closed channel'')
          else if n_buffer pn \<noteq> [] then gfail (Blocked ''send on NameWatch.C'')
          else gmodify (\<lambda>s. s\<lparr>s_public_name := (s_public_name s)(n := pn\<lparr>n_buffer := [owner]\<rparr>)\<rparr>))" for pn :: public_name_watch
    by (simp add: keeps_simple keeps_update)
  then show ?thesis unfolding owner_callback_def SendOwner name_callback.case by (rule keeps_get)
qed

lemma owner_callbacks_keeps: "keeps (owner_callbacks B i nws)"
proof (induction nws)
  case (Cons nw nws)
  show ?case
    unfolding owner_callbacks.simps
  proof (rule keeps_get)
    show "keeps ((\<lambda>(cb, owner). gseq (owner_callback B cb owner) (owner_callbacks B i nws)) x)" for x
      by (cases x) (simp add: keeps_seq owner_callback_keeps Cons.IH del: owner_callbacks.simps)
  qed
qed (simp add: keeps_simple)

lemma set_owner_keeps: "keeps (set_owner B i owner)"
  unfolding set_owner_def by (intro keeps_seq keeps_update keeps_get owner_callbacks_keeps)

lemma handle_owner_change_keeps: "keeps (handle_owner_change B i owner acquired)"
  unfolding handle_owner_change_def
  by (cases acquired) (simp_all only: if_True if_False set_owner_keeps keeps_locked simp_thms)

lemma name_owner_changed_keeps: "keeps (name_owner_changed B i msg)"
  unfolding name_owner_changed_def
  by (auto simp: handle_owner_change_keeps keeps_simple split: sum.split list.split gval.split)

text \<open>A name that is not watched yet hears of no change; only the owner is noted.\<close>

definition nascent :: "string \<Rightarrow> nat \<Rightarrow> client \<Rightarrow> bool" where
  "nascent name i s \<longleftrightarrow> s_names s name = None \<and> ni_name (s_info s i) = name \<and> ni_watches (s_info s i) = [] \<and> info_ok s i"

lemma nascent_locks [simp]: "nascent name i (s\<lparr>s_locks := L\<rparr>) = nascent name i s"
  by (simp add: nascent_def info_ok_def)

lemma set_owner_nascent:
  "triple (\<lambda>s. names_inv {} k L s \<and> nascent name i s) (set_owner B i owner)
     (\<lambda>_ s. names_inv {} k L s \<and> nascent name i s) (names_inv {} k L)"
  unfolding triple_def
proof (intro allI impI)
  fix s assume s: "names_inv {} k L s \<and> nascent name i s"
  let ?s = "s\<lparr>s_info := (s_info s)(i := (s_info s i)\<lparr>ni_owner := owner\<rparr>)\<rparr>"
  have "set_owner B i owner s = (Inr (), ?s)"
    using s by (simp add: set_owner_def go_defs nascent_def)
  moreover have "names_inv {} k L ?s" using s by (simp add: names_inv_updates)
  moreover have "nascent name i ?s" using s by (auto simp: nascent_def info_ok_def)
  ultimately show "case set_owner B i owner s of (Inr x, s') \<Rightarrow> names_inv {} k L s' \<and> nascent name i s'
      | (Inl (Blocked b), s') \<Rightarrow> True | (Inl fail, s') \<Rightarrow> names_inv {} k L s'"
    by simp
qed

lemma handle_owner_change_nascent:
  "triple (\<lambda>s. names_inv {} k L s \<and> nascent name i s) (handle_owner_change B i owner acquired)
     (\<lambda>_ s. names_inv {} k L s \<and> nascent name i s) (names_inv {} k L)"
  unfolding handle_owner_change_def
  by (intro triple_if set_owner_nascent triple_locked) simp_all

lemma arrivals_nascent:
  "triple (\<lambda>s. names_inv {} k L s \<and> nascent name i s) (arrivals B i owners)
     (\<lambda>_ s. names_inv {} k L s \<and> nascent name i s) (names_inv {} k L)"
proof (induction owners)
  case (Cons owner owners)
  show ?case
    unfolding arrivals.simps by (rule triple_seq [OF handle_owner_change_nascent Cons.IH])
qed (simp add: triple_ret)

lemma check_current_owner_nascent:
  "triple (\<lambda>s. names_inv {} k L s \<and> nascent name i s) (check_current_owner B i)
     (\<lambda>_ s. names_inv {} k L s \<and> nascent name i s) (names_inv {} k L)"
  unfolding check_current_owner_def Let_def
proof (intro triple_get_bind triple_seq)
  fix x
  let ?I = "\<lambda>L s. names_inv {} k L s \<and> nascent name i s"
  show "triple (\<lambda>s. ?I L s \<and> ni_name (s_info s i) = x) (arrivals B i (b_meanwhile B x)) (\<lambda>_. ?I L) (names_inv {} k L)"
    by (rule triple_pre [OF arrivals_nascent]) simp
  have "triple (\<lambda>s. ?I L s \<and> ni_owner (s_info s i) = known)
      (if known = no_owner_yet then handle_owner_change B i owner True else gret ()) (\<lambda>_. ?I L) (names_inv {} k L)"
    for L known owner
    by (intro triple_if triple_pre [OF handle_owner_change_nascent] triple_ret) simp_all
  then show "triple (?I L) (locked (InfoLock i) (gbind (gget (\<lambda>s. ni_owner (s_info s i))) (\<lambda>known.
      if known = no_owner_yet
      then handle_owner_change B i (case b_get_name_owner B x of Inl err \<Rightarrow> [] | Inr owner \<Rightarrow> owner) True
      else gret ()))) (\<lambda>_. ?I L) (names_inv {} k L)"
    by (intro triple_locked triple_get_bind) simp_all
qed

section \<open>Watching names\<close>

lemma names_inv_unregistered:
  assumes "names_inv {} k L s" and "ni_watches info = []" and "\<And>name. s_names s name \<noteq> Some i"
  shows "names_inv {} k L (s\<lparr>s_info := (s_info s)(i := info)\<rparr>)" (is "names_inv {} k L ?s")
proof (rule names_invI)
  note inv = names_invD [OF assms(1)]
  have alike: "alike s ?s" by (simp add: alike_def)
  note set = alike_set_ok [OF inv(1) alike]
  show "set_ok ?s" by (rule set(1)) simp
  have c: "contents ?s = contents s" by (rule set(2)) simp
  show "k \<le> s_fresh ?s" "s_locks ?s = L" using inv(2,3) by simp_all
  show "ni_name (s_info ?s j) = name \<and> info_ok ?s j \<and> (j \<notin> {} \<longrightarrow> ni_watches (s_info ?s j) \<noteq> [])"
    if "s_names ?s name = Some j" for name j
  proof -
    have j: "ni_name (s_info s j) = name \<and> info_ok s j \<and> ni_watches (s_info s j) \<noteq> []" "j \<noteq> i"
      using that inv(4) [of name j] assms(3) [of name] by auto
    have "info_ok ?s j"
    proof (rule alike_info_ok [OF inv(1) alike])
      show "info_ok s j" using j by simp
      show "distinct (ni_watches (s_info ?s j))" using j by (simp add: info_ok_def)
      show "w \<in># contents ?s" if "w \<in># contents s" for w using that unfolding c .
    qed (use j(2) in simp_all)
    with j show ?thesis by simp
  qed
  show "s_names ?s (ni_name (s_info ?s j)) = Some j" if "ni_watches (s_info ?s j) \<noteq> []" for j
    using that inv(5) [of j] assms(2) by (auto split: if_splits)
  show "w < s_fresh ?s \<and> w_cb (s_watch ?s w) = SendSignal p" if "p_internal (s_public ?s p) = Some w" for p w
    by (rule alike_internal [OF assms(1) alike that])
qed

lemma names_inv_fresh_info:
  assumes "names_inv {} k L s" and "ni_watches info = []" and "i = s_fresh s"
  shows "names_inv {} k L (s\<lparr>s_fresh := i + 2, s_info := (s_info s)(i := info), s_rule := (s_rule s)(i + 1 := r)\<rparr>)"
proof -
  have un: "s_names s name \<noteq> Some i" for name
    using names_invD(4) [OF assms(1), of name i] assms(3) by (auto simp: info_ok_def)
  show ?thesis
    by (rule names_inv_frame [OF names_inv_unregistered [OF assms(1,2) un]])
      (simp_all add: alike_def assms(3) names_invD(3) [OF assms(1)])
qed

lemma new_name_info_triple:
  "triple (\<lambda>s. names_inv {} k L s \<and> s_names s name = None) (new_name_info B name)
     (\<lambda>i s. names_inv {} k L s \<and> nascent name i s) (names_inv {} k L)"
  unfolding triple_def
proof (intro allI impI)
  fix s assume s: "names_inv {} k L s \<and> s_names s name = None"
  let ?i = "s_fresh s"
  let ?info = "\<lparr>ni_name = name, ni_signal = None, ni_owner = no_owner_yet, ni_watches = []\<rparr>"
  let ?s = "s\<lparr>s_fresh := ?i + 2, s_info := (s_info s)(?i := ?info), s_rule := (s_rule s)(?i + 1 := owner_rule name)\<rparr>"
  let ?A = "\<lambda>f info names rule. ?i < f \<and> names name = None \<and> info ?i = ?info \<and> rule (?i + 1) = owner_rule name"
  let ?rest = "gbind (watch_signal B (?i + 1) (OwnerChanged ?i)) (\<lambda>w.
     gseq (gmodify (\<lambda>s. s\<lparr>s_info := (s_info s)(?i := (s_info s ?i)\<lparr>ni_signal := Some w\<rparr>)\<rparr>)) (
     gseq (check_current_owner B ?i) (
     gret ?i)))"
  let ?I = "names_inv {} k L"
  have run: "new_name_info B name s = ?rest ?s"
    by (simp add: new_name_info_def fresh_def go_defs)
  have start: "?I ?s \<and> ?i + 1 < s_fresh ?s \<and> ?A (s_fresh ?s) (s_info ?s) (s_names ?s) (s_rule ?s)"
    using s names_inv_fresh_info [of k L s ?info ?i "owner_rule name"] by simp
  have "triple (\<lambda>s. ?I s \<and> ?i + 1 < s_fresh s \<and> ?A (s_fresh s) (s_info s) (s_names s) (s_rule s)) ?rest
      (\<lambda>i s. ?I s \<and> nascent name i s) ?I"
  proof (rule triple_bind [OF watch_signal_triple], rule triple_seq, rule triple_modify)
    fix w s assume a: "?I s \<and> w \<in># contents s \<and> s_watch s w = \<lparr>w_rule = ?i + 1, w_cb = OwnerChanged ?i, w_cancelled = False\<rparr> \<and>
        (\<exists>f \<le> s_fresh s. ?A f (s_info s) (s_names s) (s_rule s))"
    let ?s = "s\<lparr>s_info := (s_info s)(?i := (s_info s ?i)\<lparr>ni_signal := Some w\<rparr>)\<rparr>"
    have "s_names s other \<noteq> Some ?i" for other
      using names_invD(4) [of "{}" k L s other ?i] a by auto
    then have "?I ?s" using a by (intro names_inv_unregistered) auto
    moreover have "nascent name ?i ?s"
      using a by (auto simp: nascent_def info_ok_def rules_of_def owner_rule_def)
    ultimately show "?I ?s \<and> nascent name ?i ?s" ..
  next
    show "triple (\<lambda>s. ?I s \<and> nascent name ?i s) (gseq (check_current_owner B ?i) (gret ?i))
        (\<lambda>i s. ?I s \<and> nascent name i s) ?I" for w
      by (rule triple_seq [OF check_current_owner_nascent]) (simp add: triple_ret)
  qed
  from this [unfolded triple_def, rule_format, OF start]
  show "case new_name_info B name s of (Inr i, s') \<Rightarrow> ?I s' \<and> nascent name i s'
      | (Inl (Blocked b), s') \<Rightarrow> True | (Inl fail, s') \<Rightarrow> ?I s'"
    unfolding run .
qed

lemma names_inv_registered:
  assumes "names_inv {} k L s" and "nascent name i s"
  shows "names_inv {i} k L (s\<lparr>s_names := (s_names s)(name \<mapsto> i)\<rparr>)" (is "names_inv {i} k L ?s")
proof (rule names_invI)
  note inv = names_invD [OF assms(1)]
  note n = assms(2) [unfolded nascent_def]
  have infos: "info_ok ?s j = info_ok s j" for j by (simp add: info_ok_def)
  show "set_ok ?s" using inv(1) by (simp add: set_ok_def)
  show "k \<le> s_fresh ?s" "s_locks ?s = L" using inv(2,3) by simp_all
  show "ni_name (s_info ?s j) = other \<and> info_ok ?s j \<and> (j \<notin> {i} \<longrightarrow> ni_watches (s_info ?s j) \<noteq> [])"
    if "s_names ?s other = Some j" for other j
    using that inv(4) [of other j] n unfolding infos by (auto split: if_splits)
  show "s_names ?s (ni_name (s_info ?s j)) = Some j" if "ni_watches (s_info ?s j) \<noteq> []" for j
    using that inv(5) [of j] n by auto
  show "w < s_fresh ?s \<and> w_cb (s_watch ?s w) = SendSignal p" if "p_internal (s_public ?s p) = Some w" for p w
    using that inv(6) by simp
qed

lemma names_inv_weaken: "names_inv {} k L s \<Longrightarrow> names_inv X k L s"
  by (rule names_invI) (auto dest: names_invD)

lemma name_info_of_triple:
  "triple (names_inv {} k L) (name_info_of B name)
     (\<lambda>i s. names_inv {i} k L s \<and> s_names s name = Some i) (names_inv {} k L)"
  unfolding name_info_of_def
proof (intro triple_get_bind triple_case_option)
  show "triple (\<lambda>s. names_inv {} k L s \<and> s_names s name = known) (gret i)
      (\<lambda>i s. names_inv {i} k L s \<and> s_names s name = Some i) (names_inv {} k L)" if "known = Some i" for known i
    using that by (intro triple_ret) (simp add: names_inv_weaken)
  fix known assume "known = (None :: nat option)"
  let ?Q = "\<lambda>i s. names_inv {i} k L s \<and> s_names s name = Some i"
  have "triple (\<lambda>s. names_inv {} k L s \<and> nascent name i s)
      (gseq (gmodify (\<lambda>s. s\<lparr>s_names := (s_names s)(name \<mapsto> i)\<rparr>)) (gret i)) ?Q (names_inv {} k L)" for i
    by (rule triple_seq [where R = "?Q i"])
      (auto intro!: triple_modify triple_ret simp: names_inv_registered)
  from triple_bind [OF new_name_info_triple this]
  show "triple (\<lambda>s. names_inv {} k L s \<and> s_names s name = known) (gbind (new_name_info B name) (\<lambda>i.
      gseq (gmodify (\<lambda>s. s\<lparr>s_names := (s_names s)(name \<mapsto> i)\<rparr>)) (gret i))) ?Q (names_inv {} k L)"
    by (rule triple_pre) (simp add: \<open>known = None\<close>)
qed

lemma names_inv_name_watched:
  assumes "names_inv {i} k L s" and "s_names s name = Some i" and "nw = s_fresh s"
  shows "names_inv {} k L (s\<lparr>s_fresh := nw + 1, s_name_watch := (s_name_watch s)(nw := \<lparr>nw_info = i, nw_cb = cb\<rparr>),
      s_info := (s_info s)(i := (s_info s i)\<lparr>ni_watches := ni_watches (s_info s i) @ [nw]\<rparr>)\<rparr>)" (is "names_inv {} k L ?s")
proof (rule names_invI)
  note inv = names_invD [OF assms(1)]
  have alike: "alike s ?s" by (simp add: alike_def assms(3))
  note set = alike_set_ok [OF inv(1) alike]
  show "set_ok ?s" by (rule set(1)) simp
  have c: "contents ?s = contents s" by (rule set(2)) simp
  show "k \<le> s_fresh ?s" "s_locks ?s = L" using inv(2,3) assms(3) by simp_all
  show "ni_name (s_info ?s j) = other \<and> info_ok ?s j \<and> (j \<notin> {} \<longrightarrow> ni_watches (s_info ?s j) \<noteq> [])"
    if "s_names ?s other = Some j" for other j
  proof -
    have j: "ni_name (s_info s j) = other \<and> info_ok s j \<and> (j \<notin> {i} \<longrightarrow> ni_watches (s_info s j) \<noteq> [])"
      using that by (intro inv(4)) simp
    have "info_ok ?s j"
    proof (rule alike_info_ok [OF inv(1) alike])
      show "info_ok s j" using j by simp
      show "distinct (ni_watches (s_info ?s j))" using j assms(3) by (auto simp: info_ok_def)
      show "nw' \<in> set (ni_watches (s_info s j)) \<or> nw' < s_fresh ?s \<and> nw_info (s_name_watch ?s nw') = j"
        if "nw' \<in> set (ni_watches (s_info ?s j))" for nw'
        using that by (auto split: if_splits)
      show "w \<in># contents ?s" if "w \<in># contents s" for w using that unfolding c .
    qed simp_all
    with j show ?thesis by auto
  qed
  show "s_names ?s (ni_name (s_info ?s j)) = Some j" if "ni_watches (s_info ?s j) \<noteq> []" for j
    using that inv(5) [of j] inv(4) [OF assms(2)] assms(2) by (auto split: if_splits)
  show "w < s_fresh ?s \<and> w_cb (s_watch ?s w) = SendSignal p" if "p_internal (s_public ?s p) = Some w" for p w
    by (rule alike_internal [OF assms(1) alike that])
qed

lemma add_name_watch_triple:
  "triple (\<lambda>s. names_inv {i} k L s \<and> s_names s name = Some i) (add_name_watch B i cb) (\<lambda>_. names_inv {} k L) (names_inv {} k L)"
  unfolding triple_def
proof (intro allI impI)
  fix s assume s: "names_inv {i} k L s \<and> s_names s name = Some i"
  let ?nw = "s_fresh s"
  let ?s = "s\<lparr>s_fresh := ?nw + 1, s_name_watch := (s_name_watch s)(?nw := \<lparr>nw_info = i, nw_cb = cb\<rparr>),
      s_info := (s_info s)(i := (s_info s i)\<lparr>ni_watches := ni_watches (s_info s i) @ [?nw]\<rparr>)\<rparr>"
  let ?rest = "gbind (gget (\<lambda>s. ni_owner (s_info s i))) (\<lambda>owner.
      gseq (if owner \<noteq> no_owner_yet then owner_callback B cb owner else gret ()) (gret ?nw))"
  have run: "add_name_watch B i cb s = ?rest ?s"
    by (simp add: add_name_watch_def fresh_def go_defs)
  have start: "names_inv {} k L ?s" using s names_inv_name_watched by blast
  have "keeps (if owner \<noteq> no_owner_yet then owner_callback B cb owner else gret ())" for owner
    by (cases "owner = no_owner_yet") (simp_all add: owner_callback_keeps keeps_simple)
  then have "keeps ?rest" by (intro keeps_get keeps_seq keeps_simple)
  from keepsD [OF this, of k L, unfolded triple_def, rule_format, OF start]
  show "case add_name_watch B i cb s of (Inr x, s') \<Rightarrow> names_inv {} k L s'
      | (Inl (Blocked b), s') \<Rightarrow> True | (Inl fail, s') \<Rightarrow> names_inv {} k L s'"
    unfolding run .
qed

lemma ensure_name_watch_keeps: "keeps (ensure_name_watch B name cb)"
  unfolding ensure_name_watch_def
proof (rule keeps_locked, intro allI triple_bind [OF name_info_of_triple])
  fix k L i
  show "triple (\<lambda>s. names_inv {i} k L s \<and> s_names s name = Some i) (locked (InfoLock i) (add_name_watch B i cb))
      (\<lambda>_. names_inv {} k L) (names_inv {} k L)"
    using triple_locked [where X = "{i}" and Y = "{}" and Z = "{}" and A = "\<lambda>s. s_names s name = Some i" and C = "\<lambda>_ _. True"
        and m = "add_name_watch B i cb" and l = "InfoLock i" and L = L and k = k] add_name_watch_triple
    by simp
qed

section \<open>Watches and names of the program\<close>

lemma triple_locked_keeps:
  assumes "\<And>L. triple (names_inv {} k L) m (\<lambda>_. names_inv {} k L) (names_inv {} k L)"
  shows "triple (names_inv {} k L) (locked l m) (\<lambda>_. names_inv {} k L) (names_inv {} k L)"
  using triple_locked [where X = "{}" and Y = "{}" and Z = "{}" and A = "\<lambda>_. True" and C = "\<lambda>_ _. True" and m = m and l = l
      and k = k and L = L] assms
  by simp

lemma fresh_keeps: "keeps fresh"
  by (simp add: triple_def fresh_def names_inv_updates(4))

lemma keeps_public:
  "keeps (gmodify (\<lambda>s. s\<lparr>s_public := (s_public s)(p := (s_public s p)\<lparr>p_name := nw\<rparr>)\<rparr>))"
  "p_internal pw = None \<Longrightarrow> keeps (gmodify (\<lambda>s. s\<lparr>s_public := (s_public s)(p := pw)\<rparr>))"
  by (rule keeps_modify, simp add: names_inv_updates)+

lemma remove_name_watch_keeps: "keeps (remove_name_watch B nw)"
  using remove_name_watch_triple [where A = "\<lambda>_. True"] by simp

lemma names_inv_internal:
  assumes "names_inv {} k L s" and "w \<in># contents s" and "w_cb (s_watch s w) = SendSignal p"
  shows "names_inv {} k L (s\<lparr>s_public := (s_public s)(p := (s_public s p)\<lparr>p_internal := Some w\<rparr>)\<rparr>)" (is "names_inv {} k L ?s")
proof (rule names_invI)
  note inv = names_invD [OF assms(1)]
  show "set_ok ?s" using inv(1) by (simp add: set_ok_def)
  show "k \<le> s_fresh ?s" "s_locks ?s = L" using inv(2,3) by simp_all
  show "ni_name (s_info ?s i) = name \<and> info_ok ?s i \<and> (i \<notin> {} \<longrightarrow> ni_watches (s_info ?s i) \<noteq> [])"
    if "s_names ?s name = Some i" for name i
    using that inv(4) [of name i] by (auto simp: info_ok_def)
  show "s_names ?s (ni_name (s_info ?s i)) = Some i" if "ni_watches (s_info ?s i) \<noteq> []" for i
    using that inv(5) [of i] by simp
  show "w' < s_fresh ?s \<and> w_cb (s_watch ?s w') = SendSignal q" if "p_internal (s_public ?s q) = Some w'" for q w'
    using that inv(6) [of q w'] inv(1) assms(2,3) by (auto simp: set_ok_def split: if_splits)
qed

lemma watch_public_triple:
  assumes "rule < k"
  shows "triple (names_inv {} k L) (watch_public B rule) (\<lambda>_. names_inv {} k L) (names_inv {} k L)"
  unfolding watch_public_def
proof (intro triple_read triple_if triple_fail triple_bind [OF fresh_keeps [rule_format]]
    triple_seq [OF keeps_public(2) [rule_format]] triple_locked_keeps)
  fix r :: match_rule and p L
  let ?I = "names_inv {} k L"
  let ?found = "\<lambda>w s. ?I s \<and> w \<in># contents s \<and> s_watch s w = \<lparr>w_rule = rule, w_cb = SendSignal p, w_cancelled = False\<rparr>"
  let ?named = "if r_sender r \<noteq> [] \<and> r_sender r \<noteq> bus_name
    then gbind (ensure_name_watch B (r_sender r) (FollowOwner p rule)) (\<lambda>nw.
      gmodify (\<lambda>s. s\<lparr>s_public := (s_public s)(p := (s_public s p)\<lparr>p_name := Some nw\<rparr>)\<rparr>))
    else gret ()"
  let ?undo = "\<lambda>err. gbind (gget (\<lambda>s. p_name (s_public s p))) (\<lambda>nw.
      gseq (case nw of None \<Rightarrow> gret () | Some nw \<Rightarrow> gbind (gtry (remove_name_watch B nw)) (\<lambda>_. gret ())) (gfail (Error err)))
      :: nat go"
  let ?made = "\<lambda>w. gseq (gmodify (\<lambda>s. s\<lparr>s_public := (s_public s)(p := (s_public s p)\<lparr>p_internal := Some w\<rparr>)\<rparr>)) (gret p)"
  have "keeps ?named"
    by (cases "r_sender r \<noteq> [] \<and> r_sender r \<noteq> bus_name")
      (simp_all only: if_True if_False keeps_bind ensure_name_watch_keeps keeps_public keeps_simple simp_thms)
  moreover have "keeps (case nw of None \<Rightarrow> gret () | Some nw \<Rightarrow> gbind (gtry (remove_name_watch B nw)) (\<lambda>_. gret ()))" for nw
    by (cases nw) (simp_all add: keeps_simple keeps_try remove_name_watch_keeps)
  then have "keeps (?undo err)" for err by (intro keeps_get keeps_seq keeps_simple)
  moreover have "triple (?found w) (?made w) (\<lambda>_. ?I) ?I" for w
    by (rule triple_seq [where R = ?I]) (auto intro!: triple_modify triple_ret names_inv_internal)
  moreover have "triple ?I (watch_signal B rule (SendSignal p)) ?found ?I"
    by (rule triple_post [OF triple_pre [OF watch_signal_triple [where A = "\<lambda>_ _ _ _. True"]]])
      (use assms in \<open>auto dest: names_invD(2)\<close>)
  ultimately show "triple ?I (gseq ?named (gbind (gtry (watch_signal B rule (SendSignal p))) (\<lambda>internal.
      case internal of Inl err \<Rightarrow> ?undo err | Inr w \<Rightarrow> ?made w))) (\<lambda>_. ?I) ?I"
    by (intro triple_seq [where R = ?I] triple_bind [OF triple_try]) (auto split: sum.split)
qed simp_all

lemma names_inv_new_rule:
  assumes "names_inv {} k L s"
  shows "names_inv {} (s_fresh s + 1) L (s\<lparr>s_fresh := s_fresh s + 1, s_rule := (s_rule s)(s_fresh s := r)\<rparr>)"
    (is "names_inv {} ?k L ?s")
proof -
  have "names_inv {} k L ?s"
    by (rule names_inv_frame [OF assms]) (simp_all add: alike_def names_invD(3) [OF assms])
  then show ?thesis by (auto simp: names_inv_def)
qed

lemma names_inv_lower: "names_inv X k' L s \<Longrightarrow> k \<le> k' \<Longrightarrow> names_inv X k L s"
  by (simp add: names_inv_def)

definition new_rule :: "match_rule \<Rightarrow> nat go" where
  "new_rule r = gbind fresh (\<lambda>rule. gseq (gmodify (\<lambda>s. s\<lparr>s_rule := (s_rule s)(rule := r)\<rparr>)) (gret rule))"

lemma proxy_watch_signal_keeps: "keeps (proxy_watch_signal B destination path iface member)"
proof (intro allI)
  fix k L
  show "triple (names_inv {} k L) (proxy_watch_signal B destination path iface member) (\<lambda>_. names_inv {} k L) (names_inv {} k L)"
    unfolding triple_def
  proof (intro allI impI)
    fix s assume s: "names_inv {} k L s"
    let ?k = "s_fresh s + 1"
    let ?s = "s\<lparr>s_fresh := ?k, s_rule := (s_rule s)(s_fresh s := proxy_rule destination path iface member)\<rparr>"
    have run: "proxy_watch_signal B destination path iface member s = watch_public B (s_fresh s) ?s"
      by (simp add: proxy_watch_signal_def fresh_def go_defs)
    have "k \<le> ?k" using names_invD(2) [OF s] by simp
    then have lower: "names_inv {} ?k L s' \<Longrightarrow> names_inv {} k L s'" for s' by (rule names_inv_lower [rotated])
    have "triple (names_inv {} ?k L) (watch_public B (s_fresh s)) (\<lambda>_. names_inv {} k L) (names_inv {} k L)"
      by (rule triple_post [OF watch_public_triple lower lower]) simp_all
    from this [unfolded triple_def, rule_format, OF names_inv_new_rule [OF s]]
    show "case proxy_watch_signal B destination path iface member s of (Inr x, s') \<Rightarrow> names_inv {} k L s'
        | (Inl (Blocked b), s') \<Rightarrow> True | (Inl fail, s') \<Rightarrow> names_inv {} k L s'"
      unfolding run .
  qed
qed

lemma watch_name_keeps: "keeps (watch_name B name)"
  unfolding watch_name_def
proof (intro keeps_bind [OF fresh_keeps] keeps_seq keeps_update allI triple_bind [OF triple_try [OF ensure_name_watch_keeps [rule_format]]])
  fix n k L res
  let ?I = "names_inv {} k L"
  show "triple (\<lambda>s. case res of Inl err \<Rightarrow> ?I s | Inr y \<Rightarrow> ?I s) (case res of
      Inl err \<Rightarrow> gret (n, Some err)
    | Inr nw \<Rightarrow> gseq (gmodify (\<lambda>s. s\<lparr>s_public_name := (s_public_name s)(n := (s_public_name s n)\<lparr>n_watch := Some nw\<rparr>)\<rparr>))
        (gret (n, None))) (\<lambda>_. ?I) ?I"
    by (cases res) (auto intro!: triple_ret triple_seq [where R = ?I] triple_modify names_inv_updates)
qed

lemma cancel_name_keeps: "keeps (cancel_name B n)"
  unfolding cancel_name_def
proof (rule keeps_locked, rule keeps_get)
  fix pn :: public_name_watch
  show "keeps (if n_cancelled pn then gret () else case n_watch pn of
      None \<Rightarrow> gfail (Panic ''nil pointer dereference'')
    | Some nw \<Rightarrow> gseq (remove_name_watch B nw) (gmodify (\<lambda>s. s\<lparr>s_public_name := (s_public_name s)(n :=
        (s_public_name s n)\<lparr>n_closed := True, n_cancelled := True\<rparr>)\<rparr>)))"
    by (cases "n_cancelled pn"; cases "n_watch pn")
      (simp_all only: if_True if_False option.case keeps_simple keeps_seq remove_name_watch_keeps keeps_update simp_thms)
qed

section \<open>Runs\<close>

text \<open>
  What a program does with its watches: it makes a rule, watches a signal by a rule or by an object, cancels,
  watches a name, cancels that, and receives from the channel of a \<open>NameWatch\<close>. The receiving goroutine
  calls the callbacks for the signals that arrive. \<open>SignalWatch.C\<close> is a rendezvous and has no state.
\<close>

datatype operation = MakeRule match_rule | WatchRule nat | WatchObject string string string string | CancelSignal nat |
  FollowName string | CancelName nat | ReceiveOwner nat | SignalArrives watch message

definition call_watch :: "daemon \<Rightarrow> watch \<Rightarrow> message \<Rightarrow> unit go" where
  "call_watch B w msg =
     gbind (gget (\<lambda>s. w_cb (s_watch s w))) (\<lambda>cb.
     case cb of SendSignal p \<Rightarrow> gret () | OwnerChanged i \<Rightarrow> name_owner_changed B i msg)"

definition ignored :: "'a go \<Rightarrow> unit go" where
  "ignored m = gbind m (\<lambda>_. gret ())"

fun perform :: "daemon \<Rightarrow> operation \<Rightarrow> unit go" where
  "perform B (MakeRule r) = ignored (new_rule (r\<lparr>r_owner := []\<rparr>))"
| "perform B (WatchRule rule) = ignored (watch_public B rule)"
| "perform B (WatchObject destination path iface member) = ignored (proxy_watch_signal B destination path iface member)"
| "perform B (CancelSignal p) = cancel_public B p"
| "perform B (FollowName name) = ignored (watch_name B name)"
| "perform B (CancelName n) = cancel_name B n"
| "perform B (ReceiveOwner n) =
     gmodify (\<lambda>s. s\<lparr>s_public_name := (s_public_name s)(n := (s_public_name s n)\<lparr>n_buffer := []\<rparr>)\<rparr>)"
| "perform B (SignalArrives w msg) = call_watch B w msg"

text \<open>The rule of a call exists. The daemon may answer each call as it likes.\<close>

definition possible :: "client \<Rightarrow> operation \<Rightarrow> bool" where
  "possible s opn = (case opn of WatchRule rule \<Rightarrow> rule < s_fresh s | _ \<Rightarrow> True)"

inductive reached :: "client \<Rightarrow> bool" where
  start: "reached no_client"
| operation: "reached s \<Longrightarrow> possible s opn \<Longrightarrow> perform B opn s = (r, s') \<Longrightarrow> not_blocked r \<Longrightarrow> reached s'"

lemma ignored_keeps: "keeps m \<Longrightarrow> keeps (ignored m)"
  unfolding ignored_def by (intro keeps_bind keeps_simple)

lemma new_rule_keeps: "keeps (new_rule r)"
proof (intro allI)
  fix k L
  show "triple (names_inv {} k L) (new_rule r) (\<lambda>_. names_inv {} k L) (names_inv {} k L)"
    unfolding triple_def
  proof (intro allI impI)
    fix s assume s: "names_inv {} k L s"
    have "k \<le> s_fresh s + 1" using names_invD(2) [OF s] by simp
    from names_inv_lower [OF names_inv_new_rule [OF s] this]
    show "case new_rule r s of (Inr x, s') \<Rightarrow> names_inv {} k L s'
        | (Inl (Blocked b), s') \<Rightarrow> True | (Inl fail, s') \<Rightarrow> names_inv {} k L s'"
      by (simp add: new_rule_def fresh_def go_defs)
  qed
qed

lemma call_watch_keeps: "keeps (call_watch B w msg)"
  unfolding call_watch_def
proof (rule keeps_get)
  show "keeps (case cb of SendSignal p \<Rightarrow> gret () | OwnerChanged i \<Rightarrow> name_owner_changed B i msg)" for cb
    by (cases cb) (simp_all add: keeps_simple name_owner_changed_keeps)
qed

lemma perform_triple:
  assumes "\<And>rule. opn = WatchRule rule \<Longrightarrow> rule < k"
  shows "triple (names_inv {} k L) (perform B opn) (\<lambda>_. names_inv {} k L) (names_inv {} k L)"
proof (cases opn)
  case (WatchRule rule)
  from triple_bind [OF watch_public_triple [OF assms [OF this]] keeps_simple(1) [rule_format]]
  show ?thesis by (simp add: WatchRule ignored_def)
qed (simp_all add: ignored_keeps new_rule_keeps proxy_watch_signal_keeps cancel_public_keeps watch_name_keeps
  cancel_name_keeps keeps_update call_watch_keeps)

lemma reached_names_inv: "reached s \<Longrightarrow> names_inv {} 0 {} s"
proof (induction rule: reached.induct)
  case start
  show ?case
    by (simp add: names_inv_def set_ok_def no_client_def watches.inv_start watches.contents_start)
next
  case (operation s opn B r s')
  let ?k = "case opn of WatchRule rule \<Rightarrow> Suc rule | _ \<Rightarrow> 0"
  have "?k \<le> s_fresh s" using operation.hyps(2) by (simp add: possible_def split: operation.splits)
  then have "names_inv {} ?k {} s" using operation.IH by (simp add: names_inv_def)
  moreover have "triple (names_inv {} ?k {}) (perform B opn) (\<lambda>_. names_inv {} ?k {}) (names_inv {} ?k {})"
    by (rule perform_triple) simp
  ultimately have "names_inv {} ?k {} s'"
    using operation.hyps(3,4) by (fastforce simp: triple_def not_blocked_def split: sum.splits failure.splits)
  then show ?case by (rule names_inv_lower) simp
qed

text \<open>A signal of the daemon that the owner of a name has changed.\<close>

definition owner_change :: "string \<Rightarrow> message \<Rightarrow> bool" where
  "owner_change name msg \<longleftrightarrow> m_type msg = TypeSignal \<and> m_sender msg = bus_name \<and> m_path msg = bus_path \<and>
     m_iface msg = bus_iface \<and> m_member msg = ''NameOwnerChanged'' \<and> first_string msg = Some name"

lemma owner_change_found:
  assumes "set_ok s" and "info_ok s i" and "owner_change (ni_name (s_info s i)) msg"
  shows "\<exists>w \<in> set (ws_find (rules_of s) msg (s_set s)). w_cb (s_watch s w) = OwnerChanged i"
proof -
  obtain w where w: "w \<in># contents s" "w_cb (s_watch s w) = OwnerChanged i"
      "(rules_of s w)\<lparr>r_owner := []\<rparr> = owner_rule (ni_name (s_info s i))"
    using assms(2) by (auto simp: info_ok_def)
  obtain r where "rules_of s w = owner_rule (ni_name (s_info s i))\<lparr>r_owner := r\<rparr>"
    using w(3) by (metis match_rule.surjective match_rule.update_convs(7))
  then have "rule_match (rules_of s w) msg"
    using assms(3) by (simp add: rule_match_def owner_rule_def owner_change_def)
  moreover have "ws_inv (rules_of s) (s_set s)" using assms(1) by (simp add: set_ok_def)
  ultimately have "w \<in># mset (ws_find (rules_of s) msg (s_set s))"
    using w(1) by (simp add: watches.find_contents)
  with w(2) show ?thesis by auto
qed

text \<open>
  C15. Whatever the program does and the bus daemon answers, calls that fail included, between two calls that
  return no lock is held; every name in the table has at least one watch, each of its watches is listed
  once, and a name that is not in the table has none; and a change of its owner is delivered to it, since
  the set has a watch that every \<open>NameOwnerChanged\<close> for the name finds, whose callback is that of the name.
\<close>

theorem names_consistent:
  assumes "reached s"
  shows "s_locks s = {} \<and>
    (\<forall>name i. s_names s name = Some i \<longrightarrow>
      ni_name (s_info s i) = name \<and> ni_watches (s_info s i) \<noteq> [] \<and> distinct (ni_watches (s_info s i)) \<and>
      (\<forall>nw \<in> set (ni_watches (s_info s i)). nw_info (s_name_watch s nw) = i) \<and>
      (\<forall>msg. owner_change name msg \<longrightarrow>
        (\<exists>w \<in> set (ws_find (rules_of s) msg (s_set s)). w_cb (s_watch s w) = OwnerChanged i))) \<and>
    (\<forall>i. ni_watches (s_info s i) \<noteq> [] \<longrightarrow> s_names s (ni_name (s_info s i)) = Some i)"
proof (intro conjI allI impI)
  note inv = names_invD [OF reached_names_inv [OF assms]]
  show "s_locks s = {}" by (rule inv(3))
  show "s_names s (ni_name (s_info s i)) = Some i" if "ni_watches (s_info s i) \<noteq> []" for i
    using that by (rule inv(5))
  fix name i assume i: "s_names s name = Some i"
  note ok = inv(4) [OF i]
  from ok show "ni_name (s_info s i) = name" "ni_watches (s_info s i) \<noteq> []" "distinct (ni_watches (s_info s i))"
      "\<forall>nw \<in> set (ni_watches (s_info s i)). nw_info (s_name_watch s nw) = i"
    by (auto simp: info_ok_def)
  show "\<exists>w \<in> set (ws_find (rules_of s) msg (s_set s)). w_cb (s_watch s w) = OwnerChanged i" if "owner_change name msg" for msg
    using ok that by (intro owner_change_found inv(1)) auto
qed

theorem names_consistent_witness:
  "\<exists>s i. perform (friendly '':1.7'') (FollowName ''a.b'') no_client = (Inr (), s) \<and> s_names s ''a.b'' = Some i \<and>
    ni_watches (s_info s i) \<noteq> [] \<and>
    (\<exists>w \<in> set (ws_find (rules_of s)
       ((snd (append_args (\<lambda>_ _. None) [(TString, VString ''a.b''), (TString, VString '':1.7''), (TString, VString [])]
         (new_signal_message bus_path bus_iface ''NameOwnerChanged'')))\<lparr>m_sender := bus_name\<rparr>) (s_set s)).
       w_cb (s_watch s w) = OwnerChanged i)"
proof -
  let ?B = "friendly '':1.7''" and ?msg = "(snd (append_args (\<lambda>_ _. None) [(TString, VString ''a.b''), (TString, VString '':1.7''), (TString, VString [])]
         (new_signal_message bus_path bus_iface ''NameOwnerChanged'')))\<lparr>m_sender := bus_name\<rparr>"
  let ?s1 = "no_client\<lparr>s_fresh := 1,
    s_public_name := (s_public_name no_client)(0 := \<lparr>n_watch = None, n_buffer = [], n_closed = False, n_cancelled = False\<rparr>)\<rparr>"
  let ?s2 = "name_watched 1 (SendOwner 0) (name_known ?B ''a.b'' ?s1)"
  let ?s = "?s2\<lparr>s_public_name := (s_public_name ?s2)(0 := (s_public_name ?s2 0)\<lparr>n_watch := Some 4\<rparr>)\<rparr>"
  have "ensure_name_watch ?B ''a.b'' (SendOwner 0) ?s1 = (Inr (s_fresh (name_known ?B ''a.b'' ?s1)), ?s2)"
    by (rule ensure_name_watch_ok) (simp_all add: info_at_def callback_ready_def no_client_def friendly_def)
  then have run: "perform ?B (FollowName ''a.b'') no_client = (Inr (), ?s)"
    by (simp add: ignored_def watch_name_def fresh_def go_defs) (simp add: no_client_def go_defs)
  have "s_names ?s ''a.b'' = Some 1" by simp
  have "reached ?s"
    by (rule reached.operation [OF reached.start _ run]) (simp_all add: possible_def not_blocked_def)
  moreover have "owner_change ''a.b'' ?msg" by code_simp
  ultimately show ?thesis
    using run \<open>s_names ?s ''a.b'' = Some 1\<close> names_consistent [of ?s] by blast
qed

end
