(* ===== verification/Introspect.thy ===== *)
theory Introspect
  imports Signatures
begin

text \<open>
  The data of introspection (introspect.go): interfaces with their methods and signals, read from XML. The
  file carries a constraint that keeps it out of builds (\<open>+build ignore\<close>); it is kept for stub generation.
\<close>

section \<open>Elements\<close>

text \<open>
  \<open>xml.Unmarshal\<close> is a parser, a parameter here, and a walk over the elements that the tags of the struct
  fields direct: a field \<open>xml:"n,attr"\<close> takes the attribute n, the last if there are several, a slice
  \<open>xml:"n"\<close> every child n in turn. Names are local names, since the tags name no name spaces.
\<close>

datatype xml = Element (tag: string) (attributes: "(string \<times> string) list") (children: "xml list")

definition attr :: "string \<Rightarrow> xml \<Rightarrow> string \<Rightarrow> string" where
  "attr name el old = fold (\<lambda>(k, v) x. if k = name then v else x) (attributes el) old"

definition each :: "string \<Rightarrow> (xml \<Rightarrow> 'a) \<Rightarrow> xml \<Rightarrow> 'a list" where
  "each name read el = map read (filter (\<lambda>c. tag c = name) (children el))"

section \<open>Data\<close>

record annotation_data =
  an_name :: string
  an_value :: string

record arg_data =
  ad_name :: string
  ad_type :: string
  ad_direction :: string

record method_data =
  md_name :: string
  md_arg :: "arg_data list"
  md_annotation :: annotation_data

record signal_data =
  sd_name :: string
  sd_arg :: "arg_data list"

record interface_data =
  id_name :: string
  id_method :: "method_data list"
  id_signal :: "signal_data list"

text \<open>A child node is a pointer to an interface value, which \<open>Unmarshal\<close> skips and leaves nil.\<close>

datatype introspect_data =
  IntrospectData (in_name: string) (in_interface: "interface_data list") (in_node: "introspect_data option list")

definition arg_data_of :: "xml \<Rightarrow> arg_data" where
  "arg_data_of el =
     \<lparr>ad_name = attr ''name'' el [], ad_type = attr ''type'' el [], ad_direction = attr ''direction'' el []\<rparr>"

text \<open>There is room for one annotation: a later one overwrites the attributes that it has.\<close>

definition read_annotation :: "xml \<Rightarrow> annotation_data \<Rightarrow> annotation_data" where
  "read_annotation el an = \<lparr>an_name = attr ''name'' el (an_name an), an_value = attr ''value'' el (an_value an)\<rparr>"

definition method_data_of :: "xml \<Rightarrow> method_data" where
  "method_data_of el =
     \<lparr>md_name = attr ''name'' el [], md_arg = each ''arg'' arg_data_of el,
      md_annotation = fold (\<lambda>f. f) (each ''annotation'' read_annotation el) \<lparr>an_name = [], an_value = []\<rparr>\<rparr>"

definition signal_data_of :: "xml \<Rightarrow> signal_data" where
  "signal_data_of el = \<lparr>sd_name = attr ''name'' el [], sd_arg = each ''arg'' arg_data_of el\<rparr>"

definition interface_data_of :: "xml \<Rightarrow> interface_data" where
  "interface_data_of el =
     \<lparr>id_name = attr ''name'' el [], id_method = each ''method'' method_data_of el,
      id_signal = each ''signal'' signal_data_of el\<rparr>"

definition introspect_data_of :: "xml \<Rightarrow> introspect_data" where
  "introspect_data_of el =
     IntrospectData (attr ''name'' el []) (each ''interface'' interface_data_of el) (each ''node'' (\<lambda>_. None) el)"

section \<open>Operations\<close>

definition new_introspect :: "(string \<Rightarrow> xml result) \<Rightarrow> string \<Rightarrow> introspect_data result" where
  "new_introspect parse xmlIntro = ebind (parse xmlIntro) (\<lambda>el. Inr (introspect_data_of el))"

definition get_interface_data :: "introspect_data \<Rightarrow> string \<Rightarrow> interface_data option" where
  "get_interface_data p name = find (\<lambda>v. id_name v = name) (in_interface p)"

definition get_method_data :: "interface_data \<Rightarrow> string \<Rightarrow> method_data option" where
  "get_method_data p name = find (\<lambda>v. md_name v = name) (id_method p)"

definition get_signal_data :: "interface_data \<Rightarrow> string \<Rightarrow> signal_data option" where
  "get_signal_data p name = find (\<lambda>v. sd_name v = name) (id_signal p)"

text \<open>
  \<open>strings.ToUpper\<close>, as far as a comparison with ASCII text can see: besides the ASCII letters, two runes have
  an ASCII capital, the dotless i (UTF-8 C4 B1) and the long s (C5 BF). Other bytes stay.
\<close>

definition upper_char :: "char \<Rightarrow> char" where
  "upper_char c = (let n = of_char c :: nat in if 97 \<le> n \<and> n \<le> 122 then char_of (n - 32) else c)"

fun to_upper :: "string \<Rightarrow> string" where
  "to_upper (c # d # cs) =
     (if c = CHR 0xC4 \<and> d = CHR 0xB1 then CHR ''I'' # to_upper cs
      else if c = CHR 0xC5 \<and> d = CHR 0xBF then CHR ''S'' # to_upper cs
      else upper_char c # to_upper (d # cs))"
| "to_upper [c] = [upper_char c]"
| "to_upper [] = []"

definition get_in_signature :: "method_data \<Rightarrow> string" where
  "get_in_signature p = fold (\<lambda>v sig. if to_upper (ad_direction v) = ''IN'' then sig @ ad_type v else sig) (md_arg p) []"

definition get_out_signature :: "method_data \<Rightarrow> string" where
  "get_out_signature p = fold (\<lambda>v sig. if to_upper (ad_direction v) = ''OUT'' then sig @ ad_type v else sig) (md_arg p) []"

definition get_signature :: "signal_data \<Rightarrow> string" where
  "get_signature p = fold (\<lambda>v sig. sig @ ad_type v) (sd_arg p) []"

section \<open>Descriptions\<close>

text \<open>
  An object as its author describes it: interfaces with methods, whose arguments go in or out, and signals;
  and the elements that the D-Bus specification gives for it.
\<close>

type_synonym method_description = "string \<times> (bool \<times> dty) list"
type_synonym signal_description = "string \<times> dty list"
type_synonym interface_description = "string \<times> method_description list \<times> signal_description list"

definition arg_element :: "bool \<times> dty \<Rightarrow> xml" where
  "arg_element = (\<lambda>(goes_in, t). Element ''arg''
     [(''type'', show_ty t), (''direction'', if goes_in then ''in'' else ''out'')] [])"

definition method_element :: "method_description \<Rightarrow> xml" where
  "method_element = (\<lambda>(name, args). Element ''method'' [(''name'', name)] (map arg_element args))"

definition signal_element :: "signal_description \<Rightarrow> xml" where
  "signal_element = (\<lambda>(name, ts). Element ''signal'' [(''name'', name)]
     (map (\<lambda>t. Element ''arg'' [(''type'', show_ty t)] []) ts))"

definition interface_element :: "interface_description \<Rightarrow> xml" where
  "interface_element = (\<lambda>(name, ms, ss). Element ''interface'' [(''name'', name)]
     (map method_element ms @ map signal_element ss))"

definition node_element :: "string \<Rightarrow> interface_description list \<Rightarrow> xml list \<Rightarrow> xml" where
  "node_element name ifs nodes = Element ''node'' [(''name'', name)] (map interface_element ifs @ nodes)"

lemma fold_append_if: "fold (\<lambda>v sig. if P v then sig @ f v else sig) xs acc = acc @ concat (map f (filter P xs))"
  by (induction xs arbitrary: acc) simp_all

lemma find_map_of: "(\<And>x. key (g x) = fst x) \<Longrightarrow> find (\<lambda>v. key v = k) (map g xs) = map_option (\<lambda>v. g (k, v)) (map_of xs k)"
  by (induction xs) auto

lemma to_upper_directions: "to_upper ''in'' = ''IN''" "to_upper ''out'' = ''OUT''"
  by code_simp+

lemma arg_data_of_element:
  "ad_type (arg_data_of (arg_element a)) = show_ty (snd a)"
  "to_upper (ad_direction (arg_data_of (arg_element a))) = (if fst a then ''IN'' else ''OUT'')"
  by (simp_all add: arg_data_of_def arg_element_def attr_def case_prod_beta to_upper_directions del: to_upper.simps)

lemma method_data_of_element:
  "get_in_signature (method_data_of (method_element (name, args))) = show_tys (map snd (filter fst args))"
  "get_out_signature (method_data_of (method_element (name, args))) = show_tys (map snd (filter (\<lambda>a. \<not> fst a) args))"
  "md_name (method_data_of (method_element (name, args))) = name"
proof -
  have "md_arg (method_data_of (method_element (name, args))) = map (\<lambda>a. arg_data_of (arg_element a)) args"
    by (simp add: method_data_of_def method_element_def arg_element_def each_def case_prod_beta comp_def)
  then show "get_in_signature (method_data_of (method_element (name, args))) = show_tys (map snd (filter fst args))"
    "get_out_signature (method_data_of (method_element (name, args))) = show_tys (map snd (filter (\<lambda>a. \<not> fst a) args))"
    by (simp_all add: get_in_signature_def get_out_signature_def fold_append_if filter_map arg_data_of_element comp_def if_distrib
        cong: if_cong)
  show "md_name (method_data_of (method_element (name, args))) = name"
    by (simp add: method_data_of_def method_element_def attr_def)
qed

lemma signal_data_of_element:
  "get_signature (signal_data_of (signal_element (name, ts))) = show_tys ts"
  "sd_name (signal_data_of (signal_element (name, ts))) = name"
proof -
  have "fold (\<lambda>v sig. sig @ ad_type v) xs acc = acc @ concat (map ad_type xs)" for xs :: "arg_data list" and acc
    using fold_append_if [of "\<lambda>_. True"] by simp
  then show "get_signature (signal_data_of (signal_element (name, ts))) = show_tys ts"
    by (simp add: get_signature_def signal_data_of_def signal_element_def each_def attr_def arg_data_of_def comp_def)
  show "sd_name (signal_data_of (signal_element (name, ts))) = name"
    by (simp add: signal_data_of_def signal_element_def attr_def)
qed

lemma interface_data_of_element:
  "id_name (interface_data_of (interface_element (name, ms, ss))) = name"
  "id_method (interface_data_of (interface_element (name, ms, ss))) = map (method_data_of \<circ> method_element) ms"
  "id_signal (interface_data_of (interface_element (name, ms, ss))) = map (signal_data_of \<circ> signal_element) ss"
  by (simp_all add: interface_data_of_def interface_element_def attr_def each_def method_element_def signal_element_def
      case_prod_beta comp_def)

text \<open>
  C30. What an object's description says is what the program finds: when the text is the description as
  elements, \<open>NewIntrospect\<close> returns data in which every interface is found by its name, in it
  every method with the concatenated types of the arguments that go in, and of those that go out, and every
  signal with its types, in order; and other names are not found. The data of child nodes is dropped.
\<close>

theorem description_found:
  assumes "parse text = Inr (node_element path ifs nodes)" and "\<forall>n \<in> set nodes. tag n = ''node''"
  shows "\<exists>p. new_introspect parse text = Inr p \<and> in_node p = map (\<lambda>_. None) nodes \<and>
    (case map_of ifs iface of
       None \<Rightarrow> get_interface_data p iface = None
     | Some (ms, ss) \<Rightarrow> \<exists>v. get_interface_data p iface = Some v \<and>
         (\<forall>m. map_option (\<lambda>md. (get_in_signature md, get_out_signature md)) (get_method_data v m) =
            map_option (\<lambda>args. (show_tys (map snd (filter fst args)), show_tys (map snd (filter (\<lambda>a. \<not> fst a) args))))
              (map_of ms m)) \<and>
         (\<forall>m. map_option get_signature (get_signal_data v m) = map_option show_tys (map_of ss m)))"
proof -
  let ?p = "introspect_data_of (node_element path ifs nodes)"
  have nodes: "filter (\<lambda>c. tag c = ''interface'') nodes = []" "filter (\<lambda>c. tag c = ''node'') nodes = nodes"
    using assms(2) by (auto simp: filter_empty_conv filter_id_conv)
  have ifs: "in_interface ?p = map (interface_data_of \<circ> interface_element) ifs" "in_node ?p = map (\<lambda>_. None) nodes"
    by (simp_all add: introspect_data_of_def node_element_def each_def nodes interface_element_def case_prod_beta comp_def)
  have "get_interface_data ?p iface = map_option (\<lambda>(ms, ss). interface_data_of (interface_element (iface, ms, ss))) (map_of ifs iface)"
    unfolding get_interface_data_def ifs
    by (subst find_map_of) (auto simp: interface_data_of_element intro!: option.map_cong)
  moreover have "get_method_data (interface_data_of (interface_element (n, ms, ss))) m =
      map_option (\<lambda>args. method_data_of (method_element (m, args))) (map_of ms m)" for n ms ss m
    unfolding get_method_data_def interface_data_of_element
    by (subst find_map_of) (auto simp: method_data_of_element)
  moreover have "get_signal_data (interface_data_of (interface_element (n, ms, ss))) m =
      map_option (\<lambda>ts. signal_data_of (signal_element (m, ts))) (map_of ss m)" for n ms ss m
    unfolding get_signal_data_def interface_data_of_element
    by (subst find_map_of) (auto simp: signal_data_of_element)
  ultimately show ?thesis
    using assms(1) ifs(2)
    by (intro exI [of _ ?p])
      (auto simp: new_introspect_def option.map_comp comp_def method_data_of_element signal_data_of_element split: option.split)
qed

theorem description_found_witness:
  "let text = ''<node/>'';
     el = node_element ''/o'' [(''a.I'', [(''Frobate'', [(True, DBasic CHR ''i''), (False, DBasic CHR ''s''),
       (False, DArr (DPair (DBasic CHR ''u'') (DBasic CHR ''s'')))])], [(''Changed'', [DBasic CHR ''b''])])] [Element ''node'' [] []]
   in \<exists>p v md. new_introspect (\<lambda>_. Inr el) text = Inr p \<and> get_interface_data p ''a.I'' = Some v \<and>
     get_method_data v ''Frobate'' = Some md \<and> get_out_signature md = ''sa{us}'' \<and> get_method_data v ''Hoo'' = None"
proof -
  let ?ifs = "[(''a.I'', [(''Frobate'', [(True, DBasic CHR ''i''), (False, DBasic CHR ''s''),
       (False, DArr (DPair (DBasic CHR ''u'') (DBasic CHR ''s'')))])], [(''Changed'', [DBasic CHR ''b''])])]"
  let ?el = "node_element ''/o'' ?ifs [Element ''node'' [] []]"
  obtain p v where p: "new_introspect (\<lambda>_. Inr ?el) ''<node/>'' = Inr p" "get_interface_data p ''a.I'' = Some v"
    and m: "\<And>m. map_option (\<lambda>md. (get_in_signature md, get_out_signature md)) (get_method_data v m) =
      map_option (\<lambda>args. (show_tys (map snd (filter fst args)), show_tys (map snd (filter (\<lambda>a. \<not> fst a) args))))
        (map_of (fst (snd (hd ?ifs))) m)"
    using description_found [of "\<lambda>_. Inr ?el" "''<node/>''" "''/o''" ?ifs "[Element ''node'' [] []]" "''a.I''"] by auto
  show ?thesis
    using p m [of "''Frobate''"] m [of "''Hoo''"] unfolding Let_def by fastforce
qed

text \<open>The signatures are valid when the types of the arguments are complete types.\<close>

lemma method_signatures_valid:
  assumes "\<forall>a \<in> set args. wf_ty (snd a)"
  shows "validate (get_in_signature (method_data_of (method_element (name, args)))) = Inr ()"
    and "validate (get_out_signature (method_data_of (method_element (name, args)))) = Inr ()"
proof -
  have valid: "validate (show_tys ts) = Inr ()" if "\<forall>t \<in> set ts. wf_ty t" for ts
    using that by (auto simp: validate_def validate_from_iff)
  show "validate (get_in_signature (method_data_of (method_element (name, args)))) = Inr ()"
    "validate (get_out_signature (method_data_of (method_element (name, args)))) = Inr ()"
    unfolding method_data_of_element by (rule valid; use assms in auto)+
qed

text \<open>
  The D-Bus specification lets a method leave out the direction of an argument that goes in; such an argument
  is in neither signature.
\<close>

lemma default_direction_lost:
  assumes "\<forall>a \<in> set (md_arg m). ad_direction a = []"
  shows "get_in_signature m = []" and "get_out_signature m = []"
  using assms by (auto simp: get_in_signature_def get_out_signature_def fold_append_if filter_empty_conv)

end
