(* ===== verification/Spec2Isabelle.thy ===== *)
theory Spec2Isabelle
  imports Calls BusNames Connect NamesInvariant Introspect
begin

text \<open>
  A verification development for the Go package dbus (directory src/), a client library for the D-Bus message
  bus. Names in this text are those of the source; a definition has the name of the function it models,
  written with underscores.

  The program and its parts. A program calls Connect (dbus.go), which finds the address of a bus, dials
  it (transport.go), authenticates (auth.go) and says Hello. From then on one goroutine, receiveLoop, reads
  messages from the connection (readMessage in message.go, over the decoder of decoder.go) and dispatches
  them: a method call to the handler of its object path, a reply to the call that waits for it, a signal to
  the watches whose rule it matches (matchrule.go, signal.go). Any number of goroutines make calls through
  object proxies (dbus.go, proxy.go), which append their arguments (encoder.go, driven by the types and
  signatures of types.go), number the message, register a channel for the reply, and write the message
  (WriteTo). Watches of signals follow the owner of the name they name as sender, and programs own names
  themselves (names.go); both rest on signals of the bus daemon.

  How Go is modelled (Prelude, GoValues, GoStrings). A call returns a value, an error, panics, or waits for
  ever: \<open>('e, 'a) outcome\<close> keeps the four apart, and every early return and every panic of the source is a
  branch. The types of Go that package reflect tells apart are a datatype, values another, \<open>has_type\<close> their
  typing; machine integers are words, strings are lists of 8-bit characters, maps are association lists
  where the order matters and Isabelle maps otherwise, pointers are numbers into a store. Maps of Go
  have no order; where the code ranges over one (the encoder), the list says in which order it did.

  Theories, and what their lemmas show.

  \<^item> Signatures (types.go): SignatureOf, NextType and Validate, against a grammar of types.
  \<^item> WireFormat: the D-Bus wire format as a specification, without Go; the interface binary.ByteOrder is
    the locale \<open>byte_codec\<close>, interpreted for the three widths. Encoder, EncoderSafety (encoder.go):
    appendValue by kind; Append is the marshalling of the specification, but for arrays whose contents
    need an alignment of 8 at an offset that is not, and it only ever appends.
  \<^item> Decoder, DecoderWire, DecoderTermination (decoder.go): decodeValue with its loops; it stores only values
    of the type of the variable, reads the wire format, and stops, but for arrays of empty structures.
    Codec: the round trip of encoder and decoder.
  \<^item> Messages, MessageIO (message.go): the record, its constructors, Args, AppendArgs and AsError; WriteTo over
    any writer and readMessage over the pieces in which a connection delivers its bytes.
  \<^item> MatchRules (matchrule.go), WatchSet (signal.go): rules as text and as predicates; the nested maps of
    signalWatchSet, whose contract, a multiset of watches, is the locale \<open>watch_registry\<close>.
  \<^item> Connection (dbus.go): serial numbers, sending, filters, handlers, dispatch and receiveLoop. Calls: any
    number of goroutines in SendWithReply together with the receiving goroutine, as a step relation with
    an invariant. Proxy (dbus.go, proxy.go): ObjectProxy.Call and all stubs.
  \<^item> Transport (transport.go), Auth (auth.go): addresses and Dial; both mechanisms with SHA-1, and the
    dialogue. Connect composes them.
  \<^item> Watches, WatchSteps, Owners, NamesInvariant (signal.go, names.go): SignalWatch, NameWatch and nameInfo
    with the mutexes the running goroutine holds; what each step leaves; the following of owners,
    cancelling, and an invariant of all operations, by preconditions and postconditions (Triples).
    BusNames (names.go): RequestName and Release, their outcome, and the invariant of the channel.
  \<^item> Introspect (introspect.go, which a constraint keeps out of builds): the data of introspection, read from
    the elements of an XML text, and its lookups, against descriptions of objects.

  Bounds and fuel. Some functions take a number of steps, because the code need not stop:
  \<open>decode_value\<close> with its loops (DecoderTermination gives a number that is enough for all data without empty
  structures, and shows that no number is enough for some others; DecoderWire gives one for marshalled
  values), \<open>read_message\<close> and \<open>all_args\<close>, which pass it on, and \<open>receive_loop\<close>, which runs until its connection
  ends. More steps never change an outcome (\<open>fuel_le\<close>). Sizes: the decoder is right for data shorter than
  $2^{32}$ bytes, as its offsets are 32-bit lengths of the format; signatures must be shorter than 256
  bytes, their length is one byte. These bounds are hypotheses where they are needed.

  Parameters, for what is not in the repository: the result of a program's own ObjectPath method, the
  writer and the pieces a connection delivers, files, the network, environment variables and random
  bytes, the server's lines, the answers of the peer and of the bus daemon; the XML parser under Unmarshal.

  Not modelled. Logging has no effect here. A byte order other than the two of encoding/binary, which no
  code of the package sets, is left out. Concurrency is modelled for calls (Calls); elsewhere an operation
  runs without interleaving, with the locks of its own goroutine, so that a goroutine that waits for itself
  is seen and a race between two is not. A program is taken not to change a rule after it has handed it
  to WatchSignal. What a failing Decode has already stored in its targets is not kept.
\<close>

section \<open>Properties across components\<close>

text \<open>
  C4. \<open>Append\<close> implements the D-Bus wire format: the bytes appended are the marshalled form of the
  arguments at the position where the buffer ends, and the signature grows by their types. Arguments
  with an array whose elements are aligned less strictly than something inside them are excluded.
\<close>

theorem append_marshals:
  assumes "args_dval M args = Some dvs" and "\<forall>dv \<in> set dvs. array_safe dv"
  shows "e_append M args e =
    Inr (e\<lparr>e_sig := e_sig e @ show_tys (map dval_ty dvs),
          e_data := e_data e @ marshal_list (e_order e) (length (e_data e)) dvs\<rparr>)"
  unfolding e_append_marshal [OF assms] by (simp add: e_write_def)

theorem append_marshals_witness:
  "e_append (\<lambda>_ _. None) [(TBool, VBool True), (TSlice TUint16, VList [VUint16 258])]
     (new_encoder ''y'' [7] BigEndian) =
   Inr \<lparr>e_sig = ''ybaq'', e_data = [7, 0, 0, 0, 0, 0, 0, 1, 0, 0, 0, 2, 1, 2], e_order = BigEndian\<rparr>"
proof -
  have "args_dval (\<lambda>_ _. None) [(TBool, VBool True), (TSlice TUint16, VList [VUint16 258])] =
      Some [DBoolean True, DArray (DBasic CHR ''q'') [DUint16 258]]"
    by code_simp
  note * = append_marshals [OF this, of "new_encoder ''y'' [7] BigEndian"]
  have "marshal_list BigEndian 1 [DBoolean True, DArray (DBasic CHR ''q'') [DUint16 258]] =
      [0, 0, 0, 0, 0, 0, 1, 0, 0, 0, 2, 1, 2]"
    by code_simp
  with * show ?thesis by (simp add: new_encoder_def)
qed

text \<open>
  C5. \<open>Decode\<close> implements the D-Bus wire format: where marshalled values stand in the data and their
  types in the signature, it stores them as the specification \<open>stored\<close> says, in at most as many steps
  as the values are large, and stops at the first byte after them.
\<close>

theorem decode_unmarshals:
  assumes "\<forall>dv \<in> set dvs. wf_dval dv" and "stored_args args dvs = Some ws" and "length args = length dvs"
    and "drop (d_off d) (d_data d) = marshal_list (d_order d) (d_off d) dvs @ after"
    and "drop (d_sigoff d) (d_sig d) = show_tys (map dval_ty dvs) @ rest"
    and "length (d_data d) < 2 ^ 32" and "size_list size dvs < n"
  shows "\<exists>d'. decode_args n args d = Inr (ws, d') \<and> drop (d_off d') (d_data d') = after \<and>
    drop (d_sigoff d') (d_sig d') = rest"
  using decode_args_stored [OF assms(1,2,7,6,4,5)] drop_append_addD [OF assms(4)] drop_append_addD [OF assms(5)]
    assms(3) by simp

theorem decode_unmarshals_witness:
  "\<exists>d'. decode_args 20 [PtrTo (TStruct [TUint16, TInterface]) (VStruct [VUint16 0, VNil])]
      \<lparr>d_sig = ''y(qs)'', d_data = [9, 0, 0, 0, 0, 0, 0, 0, 5, 0, 0, 0, 2, 0, 0, 0, 104, 105, 0],
       d_order = LittleEndian, d_off = 1, d_sigoff = 1\<rparr> =
    Inr ([VStruct [VUint16 5, VIface TString (VString ''hi'')]], d')"
proof -
  let ?d = "\<lparr>d_sig = ''y(qs)'', d_data = [9, 0, 0, 0, 0, 0, 0, 0, 5, 0, 0, 0, 2, 0, 0, 0, 104, 105, 0],
       d_order = LittleEndian, d_off = 1, d_sigoff = 1\<rparr> :: decoder"
  let ?dvs = "[DStruct [DUint16 5, DString ''hi'']]"
  have "\<forall>dv \<in> set ?dvs. wf_dval dv"
    and "stored_args [PtrTo (TStruct [TUint16, TInterface]) (VStruct [VUint16 0, VNil])] ?dvs =
      Some [VStruct [VUint16 5, VIface TString (VString ''hi'')]]"
    and "drop 1 [9, 0, 0, 0, 0, 0, 0, 0, 5, 0, 0, 0, 2, 0, 0, 0, 104, 105, 0] =
      marshal_list LittleEndian 1 ?dvs @ []"
    and "drop 1 ''y(qs)'' = show_tys (map dval_ty ?dvs) @ []"
    by code_simp+
  then show ?thesis
    using decode_unmarshals [of ?dvs _ _ ?d "[]" "[]" 20] by fastforce
qed




text \<open>
  C37. Decoding an array into a variable that is not an array, slice, map or blank interface reports no
  error: the variable is unchanged, and only the length has been read, so that the next argument is
  read from the contents of the array.
\<close>

theorem array_target_ignored:
  assumes "wf_dval (DArray ty vs)" and "length (d_data d) < 2 ^ 32"
    and "drop (d_off d) (d_data d) = marshal (d_order d) (d_off d) (DArray ty vs) @ after"
    and "drop (d_sigoff d) (d_sig d) = show_ty (DArr ty) @ rest"
    and "kind_of t \<notin> {KArray, KSlice, KMap}" and "t \<noteq> TInterface" and "vs \<noteq> []"
  shows "\<exists>d'. decode_args (Suc n) [PtrTo t v] d = Inr ([v], d') \<and>
    drop (d_sigoff d') (d_sig d') = rest \<and>
    d_off d' < d_off d + length (marshal (d_order d) (d_off d) (DArray ty vs))"
proof -
  define q where "q = d_off d + padlen 4 (d_off d) + 4"
  define body where "body = marshal_list (d_order d) (q + padlen (align_of ty) q) vs"
  define d1 where "d1 = d\<lparr>d_off := q, d_sigoff := d_sigoff d + 1\<rparr>"
  define d2 where "d2 = d1\<lparr>d_off := q + padlen (align_of ty) q\<rparr>"
  have ty: "wf_ty ty" using assms(1) by simp
  have sig: "drop (d_sigoff d) (d_sig d) = CHR ''a'' # show_ty ty @ rest" using assms(4) by simp
  have data: "drop (d_off d) (d_data d) = padding 4 (d_off d) @
      put_word (d_order d) 4 (of_nat (length body) :: 32 word) @ padding (align_of ty) q @ body @ after"
    using assms(3) by (simp add: Let_def body_def q_def)
  note start = array_start [OF sig ty assms(2) data q_def d1_def d2_def]
  note code = decode_value_array(6) [OF start(1-6) assms(5,6)]
  obtain w ws where "vs = w # ws" using assms(7) by (cases vs) auto
  then have "0 < length body"
    using marshal_not_Nil [of w] assms(1) by (auto simp: body_def Let_def)
  moreover have "length (marshal (d_order d) (d_off d) (DArray ty vs)) =
      padlen 4 (d_off d) + 4 + padlen (align_of ty) q + length body"
    by (simp add: Let_def body_def q_def)
  ultimately show ?thesis
    using code [of n v] drop_append_addD [of "d_sigoff d" "d_sig d" "CHR ''a'' # show_ty ty" rest] sig
    by (simp add: d2_def d1_def q_def)
qed

theorem array_target_ignored_witness:
  "\<exists>d'. decode_args 3 [PtrTo TInt32 (VInt32 42)]
      (new_decoder ''au'' [4, 0, 0, 0, 7, 0, 0, 0] LittleEndian) = Inr ([VInt32 42], d') \<and> d_off d' < 8"
proof -
  let ?d = "new_decoder ''au'' [4, 0, 0, 0, 7, 0, 0, 0] LittleEndian" and ?ty = "DBasic CHR ''u''"
  have p: "wf_dval (DArray ?ty [DUint32 7])"
    "drop (d_off ?d) (d_data ?d) = marshal (d_order ?d) (d_off ?d) (DArray ?ty [DUint32 7]) @ []"
    "drop (d_sigoff ?d) (d_sig ?d) = show_ty (DArr ?ty) @ []"
    "d_off ?d + length (marshal (d_order ?d) (d_off ?d) (DArray ?ty [DUint32 7])) = 8"
    by code_simp+
  have k: "length (d_data ?d) < 2 ^ 32" "kind_of TInt32 \<notin> {KArray, KSlice, KMap}" "TInt32 \<noteq> TInterface"
      "[DUint32 7] \<noteq> []"
    by (simp_all add: new_decoder_def)
  show ?thesis
    using array_target_ignored [OF p(1) k(1) p(2,3) k(2-4), of 2 "VInt32 42"]
    unfolding p(4) eval_nat_numeral(3) [symmetric] by blast
qed



end
